(* ===== verification/Prelude.thy ===== *)
theory Prelude
  imports Main "HOL-Library.Word"
begin

text \<open>
  Shared vocabulary of the development: the C integer types at their LP64 widths, the
  collections of simplification rules the component theories fill, and the generic facts
  on lists, loops and machine words that several components use.

  \<^item> \<open>u8\<close>, \<open>u16\<close>, \<open>u32\<close>, \<open>u64\<close> are the unsigned types of the program
    (\<open>unsigned long\<close>, \<open>unsigned long long\<close> and \<open>uint64_t\<close> are all \<open>u64\<close>).
  \<^item> \<open>word_eqs\<close> collects the bit-level characterisations of the word operations of
    the bit map library, \<open>topo_simps\<close> the read-after-write facts of the object store,
    \<open>ring_simps\<close> those of the packet rings.
\<close>

unbundle bit_operations_syntax

type_synonym u8 = "8 word"
type_synonym u16 = "16 word"
type_synonym u32 = "32 word"
type_synonym u64 = "64 word"

named_theorems word_eqs
named_theorems topo_simps
named_theorems ring_simps

section \<open>Loops over an index range\<close>

text \<open>
  A C loop \<open>for (k = 0; k < n; k++) s = body(k, s)\<close> is \<open>fold body [0..<n] s\<close>. The
  loop rule carries an invariant indexed by the number of completed rounds.
\<close>

lemma fold_upt_invariant:
  assumes "P 0 s"
    and "\<And>k s. k < n \<Longrightarrow> P k s \<Longrightarrow> P (Suc k) (body k s)"
  shows "P n (fold body [0..<n] s)"
  using assms by (induction n) auto

text \<open>The same rule for a loop that counts down from \<open>n - 1\<close> to \<open>0\<close>.\<close>

lemma fold_rev_upt_invariant:
  assumes "P n s"
    and "\<And>k s. k < n \<Longrightarrow> P (Suc k) s \<Longrightarrow> P k (body k s)"
  shows "P 0 (fold body (rev [0..<n]) s)"
  using assms
proof (induction n arbitrary: s)
  case 0
  then show ?case by simp
next
  case (Suc n)
  have "P n (body n s)" using Suc.prems by blast
  then have "P 0 (fold body (rev [0..<n]) (body n s))"
    using Suc.prems(2) by (intro Suc.IH) auto
  then show ?case by simp
qed

text \<open>A fold keeps what every round keeps.\<close>

lemma fold_invariant_set:
  assumes "P s" and "\<And>x s. x \<in> set xs \<Longrightarrow> P s \<Longrightarrow> P (f x s)"
  shows "P (fold f xs s)"
  using assms by (induction xs arbitrary: s) auto

section \<open>Lists\<close>

lemma nth_list_update_if: "i < length xs \<Longrightarrow> xs[k := x] ! i = (if i = k then x else xs ! i)"
  by (simp add: nth_list_update)

lemma find_Some_iff_nth:
  "List.find P xs = Some x \<Longrightarrow> x \<in> set xs \<and> P x"
  by (auto simp: find_Some_iff)

lemma remove1_append_one: "x \<in> set xs \<Longrightarrow> remove1 x xs @ ys = remove1 x (xs @ ys)"
  by (simp add: remove1_append)

section \<open>Bits of machine words\<close>

lemma bit_of_nat_bound: "bit (w :: 'a::len word) i \<Longrightarrow> i < LENGTH('a)"
  by (rule bit_imp_le_length)

lemma unat_less_exp_iff_high_bits:
  "unat (w :: 'a::len word) < 2 ^ n \<longleftrightarrow> (\<forall>i \<ge> n. \<not> bit w i)"
proof -
  have "unat w < 2 ^ n \<longleftrightarrow> take_bit n (unat w) = unat w"
    by (rule take_bit_nat_eq_self_iff [symmetric])
  also have "\<dots> \<longleftrightarrow> (\<forall>i. bit (take_bit n w) i = bit w i)"
    by (simp add: bit_eq_iff bit_take_bit_iff bit_unsigned_iff)
  also have "\<dots> \<longleftrightarrow> (\<forall>i \<ge> n. \<not> bit w i)"
    by (metis bit_take_bit_iff linorder_not_less)
  finally show ?thesis .
qed

lemma and_not_mask_eq_0_iff:
  "(w :: 'a::len word) AND NOT (mask n) = 0 \<longleftrightarrow> unat w < 2 ^ n"
  unfolding unat_less_exp_iff_high_bits
  by (auto simp: bit_eq_iff bit_simps not_less dest: bit_imp_le_length)

lemma unat_push_bit_no_loss:
  assumes "unat (w :: 'a::len word) < 2 ^ n" and "n + s \<le> LENGTH('a)"
  shows "unat (push_bit s w) = unat w * 2 ^ s"
proof -
  have "unat w * 2 ^ s < 2 ^ (n + s)" using assms(1) by (simp add: power_add)
  also have "\<dots> \<le> 2 ^ LENGTH('a)" using assms(2) by simp
  finally show ?thesis
    by (subst unsigned_push_bit_eq) (simp add: push_bit_eq_mult take_bit_nat_eq_self)
qed

text \<open>The bits of a number that ends in \<open>k\<close> given low bits.\<close>

lemma bit_shift_add:
  assumes "c < 2 ^ k"
  shows "bit (V * 2 ^ k + c :: nat) i \<longleftrightarrow> (if i < k then bit c i else bit V (i - k))"
proof (cases "i < k")
  case True
  have "bit (take_bit k (V * 2 ^ k + c)) i = bit (take_bit k c) i" by (simp add: take_bit_eq_mod)
  with True show ?thesis by (simp add: bit_take_bit_iff)
next
  case False
  have "bit (drop_bit k (V * 2 ^ k + c)) (i - k) = bit V (i - k)"
    using assms by (simp add: drop_bit_eq_div)
  with False show ?thesis by (simp add: bit_drop_bit_eq)
qed

lemma nat_bit_bound: "C < 2 ^ k \<Longrightarrow> bit (C :: nat) i \<Longrightarrow> i < k"
  by (metis bit_take_bit_iff take_bit_nat_eq_self)

lemma bit_of_nat_u32: "C < 2 ^ 32 \<Longrightarrow> bit (of_nat C :: u32) i \<longleftrightarrow> bit C i"
  using nat_bit_bound [of C 32 i] by (auto simp: bit_simps)

end
