(* ===== verification/Cwords.thy ===== *)
theory Cwords
  imports Prelude
begin

text \<open>
  The word level of bitmap.h and non-atomic.h: population count by parallel field
  summation (\<open>hweight32\<close>, \<open>hweight64\<close>, \<open>hweight_long\<close>), find-last-set (\<open>fls\<close>), the
  sizing macros, the last-word mask, and the single-bit operations on an array of
  \<open>unsigned long\<close>.

  \<open>popcount\<close> and the position of the highest bit are the abstract specifications; the
  lemmas show that the shift-and-mask routines compute them for every input.
\<close>

section \<open>Population count\<close>

definition hweight32 :: "u32 \<Rightarrow> u32" where
  "hweight32 w =
    (let res = w - (drop_bit 1 w AND 0x55555555);
         res = (res AND 0x33333333) + (drop_bit 2 res AND 0x33333333);
         res = (res + drop_bit 4 res) AND 0x0F0F0F0F;
         res = res + drop_bit 8 res
     in (res + drop_bit 16 res) AND 0x000000FF)"

text \<open>\<open>BITS_PER_LONG\<close> is 64, so the 32-bit branch of \<open>hweight64\<close> is not taken.\<close>

definition hweight64 :: "u64 \<Rightarrow> u64" where
  "hweight64 w =
    (let w = w - (drop_bit 1 w AND 0x5555555555555555);
         w = (w AND 0x3333333333333333) + (drop_bit 2 w AND 0x3333333333333333);
         w = (w + drop_bit 4 w) AND 0x0f0f0f0f0f0f0f0f
     in drop_bit 56 (w * 0x0101010101010101))"

definition hweight_long :: "u64 \<Rightarrow> u64" where
  "hweight_long w = hweight64 w"

text \<open>The specification: the number of bits that are set.\<close>

definition popcount :: "'a::len word \<Rightarrow> nat" where
  "popcount w = card {i. bit w i}"

subsection \<open>Bytes\<close>

text \<open>
  The value of a list of base-256 digits, least significant first, and the number of set
  bits of a byte. Every step of the routines maps a digit list to a digit list.
\<close>

fun bytes_val :: "int list \<Rightarrow> int" where
  "bytes_val [] = 0"
| "bytes_val (b # bs) = b + 256 * bytes_val bs"

fun byte_rep :: "nat \<Rightarrow> int \<Rightarrow> int" where
  "byte_rep 0 c = 0"
| "byte_rep (Suc n) c = c + 256 * byte_rep n c"

fun bitsum :: "nat \<Rightarrow> int \<Rightarrow> int" where
  "bitsum 0 x = 0"
| "bitsum (Suc n) x = x mod 2 + bitsum n (x div 2)"

definition is_bytes :: "int list \<Rightarrow> bool" where
  "is_bytes bs \<longleftrightarrow> (\<forall>b \<in> set bs. 0 \<le> b \<and> b < 256)"

lemma is_bytes_simps [simp]:
  "is_bytes []" "is_bytes (b # bs) \<longleftrightarrow> 0 \<le> b \<and> b < 256 \<and> is_bytes bs"
  by (auto simp: is_bytes_def)

lemma bytes_val_bounds:
  "is_bytes bs \<Longrightarrow> 0 \<le> bytes_val bs \<and> bytes_val bs < 256 ^ length bs"
  by (induction bs) auto

lemma bytes_exist:
  "0 \<le> x \<Longrightarrow> x < 256 ^ n \<Longrightarrow> \<exists>bs. length bs = n \<and> is_bytes bs \<and> bytes_val bs = x"
proof (induction n arbitrary: x)
  case 0
  then show ?case by simp
next
  case (Suc n)
  have "x div 256 < 256 ^ n" using Suc.prems by (simp add: div_less_iff_less_mult)
  then obtain bs where "length bs = n" "is_bytes bs" "bytes_val bs = x div 256"
    using Suc.IH [of "x div 256"] Suc.prems by (auto simp: pos_imp_zdiv_nonneg_iff)
  then show ?case by (intro exI [of _ "x mod 256 # bs"]) simp
qed

lemma bitsum_numeral: "bitsum (numeral n) x = x mod 2 + bitsum (pred_numeral n) (x div 2)"
  by (simp add: numeral_eq_Suc)

lemma byte_rep_numeral: "byte_rep (numeral n) c = c + 256 * byte_rep (pred_numeral n) c"
  by (simp add: numeral_eq_Suc)

lemma and_split:
  assumes "0 \<le> l" "l < 2 ^ s" "0 \<le> m" "m < 2 ^ s"
  shows "(l + 2 ^ s * x) AND (m + 2 ^ s * y) = (l AND m) + 2 ^ s * (x AND (y :: int))"
proof -
  have l: "take_bit s (l + 2 ^ s * x) = l" "drop_bit s (l + 2 ^ s * x) = x"
    using assms by (simp_all add: take_bit_eq_mod drop_bit_eq_div)
  have m: "take_bit s (m + 2 ^ s * y) = m" "drop_bit s (m + 2 ^ s * y) = y"
    using assms by (simp_all add: take_bit_eq_mod drop_bit_eq_div)
  have "n = take_bit s n + 2 ^ s * drop_bit s n" for n :: int
    by (simp add: take_bit_eq_mod drop_bit_eq_div)
  then show ?thesis
    by (metis l m take_bit_and drop_bit_and)
qed

lemmas and_split_byte = and_split [where s = 8, simplified]

subsection \<open>One step on a byte, one step on all bytes\<close>

definition sw1 :: "int \<Rightarrow> int \<Rightarrow> int" where
  "sw1 m x = x - (x div 2 AND m)"
definition sw2 :: "int \<Rightarrow> int \<Rightarrow> int" where
  "sw2 m x = (x AND m) + (x div 4 AND m)"
definition sw3 :: "int \<Rightarrow> int \<Rightarrow> int" where
  "sw3 m x = (x + x div 16) AND m"

definition sw_byte :: "int \<Rightarrow> int" where
  "sw_byte b = sw3 0x0f (sw2 0x33 (sw1 0x55 b))"

lemma byte_cases:
  assumes "0 \<le> b" "b < (256 :: int)"
  obtains b0 b1 b2 b3 b4 b5 b6 b7
  where "b = horner_sum of_bool 2 [b0, b1, b2, b3, b4, b5, b6, b7]"
proof -
  have "b = horner_sum of_bool 2 (map (bit b) [0..<8])"
    using assms by (simp add: horner_sum_bit_eq_take_bit take_bit_eq_mod)
  then show ?thesis using that by (simp add: upt_rec)
qed

lemma sw_byte_facts:
  assumes "0 \<le> b" "b < 256"
  shows "sw_byte b = bitsum 8 b"
    and "0 \<le> sw1 0x55 b \<and> sw1 0x55 b < 256"
    and "sw2 0x33 (sw1 0x55 b) \<in> {x. 0 \<le> x \<and> x < 256 \<and> x mod 16 \<le> 4 \<and> x div 16 \<le> 4}"
    and "0 \<le> bitsum 8 b \<and> bitsum 8 b \<le> 8"
  by (rule byte_cases [OF assms];
      case_tac b0; case_tac b1; case_tac b2; case_tac b3; case_tac b4; case_tac b5; case_tac b6;
      case_tac b7; simp add: sw_byte_def sw1_def sw2_def sw3_def bitsum_numeral)+


lemma byte_cons_div:
  fixes b x :: int
  shows "(b + 256 * x) div 2 = (b div 2 + 128 * (x mod 2)) + 256 * (x div 2)"
    and "(b + 256 * x) div 4 = (b div 4 + 64 * (x mod 4)) + 256 * (x div 4)"
    and "(b + 256 * x) div 16 = (b div 16 + 16 * (x mod 16)) + 256 * (x div 16)"
    and "(b + 256 * x) mod 16 = b mod 16"
proof -
  have "(b + 256 * x) div 2 = b div 2 + 128 * x"
    "(b + 256 * x) div 4 = b div 4 + 64 * x"
    "(b + 256 * x) div 16 = b div 16 + 16 * x" by simp_all
  moreover have "x mod 2 + 2 * (x div 2) = x" "x mod 4 + 4 * (x div 4) = x"
    "x mod 16 + 16 * (x div 16) = x" by simp_all
  ultimately show "(b + 256 * x) div 2 = (b div 2 + 128 * (x mod 2)) + 256 * (x div 2)"
    "(b + 256 * x) div 4 = (b div 4 + 64 * (x mod 4)) + 256 * (x div 4)"
    "(b + 256 * x) div 16 = (b div 16 + 16 * (x mod 16)) + 256 * (x div 16)"
    by linarith+
  show "(b + 256 * x) mod 16 = b mod 16"
    using mod_mult_self2 [of b 16 "16 * x"] by (simp only: mult.assoc [symmetric]) simp
qed

lemma sw1_bytes:
  assumes "is_bytes bs"
  shows "sw1 (byte_rep (length bs) 0x55) (bytes_val bs) = bytes_val (map (sw1 0x55) bs)"
  using assms
proof (induction bs)
  case Nil
  then show ?case by (simp add: sw1_def)
next
  case (Cons b bs)
  let ?x = "bytes_val bs" and ?m = "byte_rep (length bs) 0x55"
  have b: "0 \<le> b div 2" "b div 2 < 128" using Cons.prems by auto
  have x: "0 \<le> ?x mod 2" "?x mod 2 \<le> 1" by (simp, presburger)
  have "(b + 256 * ?x) div 2 = (b div 2 + 128 * (?x mod 2)) + 256 * (?x div 2)"
    by (rule byte_cons_div)
  moreover have "((b div 2 + 128 * (?x mod 2)) + 256 * (?x div 2)) AND (0x55 + 256 * ?m)
      = ((b div 2 + 128 * (?x mod 2)) AND 0x55) + 256 * (?x div 2 AND ?m)"
    using b x by (intro and_split_byte) linarith+
  moreover have "(b div 2 + 128 * (?x mod 2)) AND 0x55 = b div 2 AND 0x55"
    using b and_split [of "b div 2" 7 "0x55" "?x mod 2" 0] Cons.prems by simp
  ultimately show ?case using Cons by (simp add: sw1_def)
qed

lemma sw2_bytes:
  assumes "is_bytes bs"
  shows "sw2 (byte_rep (length bs) 0x33) (bytes_val bs) = bytes_val (map (sw2 0x33) bs)"
  using assms
proof (induction bs)
  case Nil
  then show ?case by (simp add: sw2_def)
next
  case (Cons b bs)
  let ?x = "bytes_val bs" and ?m = "byte_rep (length bs) 0x33"
  have b: "0 \<le> b div 4" "b div 4 < 64" using Cons.prems by auto
  have x: "0 \<le> ?x mod 4" "?x mod 4 \<le> 3" by (simp, presburger)
  have "(b + 256 * ?x) div 4 = (b div 4 + 64 * (?x mod 4)) + 256 * (?x div 4)"
    by (rule byte_cons_div)
  moreover have "((b div 4 + 64 * (?x mod 4)) + 256 * (?x div 4)) AND (0x33 + 256 * ?m)
      = ((b div 4 + 64 * (?x mod 4)) AND 0x33) + 256 * (?x div 4 AND ?m)"
    using b x by (intro and_split_byte) linarith+
  moreover have "(b div 4 + 64 * (?x mod 4)) AND 0x33 = b div 4 AND 0x33"
    using b and_split [of "b div 4" 6 "0x33" "?x mod 4" 0] Cons.prems by simp
  moreover have "(b + 256 * ?x) AND (0x33 + 256 * ?m) = (b AND 0x33) + 256 * (?x AND ?m)"
    using Cons.prems by (intro and_split_byte) auto
  ultimately show ?case using Cons by (simp add: sw2_def)
qed

lemma and_15_eq_mod: "(x :: int) AND 0x0f = x mod 16"
  using take_bit_eq_mask [of 4 x] by (simp add: take_bit_eq_mod mask_numeral)

definition nibbles_le4 :: "int list \<Rightarrow> bool" where
  "nibbles_le4 bs \<longleftrightarrow> (\<forall>b \<in> set bs. 0 \<le> b \<and> b < 256 \<and> b mod 16 \<le> 4 \<and> b div 16 \<le> 4)"

lemma sw3_bytes:
  assumes "nibbles_le4 bs"
  shows "sw3 (byte_rep (length bs) 0x0f) (bytes_val bs) = bytes_val (map (sw3 0x0f) bs)"
  using assms
proof (induction bs)
  case Nil
  then show ?case by (simp add: sw3_def)
next
  case (Cons b bs)
  let ?x = "bytes_val bs" and ?m = "byte_rep (length bs) 0x0f"
  have x4: "0 \<le> ?x mod 16 \<and> ?x mod 16 \<le> 4"
  proof (cases bs)
    case (Cons c cs)
    then have "?x mod 16 = c mod 16" by (simp add: byte_cons_div)
    then show ?thesis using Cons Cons.prems by (auto simp: nibbles_le4_def)
  qed simp
  have b: "0 \<le> b" "b mod 16 \<le> 4" "b div 16 \<le> 4"
    using Cons.prems by (auto simp: nibbles_le4_def)
  then have b68: "b \<le> 68" by presburger
  have "(b + 256 * ?x) + (b + 256 * ?x) div 16
      = (b + b div 16 + 16 * (?x mod 16)) + 256 * (?x + ?x div 16)"
    by (simp add: byte_cons_div)
  moreover have "((b + b div 16 + 16 * (?x mod 16)) + 256 * (?x + ?x div 16)) AND (0x0f + 256 * ?m)
      = ((b + b div 16 + 16 * (?x mod 16)) AND 0x0f) + 256 * (?x + ?x div 16 AND ?m)"
    using b b68 x4 by (intro and_split_byte) auto
  moreover have "(b + b div 16 + 16 * (?x mod 16)) AND 0x0f = (b + b div 16) AND 0x0f"
    by (simp add: and_15_eq_mod)
  moreover have "nibbles_le4 bs" using Cons.prems by (simp add: nibbles_le4_def)
  ultimately show ?case using Cons.IH
    by (simp only: sw3_def bytes_val.simps byte_rep.simps list.map length_Cons)
qed

lemma sw_bytes:
  assumes "is_bytes bs"
  shows "sw3 (byte_rep (length bs) 0x0f) (sw2 (byte_rep (length bs) 0x33)
           (sw1 (byte_rep (length bs) 0x55) (bytes_val bs))) = bytes_val (map (bitsum 8) bs)"
proof -
  have 1: "is_bytes (map (sw1 0x55) bs)"
    using assms sw_byte_facts(2) by (auto simp: is_bytes_def)
  have 2: "nibbles_le4 (map (sw2 0x33 \<circ> sw1 0x55) bs)"
    using assms sw_byte_facts(3) by (auto simp: is_bytes_def nibbles_le4_def)
  have 3: "map (\<lambda>x. sw3 0x0f (sw2 0x33 (sw1 0x55 x))) bs = map (bitsum 8) bs"
    using assms sw_byte_facts(1) by (intro map_cong) (auto simp: is_bytes_def sw_byte_def)
  show ?thesis
    using sw1_bytes [OF assms] sw2_bytes [OF 1] sw3_bytes [OF 2] arg_cong [OF 3, of bytes_val]
    by (simp add: comp_def del: map_eq_conv)
qed

lemma bitsum_bytes:
  "is_bytes bs \<Longrightarrow> bitsum (8 * length bs) (bytes_val bs) = sum_list (map (bitsum 8) bs)"
proof (induction bs)
  case (Cons b bs)
  have split: "bitsum (n + k) x = bitsum n x + bitsum k (x div 2 ^ n)" for n k x
    by (induction n arbitrary: x) (simp_all add: zdiv_zmult2_eq)
  have low: "bitsum n (x + 2 ^ n * y) = bitsum n x" for n x y
  proof (induction n arbitrary: x)
    case (Suc n)
    have "(x + 2 * (2 ^ n * y)) div 2 = x div 2 + 2 ^ n * y"
      "(x + 2 * (2 ^ n * y)) mod 2 = x mod 2"
      by simp_all
    then show ?case using Suc.IH [of "x div 2"] by (simp add: mult.assoc add.commute)
  qed simp
  have "bitsum (8 * length (b # bs)) (bytes_val (b # bs))
      = bitsum 8 (b + 256 * bytes_val bs) + bitsum (8 * length bs) ((b + 256 * bytes_val bs) div 256)"
    using split [of 8 "8 * length bs"] by simp
  also have "\<dots> = bitsum 8 b + bitsum (8 * length bs) (bytes_val bs)"
    using low [of 8 b "bytes_val bs"] Cons.prems by simp
  finally show ?case using Cons by simp
qed simp

lemma bitsum_card: "bitsum n x = int (card {i. i < n \<and> bit x i})"
proof (induction n arbitrary: x)
  case 0
  then show ?case by simp
next
  case (Suc n)
  have "{i. i < Suc n \<and> bit x i} = {i. i = 0 \<and> bit x 0} \<union> Suc ` {i. i < n \<and> bit (x div 2) i}"
    by (auto simp: bit_Suc less_Suc_eq_0_disj)
  moreover have "card ({i. i = 0 \<and> bit x 0} \<union> Suc ` {i. i < n \<and> bit (x div 2) i})
      = card {i :: nat. i = 0 \<and> bit x 0} + card {i. i < n \<and> bit (x div 2) i}"
    by (subst card_Un_disjoint) (auto simp: card_image)
  moreover have "int (card {i :: nat. i = 0 \<and> bit x 0}) = x mod 2"
    by (cases "odd x") (auto simp: bit_0 odd_iff_mod_2_eq_one)
  ultimately show ?case using Suc by simp
qed

lemma popcount_bitsum: "bitsum LENGTH('a) (uint w) = int (popcount (w :: 'a::len word))"
  unfolding bitsum_card popcount_def
  by (metis (no_types, lifting) bit_imp_le_length bit_uint_iff)


subsection \<open>The routines compute the population count\<close>

lemma uint_sub_word: "uint (a - b :: 'a::len word) = (uint a - uint b) mod 2 ^ LENGTH('a)"
  by (rule uint_word_ariths)

lemma uint_drop_bit: "uint (drop_bit n w) = uint w div 2 ^ n"
  by (simp add: unsigned_drop_bit_eq drop_bit_eq_div [where 'a = int] take_bit_int_eq_self)

lemma uint_sw1: "uint (w - (drop_bit 1 w AND m) :: 'a::len word) = sw1 (uint m) (uint w) mod 2 ^ LENGTH('a)"
  by (simp add: uint_word_ariths(2) unsigned_and_eq uint_drop_bit sw1_def)

lemma uint_sw2: "uint ((w AND m) + (drop_bit 2 w AND m) :: 'a::len word)
    = sw2 (uint m) (uint w) mod 2 ^ LENGTH('a)"
  by (simp add: uint_word_ariths(1) unsigned_and_eq uint_drop_bit sw2_def)

lemma uint_sw3:
  assumes "uint w + uint w div 16 < 2 ^ LENGTH('a)"
  shows "uint ((w + drop_bit 4 w) AND m :: 'a::len word) = sw3 (uint m) (uint w)"
proof -
  have "(uint w + uint w div 16) mod 2 ^ LENGTH('a) = uint w + uint w div 16"
    using assms by (intro mod_pos_pos_trivial) (simp_all add: pos_imp_zdiv_nonneg_iff)
  then show ?thesis
    by (simp add: uint_word_ariths(1) unsigned_and_eq uint_drop_bit sw3_def)
qed


lemma uint_is_bytes:
  assumes "LENGTH('a::len) = 8 * n"
  obtains bs where "length bs = n" "is_bytes bs" "uint (w :: 'a word) = bytes_val bs"
  using bytes_exist [of "uint w" n] uint_lt2p [of w] assms
  by (auto simp: power_mult)

text \<open>The three field-summation steps on a word leave the bit count of byte \<open>i\<close> in byte \<open>i\<close>.\<close>

lemma uint_sw_bytes:
  fixes w :: "'a::len word"
  assumes n: "LENGTH('a) = 8 * n" and bs: "length bs = n" "is_bytes bs" "uint w = bytes_val bs"
    and m1: "uint m1 = byte_rep n 0x55" and m2: "uint m2 = byte_rep n 0x33"
    and m3: "uint m3 = byte_rep n 0x0f"
    and w1: "w1 = w - (drop_bit 1 w AND m1)"
    and w2: "w2 = (w1 AND m2) + (drop_bit 2 w1 AND m2)"
  shows "uint ((w2 + drop_bit 4 w2) AND m3) = bytes_val (map (bitsum 8) bs)"
proof -
  have len: "(2 :: int) ^ LENGTH('a) = 256 ^ n" by (simp add: n power_mult)
  have b1: "is_bytes (map (sw1 0x55) bs)"
    using bs sw_byte_facts(2) by (auto simp: is_bytes_def)
  have n4: "nibbles_le4 (map (sw2 0x33) (map (sw1 0x55) bs))"
    using bs sw_byte_facts(3) by (auto simp: is_bytes_def nibbles_le4_def)
  then have b2: "is_bytes (map (sw2 0x33) (map (sw1 0x55) bs))"
    by (auto simp: is_bytes_def nibbles_le4_def)
  have u1: "uint w1 = bytes_val (map (sw1 0x55) bs)"
    using bytes_val_bounds [OF b1] sw1_bytes [OF bs(2)] bs(1) len
    unfolding w1 uint_sw1 m1 bs(3) len by simp
  have u2: "uint w2 = bytes_val (map (sw2 0x33) (map (sw1 0x55) bs))"
    using bytes_val_bounds [OF b2] sw2_bytes [OF b1] bs(1) len
    unfolding w2 uint_sw2 m2 u1 len by simp
  have "16 * bytes_val cs \<le> 15 * 256 ^ length cs - 15" if "nibbles_le4 cs" for cs
    using that
  proof (induction cs)
    case (Cons c cs)
    have "0 \<le> c" "c mod 16 \<le> 4" "c div 16 \<le> 4" using Cons.prems by (auto simp: nibbles_le4_def)
    then have "c \<le> 68" by presburger
    then show ?case using Cons by (simp add: nibbles_le4_def)
  qed simp
  from this [OF n4] have "16 * uint w2 \<le> 15 * 256 ^ n - 15" by (simp add: u2 bs(1))
  then have "uint w2 + uint w2 div 16 < 2 ^ LENGTH('a)"
    unfolding len using uint_ge_0 [of w2] zero_less_power [of "256 :: int" n]
      mult_div_mod_eq [of 16 "uint w2"] pos_mod_sign [of 16 "uint w2"] by linarith
  then show ?thesis
    using sw_bytes [OF bs(2)] sw1_bytes [OF bs(2)] sw2_bytes [OF b1] bs(1)
    by (simp add: uint_sw3 m3 u2)
qed

lemma popcount_bytes:
  assumes "LENGTH('a) = 8 * n" "length bs = n" "is_bytes bs" "uint (w :: 'a::len word) = bytes_val bs"
  shows "int (popcount w) = sum_list (map (bitsum 8) bs)"
  using popcount_bitsum [of w] bitsum_bytes [OF assms(3)] assms by simp

lemma byte_counts_bounds:
  "is_bytes bs \<Longrightarrow> \<forall>p \<in> set (map (bitsum 8) bs). 0 \<le> p \<and> p \<le> 8"
  using sw_byte_facts(4) by (auto simp: is_bytes_def)


text \<open>\<open>hweight64\<close>: the multiplication adds the eight byte counts into the top byte.\<close>

lemma list_of_8:
  assumes "length xs = 8"
  obtains a b c d e f g h where "xs = [a, b, c, d, e, f, g, h]"
  using assms by (auto simp: numeral_eq_Suc length_Suc_conv)

lemma list_of_4:
  assumes "length xs = 4"
  obtains a b c d where "xs = [a, b, c, d]"
  using assms by (auto simp: numeral_eq_Suc length_Suc_conv)

lemma top_byte:
  fixes l s h :: int
  assumes "0 \<le> l" "l < 2 ^ 56" "0 \<le> s" "s < 256"
  shows "(l + 2 ^ 56 * s + 2 ^ 64 * h) mod 2 ^ 64 div 2 ^ 56 = s"
proof -
  have "(l + 2 ^ 56 * s + 2 ^ 64 * h) mod 2 ^ 64 = l + 2 ^ 56 * s"
    using assms by simp
  then show ?thesis using assms by simp
qed

lemma hweight64_popcount: "unat (hweight64 w) = popcount w"
proof -
  obtain bs where bs: "length bs = 8" "is_bytes bs" "uint w = bytes_val bs"
    by (rule uint_is_bytes [where n = 8 and w = w]) simp
  define ps where "ps = map (bitsum 8) bs"
  define w1 where "w1 = w - (drop_bit 1 w AND 0x5555555555555555)"
  define w2 where "w2 = (w1 AND 0x3333333333333333) + (drop_bit 2 w1 AND 0x3333333333333333)"
  define w3 where "w3 = (w2 + drop_bit 4 w2) AND 0x0f0f0f0f0f0f0f0f"
  have w3: "uint w3 = bytes_val ps"
    unfolding w3_def ps_def
    by (rule uint_sw_bytes [OF _ bs _ _ _ w1_def w2_def]) (simp_all add: byte_rep_numeral)
  obtain p0 p1 p2 p3 p4 p5 p6 p7 where ps: "ps = [p0, p1, p2, p3, p4, p5, p6, p7]"
    using list_of_8 [of ps] bs(1) by (metis length_map ps_def)
  have le8: "\<forall>p \<in> set ps. 0 \<le> p \<and> p \<le> 8"
    unfolding ps_def by (rule byte_counts_bounds [OF bs(2)])
  define l where "l = p0 + 256 * (p0 + p1) + 256 ^ 2 * (p0 + p1 + p2)
    + 256 ^ 3 * (p0 + p1 + p2 + p3) + 256 ^ 4 * (p0 + p1 + p2 + p3 + p4)
    + 256 ^ 5 * (p0 + p1 + p2 + p3 + p4 + p5) + 256 ^ 6 * (p0 + p1 + p2 + p3 + p4 + p5 + p6)"
  define h where "h = (p1 + p2 + p3 + p4 + p5 + p6 + p7) + 256 * (p2 + p3 + p4 + p5 + p6 + p7)
    + 256 ^ 2 * (p3 + p4 + p5 + p6 + p7) + 256 ^ 3 * (p4 + p5 + p6 + p7)
    + 256 ^ 4 * (p5 + p6 + p7) + 256 ^ 5 * (p6 + p7) + 256 ^ 6 * p7"
  have prod: "bytes_val ps * 0x0101010101010101 = l + 2 ^ 56 * sum_list ps + 2 ^ 64 * h"
    by (simp add: ps l_def h_def)
  have top: "(l + 2 ^ 56 * sum_list ps + 2 ^ 64 * h) mod 2 ^ 64 div 2 ^ 56 = sum_list ps"
    using le8 by (intro top_byte) (simp_all add: ps l_def)
  have "uint (0x0101010101010101 :: u64) = 0x0101010101010101" by simp
  then have "uint (drop_bit 56 (w3 * 0x0101010101010101)) = sum_list ps"
    unfolding uint_drop_bit uint_word_ariths(3) w3 using prod top by (simp only: ) simp
  moreover have "int (popcount w) = sum_list ps"
    unfolding ps_def by (rule popcount_bytes [OF _ bs]) simp
  moreover have "hweight64 w = drop_bit 56 (w3 * 0x0101010101010101)"
    by (simp add: hweight64_def Let_def w1_def w2_def w3_def)
  ultimately show ?thesis by (metis int_eq_iff nat_int unat_eq_nat_uint)
qed


text \<open>\<open>hweight32\<close>: two shifted additions do the same for four bytes.\<close>

lemma hweight32_popcount: "unat (hweight32 w) = popcount w"
proof -
  obtain bs where bs: "length bs = 4" "is_bytes bs" "uint w = bytes_val bs"
    by (rule uint_is_bytes [where n = 4 and w = w]) simp
  define ps where "ps = map (bitsum 8) bs"
  define w1 where "w1 = w - (drop_bit 1 w AND 0x55555555)"
  define w2 where "w2 = (w1 AND 0x33333333) + (drop_bit 2 w1 AND 0x33333333)"
  define w3 where "w3 = (w2 + drop_bit 4 w2) AND 0x0F0F0F0F"
  define w4 where "w4 = w3 + drop_bit 8 w3"
  have w3: "uint w3 = bytes_val ps"
    unfolding w3_def ps_def
    by (rule uint_sw_bytes [OF _ bs _ _ _ w1_def w2_def]) (simp_all add: byte_rep_numeral)
  obtain p0 p1 p2 p3 where ps: "ps = [p0, p1, p2, p3]"
    using list_of_4 [of ps] bs(1) by (metis length_map ps_def)
  have le8: "\<forall>p \<in> set ps. 0 \<le> p \<and> p \<le> 8"
    unfolding ps_def by (rule byte_counts_bounds [OF bs(2)])
  have d3: "bytes_val ps div 256 = p1 + 256 * p2 + 65536 * p3"
    using div_mult_self2 [of 256 p0 "p1 + 256 * p2 + 65536 * p3"] le8 by (simp add: ps)
  have w4: "uint w4 = (p0 + p1) + 256 * (p1 + p2) + 65536 * (p2 + p3) + 16777216 * p3"
    using le8 unfolding w4_def uint_word_ariths(1) uint_drop_bit w3
    by (simp add: d3) (simp add: ps)
  have d4: "uint w4 div 65536 = (p2 + p3) + 256 * p3"
    using div_mult_self2 [of 65536 "(p0 + p1) + 256 * (p1 + p2)" "(p2 + p3) + 256 * p3"] le8
    unfolding w4 by (simp add: ps)
  have "uint (w4 + drop_bit 16 w4) = uint w4 + ((p2 + p3) + 256 * p3)"
    using le8 unfolding uint_word_ariths(1) uint_drop_bit
    by (simp add: d4) (simp add: w4 ps)
  also have "\<dots> = sum_list ps + 256 * (p1 + p2 + p3 + 256 * (p2 + p3) + 65536 * p3)"
    unfolding w4 by (simp add: ps)
  finally have "uint (w4 + drop_bit 16 w4) = sum_list ps + 256 * (p1 + p2 + p3 + 256 * (p2 + p3) + 65536 * p3)" .
  then have "uint ((w4 + drop_bit 16 w4) AND 0xFF)
      = (sum_list ps + 256 * (p1 + p2 + p3 + 256 * (p2 + p3) + 65536 * p3)) AND (0xFF + 256 * 0)"
    by (simp add: unsigned_and_eq)
  also have "\<dots> = (sum_list ps AND 0xFF) + 256 * 0"
    using le8 by (subst and_split_byte) (simp_all add: ps)
  also have "\<dots> = sum_list ps"
    using le8 take_bit_eq_mask [of 8 "sum_list ps"] by (simp add: take_bit_eq_mod mask_numeral ps)
  finally have "uint ((w4 + drop_bit 16 w4) AND 0xFF) = sum_list ps" .
  moreover have "int (popcount w) = sum_list ps"
    unfolding ps_def by (rule popcount_bytes [OF _ bs]) simp
  moreover have "hweight32 w = (w4 + drop_bit 16 w4) AND 0xFF"
    by (simp add: hweight32_def Let_def w1_def w2_def w3_def w4_def)
  ultimately show ?thesis by (metis int_eq_iff nat_int unat_eq_nat_uint)
qed

section \<open>Find last set\<close>

text \<open>\<open>fls\<close> narrows the position of the highest set bit by halves; \<open>x\<close> is the bit pattern of the int.\<close>

definition fls_step :: "u32 \<Rightarrow> nat \<Rightarrow> u32 \<times> nat \<Rightarrow> u32 \<times> nat" where
  "fls_step m s = (\<lambda>(x, r). if x AND m = 0 then (push_bit s x, r - s) else (x, r))"

definition fls :: "u32 \<Rightarrow> nat" where
  "fls x =
    (let r = 32 in
     if x = 0 then 0
     else let (x, r) = fls_step 0xffff0000 16 (x, r);
              (x, r) = fls_step 0xff000000 8 (x, r);
              (x, r) = fls_step 0xf0000000 4 (x, r);
              (x, r) = fls_step 0xc0000000 2 (x, r);
              (x, r) = fls_step 0x80000000 1 (x, r)
          in r)"

text \<open>
  The state of the search: \<open>x\<close> is the input shifted left by \<open>32 - r\<close> with nothing lost,
  and its top \<open>k\<close> bits are not all zero.
\<close>

definition fls_inv :: "u32 \<Rightarrow> nat \<Rightarrow> u32 \<times> nat \<Rightarrow> bool" where
  "fls_inv x0 k = (\<lambda>(x, r). r \<le> 32 \<and> unat x = unat x0 * 2 ^ (32 - r) \<and> 2 ^ (32 - k) \<le> unat x \<and> k \<le> r)"

lemma fls_step_inv:
  assumes inv: "fls_inv x0 (2 * s) st" and s: "0 < s" "2 * s \<le> 32"
    and m: "m = NOT (mask (32 - s))"
  shows "fls_inv x0 s (fls_step m s st)"
proof (cases st)
  case (Pair x r)
  have eq0: "(x AND m = 0) = (unat x < 2 ^ (32 - s))"
    unfolding m by (rule and_not_mask_eq_0_iff)
  show ?thesis
  proof (cases "x AND m = 0")
    case True
    then have lt: "unat x < 2 ^ (32 - s)" using eq0 by simp
    have "unat (push_bit s x) = unat x * 2 ^ s"
      using s by (intro unat_push_bit_no_loss [OF lt]) simp
    moreover have "2 ^ (32 - s) = 2 ^ (32 - 2 * s) * (2 ^ s :: nat)"
      using s by (simp flip: power_add)
    moreover have "2 ^ (32 - (r - s)) = 2 ^ (32 - r) * (2 ^ s :: nat)"
      using inv s Pair by (simp add: fls_inv_def flip: power_add)
    ultimately show ?thesis
      using inv True Pair by (auto simp: fls_inv_def fls_step_def)
  next
    case False
    then show ?thesis using inv Pair eq0 by (auto simp: fls_inv_def fls_step_def)
  qed
qed

lemma fls_zero [simp]: "fls 0 = 0"
  by (simp add: fls_def)

lemma fls_correct:
  assumes "x \<noteq> 0"
  shows "0 < fls x \<and> fls x \<le> 32 \<and> 2 ^ (fls x - 1) \<le> unat x \<and> unat x < 2 ^ fls x"
proof -
  have "unat x \<noteq> 0" using assms by (simp add: unat_eq_zero)
  then have 32: "fls_inv x (2 * 16) (x, 32)"
    by (simp add: fls_inv_def)
  note s16 = fls_step_inv [OF 32, of "0xffff0000"]
  obtain st where st: "fls_inv x 1 st" "fls x = snd st"
  proof
    show "fls_inv x 1 (fls_step 0x80000000 1 (fls_step 0xc0000000 2 (fls_step 0xf0000000 4
      (fls_step 0xff000000 8 (fls_step 0xffff0000 16 (x, 32))))))"
      using fls_step_inv [of x 1 _ "0x80000000"] fls_step_inv [of x 2 _ "0xc0000000"]
        fls_step_inv [of x 4 _ "0xf0000000"] fls_step_inv [of x 8 _ "0xff000000"]
        fls_step_inv [OF 32, of "0xffff0000"]
      by (simp add: mask_numeral)
    show "fls x = snd (fls_step 0x80000000 1 (fls_step 0xc0000000 2 (fls_step 0xf0000000 4
      (fls_step 0xff000000 8 (fls_step 0xffff0000 16 (x, 32))))))"
      using assms by (simp add: fls_def Let_def split: prod.splits)
  qed
  obtain y r where yr: "st = (y, r)" by (cases st)
  have y: "r \<le> 32" "1 \<le> r" "unat y = unat x * 2 ^ (32 - r)" "2 ^ 31 \<le> unat y" "unat y < 2 ^ 32"
    using st(1) yr unsigned_less [where 'a = nat, of y] by (auto simp: fls_inv_def)
  have e: "(2 :: nat) ^ 32 = 2 ^ r * 2 ^ (32 - r)" "(2 :: nat) ^ 31 = 2 ^ (r - 1) * 2 ^ (32 - r)"
    using y(1,2) by (simp_all flip: power_add)
  have "unat x < 2 ^ r" "2 ^ (r - 1) \<le> unat x"
    using y(3,4,5) unfolding e by simp_all
  then show ?thesis using st(2) yr y(1,2) by simp
qed

section \<open>Properties\<close>

text \<open>
  C34: The bit-counting and bit-finding code is right on every word: \<open>hweight32\<close> and \<open>hweight64\<close> give
  the number of set bits, and \<open>fls\<close> of a nonzero word is the number of its highest bit, from 1.
\<close>

theorem word_scans_correct:
  "unat (hweight64 w) = popcount w \<and> unat (hweight32 v) = popcount v
    \<and> (x \<noteq> 0 \<longrightarrow> 0 < fls x \<and> fls x \<le> 32 \<and> 2 ^ (fls x - 1) \<le> unat x \<and> unat x < 2 ^ fls x)
    \<and> fls 0 = 0"
  using hweight64_popcount [of w] hweight32_popcount [of v] fls_correct [of x] fls_zero by blast

theorem word_scans_correct_witness:
  "unat (hweight64 255) = popcount (255 :: u64) \<and> 2 ^ (fls 40 - 1) \<le> unat (40 :: u32)"
  using word_scans_correct [of 255 0 40] by simp

end
