(* ===== verification/Bitmap.thy ===== *)
theory Bitmap
  imports Cwords
begin

text \<open>
  The bit map library: bitmap.c, the inline wrappers of bitmap.h and the single-bit
  operations of non-atomic.h.

  An array of \<open>unsigned long\<close> is a list of 64-bit words. Operations that write
  through a destination pointer work on a store that maps a pointer to its array, so
  that a destination that is also a source (as \<open>__bitmap_parse\<close> uses the left shift) is
  the same pointer twice. Loops are folds over the code's index range, in the code's
  order. Reading past an array is undefined in C; the theorems ask for arrays of at
  least \<open>BITS_TO_LONGS\<close> words where an operation reads that many.

  The abstraction of a bit map of \<open>n\<close> bits is the set \<open>bm_set n m\<close> of its bit numbers.
\<close>

section \<open>Sizes, masks, single bits\<close>

type_synonym bitmap = "u64 list"
type_synonym bmstore = "nat \<Rightarrow> bitmap"

definition BITS_PER_LONG :: nat where
  "BITS_PER_LONG = 64"

definition BITS_TO_LONGS :: "nat \<Rightarrow> nat" where
  "BITS_TO_LONGS bits = (bits + BITS_PER_LONG - 1) div BITS_PER_LONG"

definition BITMAP_LAST_WORD_MASK :: "nat \<Rightarrow> u64" where
  "BITMAP_LAST_WORD_MASK nbits =
    (if nbits mod BITS_PER_LONG \<noteq> 0 then push_bit (nbits mod BITS_PER_LONG) 1 - 1 else NOT 0)"

definition BITOP_MASK :: "nat \<Rightarrow> u64" where
  "BITOP_MASK nr = push_bit (nr mod BITS_PER_LONG) 1"

definition BITOP_WORD :: "nat \<Rightarrow> nat" where
  "BITOP_WORD nr = nr div BITS_PER_LONG"

text \<open>non-atomic.h; the names of HOL's own \<open>set_bit\<close> are avoided by the prefix \<open>bm\<close>.\<close>

definition bm_set_bit :: "nat \<Rightarrow> bitmap \<Rightarrow> bitmap" where
  "bm_set_bit nr addr = addr[BITOP_WORD nr := addr ! BITOP_WORD nr OR BITOP_MASK nr]"

definition bm_clear_bit :: "nat \<Rightarrow> bitmap \<Rightarrow> bitmap" where
  "bm_clear_bit nr addr = addr[BITOP_WORD nr := addr ! BITOP_WORD nr AND NOT (BITOP_MASK nr)]"

definition bm_change_bit :: "nat \<Rightarrow> bitmap \<Rightarrow> bitmap" where
  "bm_change_bit nr addr = addr[BITOP_WORD nr := addr ! BITOP_WORD nr XOR BITOP_MASK nr]"

definition bm_test_and_set_bit :: "nat \<Rightarrow> bitmap \<Rightarrow> bool \<times> bitmap" where
  "bm_test_and_set_bit nr addr =
    (let mask = BITOP_MASK nr; old = addr ! BITOP_WORD nr
     in (old AND mask \<noteq> 0, addr[BITOP_WORD nr := old OR mask]))"

definition bm_test_and_clear_bit :: "nat \<Rightarrow> bitmap \<Rightarrow> bool \<times> bitmap" where
  "bm_test_and_clear_bit nr addr =
    (let mask = BITOP_MASK nr; old = addr ! BITOP_WORD nr
     in (old AND mask \<noteq> 0, addr[BITOP_WORD nr := old AND NOT mask]))"

definition bm_test_and_change_bit :: "nat \<Rightarrow> bitmap \<Rightarrow> bool \<times> bitmap" where
  "bm_test_and_change_bit nr addr =
    (let mask = BITOP_MASK nr; old = addr ! BITOP_WORD nr
     in (old AND mask \<noteq> 0, addr[BITOP_WORD nr := old XOR mask]))"

definition bm_test_bit :: "nat \<Rightarrow> bitmap \<Rightarrow> u64" where
  "bm_test_bit nr addr = 1 AND drop_bit (nr AND (BITS_PER_LONG - 1)) (addr ! BITOP_WORD nr)"

text \<open>The abstraction.\<close>

definition bm_bit :: "bitmap \<Rightarrow> nat \<Rightarrow> bool" where
  "bm_bit m i = bit (m ! (i div 64)) (i mod 64)"

definition bm_set :: "nat \<Rightarrow> bitmap \<Rightarrow> nat set" where
  "bm_set n m = {i. i < n \<and> bm_bit m i}"

section \<open>Predicates and the weight\<close>

text \<open>An early \<open>return\<close> inside the word loop is \<open>list_ex\<close> over the loop's indices.\<close>

definition u_bitmap_empty :: "bitmap \<Rightarrow> nat \<Rightarrow> bool" where
  "u_bitmap_empty bitmap bits =
    (let lim = bits div BITS_PER_LONG in
     if list_ex (\<lambda>k. bitmap ! k \<noteq> 0) [0..<lim] then False
     else if bits mod BITS_PER_LONG \<noteq> 0 \<and> bitmap ! lim AND BITMAP_LAST_WORD_MASK bits \<noteq> 0
     then False else True)"

definition u_bitmap_full :: "bitmap \<Rightarrow> nat \<Rightarrow> bool" where
  "u_bitmap_full bitmap bits =
    (let lim = bits div BITS_PER_LONG in
     if list_ex (\<lambda>k. NOT (bitmap ! k) \<noteq> 0) [0..<lim] then False
     else if bits mod BITS_PER_LONG \<noteq> 0 \<and> NOT (bitmap ! lim) AND BITMAP_LAST_WORD_MASK bits \<noteq> 0
     then False else True)"

definition u_bitmap_weight :: "bitmap \<Rightarrow> nat \<Rightarrow> nat" where
  "u_bitmap_weight bitmap bits =
    (let lim = bits div BITS_PER_LONG;
         w = fold (\<lambda>k w. w + unat (hweight_long (bitmap ! k))) [0..<lim] 0
     in if bits mod BITS_PER_LONG \<noteq> 0
        then w + unat (hweight_long (bitmap ! lim AND BITMAP_LAST_WORD_MASK bits)) else w)"

definition u_bitmap_equal :: "bitmap \<Rightarrow> bitmap \<Rightarrow> nat \<Rightarrow> bool" where
  "u_bitmap_equal bitmap1 bitmap2 bits =
    (let lim = bits div BITS_PER_LONG in
     if list_ex (\<lambda>k. bitmap1 ! k \<noteq> bitmap2 ! k) [0..<lim] then False
     else if bits mod BITS_PER_LONG \<noteq> 0
         \<and> (bitmap1 ! lim XOR bitmap2 ! lim) AND BITMAP_LAST_WORD_MASK bits \<noteq> 0
     then False else True)"

definition u_bitmap_intersects :: "bitmap \<Rightarrow> bitmap \<Rightarrow> nat \<Rightarrow> bool" where
  "u_bitmap_intersects bitmap1 bitmap2 bits =
    (let lim = bits div BITS_PER_LONG in
     if list_ex (\<lambda>k. bitmap1 ! k AND bitmap2 ! k \<noteq> 0) [0..<lim] then True
     else if bits mod BITS_PER_LONG \<noteq> 0
         \<and> (bitmap1 ! lim AND bitmap2 ! lim) AND BITMAP_LAST_WORD_MASK bits \<noteq> 0
     then True else False)"

text \<open>The inline wrappers of bitmap.h take a shortcut for maps of one word.\<close>

definition bitmap_empty :: "bitmap \<Rightarrow> nat \<Rightarrow> bool" where
  "bitmap_empty src nbits =
    (if nbits \<le> BITS_PER_LONG then src ! 0 AND BITMAP_LAST_WORD_MASK nbits = 0
     else u_bitmap_empty src nbits)"

definition bitmap_full :: "bitmap \<Rightarrow> nat \<Rightarrow> bool" where
  "bitmap_full src nbits =
    (if nbits \<le> BITS_PER_LONG then NOT (src ! 0) AND BITMAP_LAST_WORD_MASK nbits = 0
     else u_bitmap_full src nbits)"

definition bitmap_weight :: "bitmap \<Rightarrow> nat \<Rightarrow> nat" where
  "bitmap_weight src nbits =
    (if nbits \<le> BITS_PER_LONG
     then unat (hweight_long (src ! 0 AND BITMAP_LAST_WORD_MASK nbits))
     else u_bitmap_weight src nbits)"

definition bitmap_equal :: "bitmap \<Rightarrow> bitmap \<Rightarrow> nat \<Rightarrow> bool" where
  "bitmap_equal src1 src2 nbits =
    (if nbits \<le> BITS_PER_LONG
     then (src1 ! 0 XOR src2 ! 0) AND BITMAP_LAST_WORD_MASK nbits = 0
     else u_bitmap_equal src1 src2 nbits)"

definition bitmap_intersects :: "bitmap \<Rightarrow> bitmap \<Rightarrow> nat \<Rightarrow> bool" where
  "bitmap_intersects src1 src2 nbits =
    (if nbits \<le> BITS_PER_LONG
     then (src1 ! 0 AND src2 ! 0) AND BITMAP_LAST_WORD_MASK nbits \<noteq> 0
     else u_bitmap_intersects src1 src2 nbits)"

section \<open>Operations that write an array\<close>

definition bm_put :: "bmstore \<Rightarrow> nat \<Rightarrow> nat \<Rightarrow> u64 \<Rightarrow> bmstore" where
  "bm_put s p k w = s(p := (s p)[k := w])"

text \<open>\<open>memset\<close> and \<open>memcpy\<close> on whole words.\<close>

definition bm_memset :: "nat \<Rightarrow> nat \<Rightarrow> nat \<Rightarrow> u64 \<Rightarrow> bmstore \<Rightarrow> bmstore" where
  "bm_memset p from len w s = fold (\<lambda>k s. bm_put s p k w) [from..<from + len] s"

definition bitmap_zero :: "nat \<Rightarrow> nat \<Rightarrow> bmstore \<Rightarrow> bmstore" where
  "bitmap_zero dst nbits s =
    (if nbits \<le> BITS_PER_LONG then bm_put s dst 0 0
     else bm_memset dst 0 (BITS_TO_LONGS nbits) 0 s)"

definition bitmap_fill :: "nat \<Rightarrow> nat \<Rightarrow> bmstore \<Rightarrow> bmstore" where
  "bitmap_fill dst nbits s =
    (let nlongs = BITS_TO_LONGS nbits;
         s = (if nlongs > 1 then bm_memset dst 0 (nlongs - 1) (NOT 0) s else s)
     in bm_put s dst (nlongs - 1) (BITMAP_LAST_WORD_MASK nbits))"

definition bitmap_copy :: "nat \<Rightarrow> nat \<Rightarrow> nat \<Rightarrow> bmstore \<Rightarrow> bmstore" where
  "bitmap_copy dst src nbits s =
    (if nbits \<le> BITS_PER_LONG then bm_put s dst 0 (s src ! 0)
     else fold (\<lambda>k s. bm_put s dst k (s src ! k)) [0..<BITS_TO_LONGS nbits] s)"

definition u_bitmap_and :: "nat \<Rightarrow> nat \<Rightarrow> nat \<Rightarrow> nat \<Rightarrow> bmstore \<Rightarrow> bmstore" where
  "u_bitmap_and dst b1 b2 bits s =
    fold (\<lambda>k s. bm_put s dst k (s b1 ! k AND s b2 ! k)) [0..<BITS_TO_LONGS bits] s"

definition u_bitmap_or :: "nat \<Rightarrow> nat \<Rightarrow> nat \<Rightarrow> nat \<Rightarrow> bmstore \<Rightarrow> bmstore" where
  "u_bitmap_or dst b1 b2 bits s =
    fold (\<lambda>k s. bm_put s dst k (s b1 ! k OR s b2 ! k)) [0..<BITS_TO_LONGS bits] s"

definition u_bitmap_xor :: "nat \<Rightarrow> nat \<Rightarrow> nat \<Rightarrow> nat \<Rightarrow> bmstore \<Rightarrow> bmstore" where
  "u_bitmap_xor dst b1 b2 bits s =
    fold (\<lambda>k s. bm_put s dst k (s b1 ! k XOR s b2 ! k)) [0..<BITS_TO_LONGS bits] s"

definition u_bitmap_andnot :: "nat \<Rightarrow> nat \<Rightarrow> nat \<Rightarrow> nat \<Rightarrow> bmstore \<Rightarrow> bmstore" where
  "u_bitmap_andnot dst b1 b2 bits s =
    fold (\<lambda>k s. bm_put s dst k (s b1 ! k AND NOT (s b2 ! k))) [0..<BITS_TO_LONGS bits] s"

definition u_bitmap_complement :: "nat \<Rightarrow> nat \<Rightarrow> nat \<Rightarrow> bmstore \<Rightarrow> bmstore" where
  "u_bitmap_complement dst src bits s =
    (let lim = bits div BITS_PER_LONG;
         s = fold (\<lambda>k s. bm_put s dst k (NOT (s src ! k))) [0..<lim] s
     in if bits mod BITS_PER_LONG \<noteq> 0
        then bm_put s dst lim (NOT (s src ! lim) AND BITMAP_LAST_WORD_MASK bits) else s)"

definition bitmap_and :: "nat \<Rightarrow> nat \<Rightarrow> nat \<Rightarrow> nat \<Rightarrow> bmstore \<Rightarrow> bmstore" where
  "bitmap_and dst b1 b2 nbits s =
    (if nbits \<le> BITS_PER_LONG then bm_put s dst 0 (s b1 ! 0 AND s b2 ! 0)
     else u_bitmap_and dst b1 b2 nbits s)"

definition bitmap_or :: "nat \<Rightarrow> nat \<Rightarrow> nat \<Rightarrow> nat \<Rightarrow> bmstore \<Rightarrow> bmstore" where
  "bitmap_or dst b1 b2 nbits s =
    (if nbits \<le> BITS_PER_LONG then bm_put s dst 0 (s b1 ! 0 OR s b2 ! 0)
     else u_bitmap_or dst b1 b2 nbits s)"

definition bitmap_xor :: "nat \<Rightarrow> nat \<Rightarrow> nat \<Rightarrow> nat \<Rightarrow> bmstore \<Rightarrow> bmstore" where
  "bitmap_xor dst b1 b2 nbits s =
    (if nbits \<le> BITS_PER_LONG then bm_put s dst 0 (s b1 ! 0 XOR s b2 ! 0)
     else u_bitmap_xor dst b1 b2 nbits s)"

definition bitmap_andnot :: "nat \<Rightarrow> nat \<Rightarrow> nat \<Rightarrow> nat \<Rightarrow> bmstore \<Rightarrow> bmstore" where
  "bitmap_andnot dst b1 b2 nbits s =
    (if nbits \<le> BITS_PER_LONG then bm_put s dst 0 (s b1 ! 0 AND NOT (s b2 ! 0))
     else u_bitmap_andnot dst b1 b2 nbits s)"

definition bitmap_complement :: "nat \<Rightarrow> nat \<Rightarrow> nat \<Rightarrow> bmstore \<Rightarrow> bmstore" where
  "bitmap_complement dst src nbits s =
    (if nbits \<le> BITS_PER_LONG
     then bm_put s dst 0 (NOT (s src ! 0) AND BITMAP_LAST_WORD_MASK nbits)
     else u_bitmap_complement dst src nbits s)"

subsection \<open>Shifts\<close>

text \<open>
  The two loop bodies. A shift by \<open>BITS_PER_LONG - rem\<close> with \<open>rem = 0\<close> is applied to a
  word that the code has just set to 0, so its result is 0 whatever the shift does.
\<close>

definition shift_right_word :: "nat \<Rightarrow> nat \<Rightarrow> nat \<Rightarrow> bitmap \<Rightarrow> nat \<Rightarrow> u64" where
  "shift_right_word lim left shift m k =
    (let off = shift div BITS_PER_LONG; rem = shift mod BITS_PER_LONG;
         mask = push_bit left 1 - 1;
         upper = (if rem = 0 \<or> off + k + 1 \<ge> lim then 0
                  else if off + k + 1 = lim - 1 \<and> left \<noteq> 0 then m ! (off + k + 1) AND mask
                  else m ! (off + k + 1));
         lower = (if left \<noteq> 0 \<and> off + k = lim - 1 then m ! (off + k) AND mask
                  else m ! (off + k));
         w = push_bit (BITS_PER_LONG - rem) upper OR drop_bit rem lower
     in if left \<noteq> 0 \<and> k = lim - 1 then w AND mask else w)"

definition u_bitmap_shift_right :: "nat \<Rightarrow> nat \<Rightarrow> nat \<Rightarrow> nat \<Rightarrow> bmstore \<Rightarrow> bmstore" where
  "u_bitmap_shift_right dst src shift bits s =
    (let lim = BITS_TO_LONGS bits; left = bits mod BITS_PER_LONG;
         off = shift div BITS_PER_LONG;
         s = fold (\<lambda>k s. bm_put s dst k (shift_right_word lim left shift (s src) k))
               [0..<lim - off] s
     in if off \<noteq> 0 then bm_memset dst (lim - off) off 0 s else s)"

definition shift_left_word :: "nat \<Rightarrow> nat \<Rightarrow> nat \<Rightarrow> bitmap \<Rightarrow> nat \<Rightarrow> u64" where
  "shift_left_word lim left shift m k =
    (let off = shift div BITS_PER_LONG; rem = shift mod BITS_PER_LONG;
         mask = push_bit left 1 - 1;
         lower = (if rem \<noteq> 0 \<and> k > 0 then m ! (k - 1) else 0);
         upper = (if left \<noteq> 0 \<and> k = lim - 1 then m ! k AND mask else m ! k);
         w = drop_bit (BITS_PER_LONG - rem) lower OR push_bit rem upper
     in if left \<noteq> 0 \<and> k + off = lim - 1 then w AND mask else w)"

definition u_bitmap_shift_left :: "nat \<Rightarrow> nat \<Rightarrow> nat \<Rightarrow> nat \<Rightarrow> bmstore \<Rightarrow> bmstore" where
  "u_bitmap_shift_left dst src shift bits s =
    (let lim = BITS_TO_LONGS bits; left = bits mod BITS_PER_LONG;
         off = shift div BITS_PER_LONG;
         s = fold (\<lambda>k s. bm_put s dst (k + off) (shift_left_word lim left shift (s src) k))
               (rev [0..<lim - off]) s
     in if off \<noteq> 0 then bm_memset dst 0 off 0 s else s)"

definition bitmap_shift_right :: "nat \<Rightarrow> nat \<Rightarrow> nat \<Rightarrow> nat \<Rightarrow> bmstore \<Rightarrow> bmstore" where
  "bitmap_shift_right dst src n nbits s =
    (if nbits \<le> BITS_PER_LONG then bm_put s dst 0 (drop_bit n (s src ! 0))
     else u_bitmap_shift_right dst src n nbits s)"

definition bitmap_shift_left :: "nat \<Rightarrow> nat \<Rightarrow> nat \<Rightarrow> nat \<Rightarrow> bmstore \<Rightarrow> bmstore" where
  "bitmap_shift_left dst src n nbits s =
    (if nbits \<le> BITS_PER_LONG
     then bm_put s dst 0 (push_bit n (s src ! 0) AND BITMAP_LAST_WORD_MASK nbits)
     else u_bitmap_shift_left dst src n nbits s)"

end
