(* ===== verification/Bitmap_Laws.thy ===== *)
theory Bitmap_Laws
  imports Bitmap
begin

text \<open>
  The correctness of the bit map library: every operation is described by what it does to
  the set \<open>bm_set n m\<close> of the bits of a map, whatever the unused bits of the last
  word hold and whether or not the destination is one of the sources.
\<close>

section \<open>From words to bit numbers\<close>

lemma bit_last_word_mask [word_eqs]:
  "bit (BITMAP_LAST_WORD_MASK n) j \<longleftrightarrow> j < 64 \<and> (n mod 64 = 0 \<or> j < n mod 64)"
proof (cases "n mod 64 = 0")
  case True
  then show ?thesis by (simp add: BITMAP_LAST_WORD_MASK_def BITS_PER_LONG_def bit_simps)
next
  case False
  have "push_bit (n mod 64) 1 - 1 = (mask (n mod 64) :: u64)"
    by (simp add: mask_eq_exp_minus_1 push_bit_eq_mult)
  moreover have "n mod 64 < 64" by simp
  ultimately show ?thesis using False
    by (auto simp: BITMAP_LAST_WORD_MASK_def BITS_PER_LONG_def bit_simps)
qed

lemma bit_left_mask [word_eqs]:
  "left < 64 \<Longrightarrow> bit (push_bit left 1 - 1 :: u64) j \<longleftrightarrow> j < left"
  by (simp add: mask_eq_exp_minus_1 [symmetric] push_bit_eq_mult bit_simps) auto

lemma bit_power_mask [word_eqs]:
  "left < 64 \<Longrightarrow> bit (2 ^ left - 1 :: u64) j \<longleftrightarrow> j < left"
  by (simp add: mask_eq_exp_minus_1 [symmetric] bit_simps) auto

lemma word_nonzero_iff: "(w :: u64) \<noteq> 0 \<longleftrightarrow> (\<exists>j < 64. bit w j)"
proof
  assume "w \<noteq> 0"
  then obtain j where "bit w j" by (auto simp: bit_eq_iff)
  then show "\<exists>j < 64. bit w j" using bit_imp_le_length [of w j] by auto
qed auto

lemma word_neq_iff_xor: "(v :: u64) \<noteq> w \<longleftrightarrow> v XOR w \<noteq> 0"
  by (auto simp: bit_eq_iff bit_simps dest: bit_imp_le_length)

lemma ball_bits:
  "(\<forall>i < (n :: nat). P (i div 64) (i mod 64)) \<longleftrightarrow>
    (\<forall>k < n div 64. \<forall>j < 64. P k j) \<and> (n mod 64 \<noteq> 0 \<longrightarrow> (\<forall>j < n mod 64. P (n div 64) j))"
    (is "?L \<longleftrightarrow> ?R")
proof
  assume L: ?L
  show ?R
  proof (intro conjI allI impI)
    fix k j assume "k < n div 64" "j < (64 :: nat)"
    then have "64 * k + j < n" by linarith
    with L have "P ((64 * k + j) div 64) ((64 * k + j) mod 64)" by blast
    then show "P k j" using \<open>j < 64\<close> by simp
  next
    fix j assume j: "j < n mod 64"
    then have "j < 64" using mod_less_divisor [of 64 n] by linarith
    have "64 * (n div 64) + j < n" using j mult_div_mod_eq [of 64 n] by linarith
    with L have "P ((64 * (n div 64) + j) div 64) ((64 * (n div 64) + j) mod 64)" by blast
    then show "P (n div 64) j" using \<open>j < 64\<close> by simp
  qed
next
  assume R: ?R
  show ?L
  proof (intro allI impI)
    fix i assume i: "i < n"
    show "P (i div 64) (i mod 64)"
    proof (cases "i div 64 < n div 64")
      case True
      then show ?thesis using R by simp
    next
      case False
      have "i div 64 \<le> n div 64" using i by (intro div_le_mono) simp
      with False have eq: "i div 64 = n div 64" by simp
      then have "i mod 64 < n mod 64" using i
        by (metis add_less_cancel_left mult_div_mod_eq)
      then show ?thesis using R eq by auto
    qed
  qed
qed

text \<open>
  The scan all predicates share: some word of the loop, or the masked last word, is not
  zero exactly if one of the first \<open>n\<close> bits is set.
\<close>

lemma bitmap_scan:
  "(list_ex (\<lambda>k. f k \<noteq> (0 :: u64)) [0..<n div 64] \<or>
     n mod 64 \<noteq> 0 \<and> f (n div 64) AND BITMAP_LAST_WORD_MASK n \<noteq> 0) \<longleftrightarrow>
   (\<exists>i < n. bit (f (i div 64)) (i mod 64))"
proof -
  have last: "f (n div 64) AND BITMAP_LAST_WORD_MASK n \<noteq> 0 \<longleftrightarrow> (\<exists>j < n mod 64. bit (f (n div 64)) j)"
    if "n mod 64 \<noteq> 0"
  proof -
    have "n mod 64 < 64" by simp
    with that show ?thesis unfolding word_nonzero_iff bit_and_iff bit_last_word_mask
      by (metis order.strict_trans)
  qed
  show ?thesis
    using ball_bits [of n "\<lambda>k j. \<not> bit (f k) j"] last
    by (simp only: list_ex_iff word_nonzero_iff set_upt) force
qed

section \<open>Predicates\<close>

lemma u_bitmap_empty_iff: "u_bitmap_empty m n \<longleftrightarrow> bm_set n m = {}"
  using bitmap_scan [of "\<lambda>k. m ! k" n]
  by (auto simp: u_bitmap_empty_def Let_def BITS_PER_LONG_def bm_set_def bm_bit_def)

lemma u_bitmap_full_iff: "u_bitmap_full m n \<longleftrightarrow> bm_set n m = {..<n}"
  using bitmap_scan [of "\<lambda>k. NOT (m ! k)" n]
  by (auto simp: u_bitmap_full_def Let_def BITS_PER_LONG_def bm_set_def bm_bit_def bit_not_iff)

lemma u_bitmap_equal_iff: "u_bitmap_equal a b n \<longleftrightarrow> bm_set n a = bm_set n b"
  using bitmap_scan [of "\<lambda>k. a ! k XOR b ! k" n]
  by (auto simp: u_bitmap_equal_def Let_def BITS_PER_LONG_def bm_set_def bm_bit_def bit_xor_iff
      word_neq_iff_xor [symmetric])

lemma u_bitmap_intersects_iff: "u_bitmap_intersects a b n \<longleftrightarrow> bm_set n a \<inter> bm_set n b \<noteq> {}"
  using bitmap_scan [of "\<lambda>k. a ! k AND b ! k" n]
  by (auto simp: u_bitmap_intersects_def Let_def BITS_PER_LONG_def bm_set_def bm_bit_def bit_and_iff)


text \<open>The one-word shortcuts of bitmap.h agree with the general routines.\<close>

lemma bit_one_word_mask:
  "0 < n \<Longrightarrow> n \<le> 64 \<Longrightarrow> bit (BITMAP_LAST_WORD_MASK n) j \<longleftrightarrow> j < n"
  by (cases "n = 64") (auto simp: bit_last_word_mask)

lemma one_word_scan:
  assumes "0 < n" "n \<le> 64"
  shows "(w :: u64) AND BITMAP_LAST_WORD_MASK n = 0 \<longleftrightarrow> (\<forall>i < n. \<not> bit w i)"
  using assms word_nonzero_iff [of "w AND BITMAP_LAST_WORD_MASK n"]
  by (auto simp: bit_and_iff bit_one_word_mask intro: order.strict_trans2)

lemma word_index:
  "64 * k \<le> i \<Longrightarrow> i < 64 * k + 64 \<Longrightarrow> i div 64 = k \<and> i = 64 * k + i mod (64 :: nat)"
  by (metis add.commute div_nat_eqI minus_mod_eq_mult_div mult.commute mult_Suc mult_div_mod_eq)

lemma bm_bit_one_word: "i < 64 \<Longrightarrow> bm_bit m i = bit (m ! 0) i"
  by (simp add: bm_bit_def)

lemma bm_set_iffs:
  "bm_set n a = {} \<longleftrightarrow> (\<forall>i < n. \<not> bm_bit a i)"
  "bm_set n a = {..<n} \<longleftrightarrow> (\<forall>i < n. bm_bit a i)"
  "bm_set n a = bm_set n b \<longleftrightarrow> (\<forall>i < n. bm_bit a i = bm_bit b i)"
  "bm_set n a \<inter> bm_set n b = {} \<longleftrightarrow> (\<forall>i < n. \<not> (bm_bit a i \<and> bm_bit b i))"
  by (auto simp: bm_set_def)

lemma one_word_bits:
  "n \<le> 64 \<Longrightarrow> (\<forall>i < n. P (bm_bit a i) (bm_bit b i)) \<longleftrightarrow> (\<forall>i < n. P (bit (a ! 0) i) (bit (b ! 0) i))"
  by (auto simp: bm_bit_one_word)

lemma bitmap_empty_iff: "0 < n \<Longrightarrow> bitmap_empty m n \<longleftrightarrow> bm_set n m = {}"
  using one_word_scan [of n "m ! 0"] one_word_bits [of n "\<lambda>x y. \<not> x" m m]
  by (cases "n \<le> 64")
    (simp_all add: bitmap_empty_def u_bitmap_empty_iff BITS_PER_LONG_def bm_set_iffs(1))

lemma bitmap_full_iff: "0 < n \<Longrightarrow> bitmap_full m n \<longleftrightarrow> bm_set n m = {..<n}"
  using one_word_scan [of n "NOT (m ! 0)"] one_word_bits [of n "\<lambda>x y. x" m m]
  by (cases "n \<le> 64")
    (simp_all add: bitmap_full_def u_bitmap_full_iff BITS_PER_LONG_def bm_set_iffs(2) bit_not_iff)

lemma bitmap_equal_iff: "0 < n \<Longrightarrow> bitmap_equal a b n \<longleftrightarrow> bm_set n a = bm_set n b"
  using one_word_scan [of n "a ! 0 XOR b ! 0"] one_word_bits [of n "(=)" a b]
  by (cases "n \<le> 64")
    (simp_all add: bitmap_equal_def u_bitmap_equal_iff BITS_PER_LONG_def bm_set_iffs(3) bit_xor_iff)

lemma bitmap_intersects_iff:
  "0 < n \<Longrightarrow> bitmap_intersects a b n \<longleftrightarrow> bm_set n a \<inter> bm_set n b \<noteq> {}"
  using one_word_scan [of n "a ! 0 AND b ! 0"] one_word_bits [of n "\<lambda>x y. \<not> (x \<and> y)" a b]
  by (cases "n \<le> 64")
    (simp_all add: bitmap_intersects_def u_bitmap_intersects_iff BITS_PER_LONG_def bm_set_iffs(4)
      bit_and_iff)

section \<open>The weight\<close>

lemma bm_set_Suc_word:
  "bm_set (64 * Suc k) m = bm_set (64 * k) m \<union> (\<lambda>j. 64 * k + j) ` {j. bit (m ! k) j}"
proof (intro set_eqI iffI)
  fix i assume i: "i \<in> bm_set (64 * Suc k) m"
  show "i \<in> bm_set (64 * k) m \<union> (\<lambda>j. 64 * k + j) ` {j. bit (m ! k) j}"
  proof (cases "i < 64 * k")
    case True
    then show ?thesis using i by (simp add: bm_set_def)
  next
    case False
    then have "i div 64 = k" "i = 64 * k + i mod 64"
      using i word_index [of k i] by (auto simp: bm_set_def)
    then show ?thesis using i by (auto simp: bm_set_def bm_bit_def)
  qed
next
  fix i assume "i \<in> bm_set (64 * k) m \<union> (\<lambda>j. 64 * k + j) ` {j. bit (m ! k) j}"
  moreover have "j < 64" if "bit (m ! k) j" for j
    using bit_imp_le_length [OF that] by simp
  ultimately show "i \<in> bm_set (64 * Suc k) m" by (auto simp: bm_set_def bm_bit_def)
qed

lemma finite_bm_set [simp]: "finite (bm_set n m)"
  by (simp add: bm_set_def)

lemma card_shifted: "card ((\<lambda>j. (c :: nat) + j) ` S) = card S"
  by (rule card_image) simp

lemma card_bm_set_words:
  "card (bm_set (64 * k) m) = fold (\<lambda>k w. w + unat (hweight_long (m ! k))) [0..<k] 0"
proof (induction k)
  case 0
  then show ?case by (simp add: bm_set_def)
next
  case (Suc k)
  have "card (bm_set (64 * Suc k) m) = card (bm_set (64 * k) m) + card {j. bit (m ! k) j}"
    unfolding bm_set_Suc_word
    by (subst card_Un_disjoint) (auto simp: card_shifted bm_set_def)
  then show ?case using Suc by (simp add: hweight_long_def hweight64_popcount popcount_def)
qed

lemma u_bitmap_weight_card: "u_bitmap_weight m n = card (bm_set n m)"
proof (cases "n mod 64 = 0")
  case True
  then have "n = 64 * (n div 64)" by auto
  with card_bm_set_words [of "n div 64" m] True show ?thesis
    by (simp add: u_bitmap_weight_def Let_def BITS_PER_LONG_def)
next
  case False
  let ?k = "n div 64" and ?f = "\<lambda>j. 64 * (n div 64) + j"
  let ?S = "{j. bit (m ! ?k AND BITMAP_LAST_WORD_MASK n) j}"
  have lt: "n mod 64 < 64" by simp
  have S: "j \<in> ?S \<longleftrightarrow> j < n mod 64 \<and> bit (m ! ?k) j" for j
    using lt False by (auto simp: bit_and_iff bit_last_word_mask)
  have "bm_set n m = bm_set (64 * ?k) m \<union> ?f ` ?S"
  proof (intro set_eqI iffI)
    fix i assume i: "i \<in> bm_set n m"
    show "i \<in> bm_set (64 * ?k) m \<union> ?f ` ?S"
    proof (cases "i < 64 * ?k")
      case True
      then show ?thesis using i by (simp add: bm_set_def)
    next
      case notlt: False
      have "i < 64 * ?k + n mod 64" using i by (simp add: bm_set_def)
      with notlt lt word_index [of ?k i]
      have ik: "i div 64 = ?k" "i = ?f (i mod 64)" by linarith+
      then have "i mod 64 < n mod 64" using \<open>i < 64 * ?k + n mod 64\<close> by linarith
      with ik
      show ?thesis using i S [of "i mod 64"] by (auto simp: bm_set_def bm_bit_def)
    qed
  next
    fix i assume "i \<in> bm_set (64 * ?k) m \<union> ?f ` ?S"
    then consider "i < 64 * ?k" "bm_bit m i" | j where "i = ?f j" "j \<in> ?S"
      by (auto simp: bm_set_def)
    then show "i \<in> bm_set n m"
    proof cases
      case 1
      then show ?thesis by (auto simp: bm_set_def)
    next
      case 2
      then have j: "j < n mod 64" "bit (m ! ?k) j" using S by auto
      then have "64 * ?k + j < n" "j < 64" using lt mult_div_mod_eq [of 64 n] by linarith+
      then show ?thesis using 2(1) j by (auto simp: bm_set_def bm_bit_def)
    qed
  qed
  moreover have "bm_set (64 * ?k) m \<inter> ?f ` ?S = {}" by (auto simp: bm_set_def)
  moreover have "finite ?S"
    by (rule finite_subset [of _ "{..<n mod 64}"]) (use S in auto)
  ultimately have "card (bm_set n m) = card (bm_set (64 * ?k) m) + card ?S"
    by (simp add: card_Un_disjoint card_shifted)
  then show ?thesis
    using False by (simp add: u_bitmap_weight_def Let_def BITS_PER_LONG_def card_bm_set_words
        hweight_long_def hweight64_popcount popcount_def)
qed

lemma bitmap_weight_card: "0 < n \<Longrightarrow> bitmap_weight m n = card (bm_set n m)"
proof (cases "n \<le> 64")
  case True
  assume n: "0 < n"
  have "{j. bit (m ! 0 AND BITMAP_LAST_WORD_MASK n) j} = bm_set n m"
    using n True bit_imp_le_length [of "m ! 0"]
    by (auto simp: bm_set_def bm_bit_one_word bit_and_iff bit_one_word_mask)
  then show ?thesis using True
    by (simp add: bitmap_weight_def BITS_PER_LONG_def hweight_long_def hweight64_popcount popcount_def)
next
  case False
  then show ?thesis by (simp add: bitmap_weight_def BITS_PER_LONG_def u_bitmap_weight_card)
qed


section \<open>Word loops over the store\<close>

lemma bm_put_simps [simp]:
  "bm_put s p k w q = (if q = p then (s p)[k := w] else s q)"
  by (simp add: bm_put_def)

lemma BITS_TO_LONGS_cases:
  "BITS_TO_LONGS n = (if n mod 64 = 0 then n div 64 else Suc (n div 64))"
proof -
  obtain q r where n: "n = 64 * q + r" "r < 64"
    using mult_div_mod_eq [of 64 n] mod_less_divisor [of 64 n] by (metis zero_less_numeral)
  then have "n div 64 = q" "n mod 64 = r" by simp_all
  moreover have "(n + 64 - 1) div 64 = (if r = 0 then q else Suc q)"
    by (rule div_nat_eqI) (use n in \<open>auto split: if_splits\<close>)
  ultimately show ?thesis
    unfolding BITS_TO_LONGS_def BITS_PER_LONG_def by simp
qed

text \<open>
  A loop that computes word \<open>k\<close> of the destination from words that it has not written
  yet: the result is the pointwise image of the initial store, aliased or not.
\<close>

lemma word_loop_up:
  assumes "\<And>k t. k < n \<Longrightarrow> \<forall>q. q \<noteq> dst \<longrightarrow> t q = s q \<Longrightarrow> length (t dst) = length (s dst) \<Longrightarrow>
      \<forall>j \<ge> k. t dst ! j = s dst ! j \<Longrightarrow> f k t = g k"
    and n: "n \<le> length (s dst)"
  defines "r \<equiv> fold (\<lambda>k s. bm_put s dst k (f k s)) [0..<n] s"
  shows "(\<forall>q. q \<noteq> dst \<longrightarrow> r q = s q) \<and> length (r dst) = length (s dst)
    \<and> (\<forall>j. r dst ! j = (if j < n then g j else s dst ! j))"
  unfolding r_def
proof (rule fold_upt_invariant [where P = "\<lambda>k t. (\<forall>q. q \<noteq> dst \<longrightarrow> t q = s q)
    \<and> length (t dst) = length (s dst) \<and> (\<forall>j. t dst ! j = (if j < k then g j else s dst ! j))"])
  fix k t
  assume k: "k < n" and I: "(\<forall>q. q \<noteq> dst \<longrightarrow> t q = s q) \<and> length (t dst) = length (s dst)
    \<and> (\<forall>j. t dst ! j = (if j < k then g j else s dst ! j))"
  then have "f k t = g k" by (intro assms(1)) auto
  with I k n show "(\<forall>q. q \<noteq> dst \<longrightarrow> bm_put t dst k (f k t) q = s q)
    \<and> length (bm_put t dst k (f k t) dst) = length (s dst)
    \<and> (\<forall>j. bm_put t dst k (f k t) dst ! j = (if j < Suc k then g j else s dst ! j))"
    by (auto simp: nth_list_update less_Suc_eq)
qed auto

text \<open>The same for a loop that runs downwards and writes word \<open>k + off\<close>.\<close>

lemma word_loop_down:
  assumes "\<And>k t. k < n \<Longrightarrow> \<forall>q. q \<noteq> dst \<longrightarrow> t q = s q \<Longrightarrow> length (t dst) = length (s dst) \<Longrightarrow>
      \<forall>j \<le> k + off. t dst ! j = s dst ! j \<Longrightarrow> f k t = g k"
    and n: "n + off \<le> length (s dst)"
  defines "r \<equiv> fold (\<lambda>k s. bm_put s dst (k + off) (f k s)) (rev [0..<n]) s"
  shows "(\<forall>q. q \<noteq> dst \<longrightarrow> r q = s q) \<and> length (r dst) = length (s dst)
    \<and> (\<forall>j. r dst ! j = (if off \<le> j \<and> j < n + off then g (j - off) else s dst ! j))"
proof -
  have "(\<forall>q. q \<noteq> dst \<longrightarrow> r q = s q) \<and> length (r dst) = length (s dst)
    \<and> (\<forall>j. r dst ! j = (if 0 + off \<le> j \<and> j < n + off then g (j - off) else s dst ! j))"
    unfolding r_def
  proof (rule fold_rev_upt_invariant [where P = "\<lambda>k t. (\<forall>q. q \<noteq> dst \<longrightarrow> t q = s q)
    \<and> length (t dst) = length (s dst)
    \<and> (\<forall>j. t dst ! j = (if k + off \<le> j \<and> j < n + off then g (j - off) else s dst ! j))"])
    fix k t
    assume k: "k < n" and I: "(\<forall>q. q \<noteq> dst \<longrightarrow> t q = s q) \<and> length (t dst) = length (s dst)
      \<and> (\<forall>j. t dst ! j = (if Suc k + off \<le> j \<and> j < n + off then g (j - off) else s dst ! j))"
    then have "f k t = g k" by (intro assms(1)) auto
    with I k n show "(\<forall>q. q \<noteq> dst \<longrightarrow> bm_put t dst (k + off) (f k t) q = s q)
      \<and> length (bm_put t dst (k + off) (f k t) dst) = length (s dst)
      \<and> (\<forall>j. bm_put t dst (k + off) (f k t) dst ! j =
            (if k + off \<le> j \<and> j < n + off then g (j - off) else s dst ! j))"
      by (auto simp: nth_list_update)
  qed auto
  then show ?thesis by simp
qed

lemma bm_memset_simps:
  assumes "from + len \<le> length (s p)"
  shows "(\<forall>q. q \<noteq> p \<longrightarrow> bm_memset p from len w s q = s q)
    \<and> length (bm_memset p from len w s p) = length (s p)
    \<and> (\<forall>j. bm_memset p from len w s p ! j = (if from \<le> j \<and> j < from + len then w else s p ! j))"
  using assms unfolding bm_memset_def
  by (induction len) (auto simp: nth_list_update)

subsection \<open>Bitwise operations\<close>

lemma BITS_TO_LONGS_words: "i < n \<Longrightarrow> i div 64 < BITS_TO_LONGS n"
  unfolding BITS_TO_LONGS_def BITS_PER_LONG_def by (simp add: less_eq_div_iff_mult_less_eq div_less_iff_less_mult)


lemma pointwise_loop:
  assumes "BITS_TO_LONGS n \<le> length (s dst)"
    and "r = fold (\<lambda>k s. bm_put s dst k (op (s b1 ! k) (s b2 ! k))) [0..<BITS_TO_LONGS n] s"
  shows "(\<forall>q. q \<noteq> dst \<longrightarrow> r q = s q) \<and> length (r dst) = length (s dst)
    \<and> (\<forall>j. r dst ! j = (if j < BITS_TO_LONGS n then op (s b1 ! j) (s b2 ! j) else s dst ! j))"
  unfolding assms(2) 
proof (rule word_loop_up)
  show "BITS_TO_LONGS n \<le> length (s dst)" by (rule assms(1))
  fix k t
  assume "\<forall>q. q \<noteq> dst \<longrightarrow> t q = s q" and "\<forall>j \<ge> k. t dst ! j = s dst ! j"
  then have "t q ! k = s q ! k" for q by (cases "q = dst") auto
  then show "op (t b1 ! k) (t b2 ! k) = op (s b1 ! k) (s b2 ! k)" by simp
qed

text \<open>What a bitwise operation does to the bits \<open>i < n\<close> and to everything else in the store.\<close>

definition bm_op_post :: "bmstore \<Rightarrow> nat \<Rightarrow> nat \<Rightarrow> bmstore \<Rightarrow> (nat \<Rightarrow> bool) \<Rightarrow> bool" where
  "bm_op_post s dst n r P \<longleftrightarrow>
    (\<forall>q. q \<noteq> dst \<longrightarrow> r q = s q) \<and> length (r dst) = length (s dst) \<and> bm_set n (r dst) = {i. i < n \<and> P i}"

lemma bm_op_postI:
  assumes "(\<forall>q. q \<noteq> dst \<longrightarrow> r q = s q) \<and> length (r dst) = length (s dst)
    \<and> (\<forall>j. r dst ! j = (if j < BITS_TO_LONGS n then g j else s dst ! j))"
    and "\<And>i. i < n \<Longrightarrow> bit (g (i div 64)) (i mod 64) = P i"
  shows "bm_op_post s dst n r P"
  using assms by (auto simp: bm_op_post_def bm_set_def bm_bit_def BITS_TO_LONGS_words)

lemma bitmap_pointwise:
  assumes n: "0 < n" "BITS_TO_LONGS n \<le> length (s dst)"
    and op: "\<And>x y j. j < 64 \<Longrightarrow> bit (op x y :: u64) j = bop (bit (x :: u64) j) (bit (y :: u64) j)"
    and r: "r = (if n \<le> BITS_PER_LONG then bm_put s dst 0 (op (s b1 ! 0) (s b2 ! 0))
        else fold (\<lambda>k s. bm_put s dst k (op (s b1 ! k) (s b2 ! k))) [0..<BITS_TO_LONGS n] s)"
  shows "bm_op_post s dst n r (\<lambda>i. bop (bm_bit (s b1) i) (bm_bit (s b2) i))"
proof (rule bm_op_postI [where g = "\<lambda>j. op (s b1 ! j) (s b2 ! j)"])
  show "(\<forall>q. q \<noteq> dst \<longrightarrow> r q = s q) \<and> length (r dst) = length (s dst)
    \<and> (\<forall>j. r dst ! j = (if j < BITS_TO_LONGS n then op (s b1 ! j) (s b2 ! j) else s dst ! j))"
  proof (cases "n \<le> 64")
    case True
    then have "BITS_TO_LONGS n = 1" using n(1)
      by (simp add: BITS_TO_LONGS_def BITS_PER_LONG_def div_nat_eqI)
    with True n(2) show ?thesis by (auto simp: r BITS_PER_LONG_def nth_list_update Suc_le_eq)
  next
    case False
    then show ?thesis using pointwise_loop [where s = s and dst = dst and n = n, OF n(2)] by (simp add: r BITS_PER_LONG_def)
  qed
qed (simp add: op bm_bit_def)

lemma bitmap_and_post:
  "0 < n \<Longrightarrow> BITS_TO_LONGS n \<le> length (s dst) \<Longrightarrow>
    bm_op_post s dst n (bitmap_and dst b1 b2 n s) (\<lambda>i. bm_bit (s b1) i \<and> bm_bit (s b2) i)"
  by (rule bitmap_pointwise [where op = "(AND)"])
    (auto simp: bitmap_and_def u_bitmap_and_def bit_and_iff)

lemma bitmap_or_post:
  "0 < n \<Longrightarrow> BITS_TO_LONGS n \<le> length (s dst) \<Longrightarrow>
    bm_op_post s dst n (bitmap_or dst b1 b2 n s) (\<lambda>i. bm_bit (s b1) i \<or> bm_bit (s b2) i)"
  by (rule bitmap_pointwise [where op = "(OR)"])
    (auto simp: bitmap_or_def u_bitmap_or_def bit_or_iff)

lemma bitmap_xor_post:
  "0 < n \<Longrightarrow> BITS_TO_LONGS n \<le> length (s dst) \<Longrightarrow>
    bm_op_post s dst n (bitmap_xor dst b1 b2 n s) (\<lambda>i. bm_bit (s b1) i \<noteq> bm_bit (s b2) i)"
  by (rule bitmap_pointwise [where op = "(XOR)"])
    (auto simp: bitmap_xor_def u_bitmap_xor_def bit_xor_iff)

lemma bitmap_andnot_post:
  "0 < n \<Longrightarrow> BITS_TO_LONGS n \<le> length (s dst) \<Longrightarrow>
    bm_op_post s dst n (bitmap_andnot dst b1 b2 n s) (\<lambda>i. bm_bit (s b1) i \<and> \<not> bm_bit (s b2) i)"
  by (rule bitmap_pointwise [where op = "\<lambda>x y. x AND NOT y"])
    (auto simp: bitmap_andnot_def u_bitmap_andnot_def bit_and_iff bit_not_iff)

lemma bitmap_copy_post:
  "0 < n \<Longrightarrow> BITS_TO_LONGS n \<le> length (s dst) \<Longrightarrow>
    bm_op_post s dst n (bitmap_copy dst src n s) (\<lambda>i. bm_bit (s src) i)"
  by (rule bitmap_pointwise [where op = "\<lambda>x y. x" and ?b2.0 = src]) (auto simp: bitmap_copy_def)


lemma bitmap_complement_post:
  assumes n: "0 < n" "BITS_TO_LONGS n \<le> length (s dst)"
  shows "bm_op_post s dst n (bitmap_complement dst src n s) (\<lambda>i. \<not> bm_bit (s src) i)"
proof (cases "n \<le> 64")
  case True
  then have "BITS_TO_LONGS n = 1" using n(1)
    by (simp add: BITS_TO_LONGS_def BITS_PER_LONG_def div_nat_eqI)
  with True n show ?thesis
    by (intro bm_op_postI [where g = "\<lambda>j. NOT (s src ! 0) AND BITMAP_LAST_WORD_MASK n"])
      (auto simp: bitmap_complement_def BITS_PER_LONG_def nth_list_update Suc_le_eq bit_and_iff
        bit_not_iff bit_one_word_mask bm_bit_one_word)
next
  case False
  let ?k = "n div 64"
  let ?g = "\<lambda>j. if j < ?k then NOT (s src ! j) else NOT (s src ! j) AND BITMAP_LAST_WORD_MASK n"
  define t where "t = fold (\<lambda>k s. bm_put s dst k (NOT (s src ! k))) [0..<?k] s"
  have le: "?k \<le> BITS_TO_LONGS n" "n mod 64 \<noteq> 0 \<Longrightarrow> BITS_TO_LONGS n = Suc ?k"
    "n mod 64 = 0 \<Longrightarrow> BITS_TO_LONGS n = ?k"
    by (simp_all add: BITS_TO_LONGS_cases)
  have t: "(\<forall>q. q \<noteq> dst \<longrightarrow> t q = s q) \<and> length (t dst) = length (s dst)
    \<and> (\<forall>j. t dst ! j = (if j < ?k then NOT (s src ! j) else s dst ! j))"
    unfolding t_def
  proof (rule word_loop_up)
    show "?k \<le> length (s dst)" using le n by linarith
    fix k t
    assume "\<forall>q. q \<noteq> dst \<longrightarrow> t q = s q" and "\<forall>j \<ge> k. t dst ! j = s dst ! j"
    then show "NOT (t src ! k) = NOT (s src ! k)" by (cases "src = dst") auto
  qed
  then have "t src ! ?k = s src ! ?k" by (cases "src = dst") auto
  moreover have "bitmap_complement dst src n s =
      (if n mod 64 \<noteq> 0 then bm_put t dst ?k (NOT (t src ! ?k) AND BITMAP_LAST_WORD_MASK n) else t)"
    using False by (simp add: bitmap_complement_def u_bitmap_complement_def Let_def t_def BITS_PER_LONG_def)
  ultimately have "(\<forall>q. q \<noteq> dst \<longrightarrow> bitmap_complement dst src n s q = s q)
    \<and> length (bitmap_complement dst src n s dst) = length (s dst)
    \<and> (\<forall>j. bitmap_complement dst src n s dst ! j = (if j < BITS_TO_LONGS n then ?g j else s dst ! j))"
    using t le n by (auto simp: nth_list_update less_Suc_eq)
  then show ?thesis
  proof (rule bm_op_postI)
    fix i assume i: "i < n"
    have "i div 64 < ?k \<or> i div 64 = ?k \<and> i mod 64 < n mod 64"
      using i by (metis add_less_cancel_left div_le_mono le_neq_implies_less less_imp_le_nat mult_div_mod_eq)
    then show "bit (?g (i div 64)) (i mod 64) = (\<not> bm_bit (s src) i)"
      by (auto simp: bm_bit_def bit_and_iff bit_not_iff bit_last_word_mask)
  qed
qed


subsection \<open>Shifts\<close>

lemma index_lt_iff:
  assumes "b < 64"
  shows "64 * a + b < n \<longleftrightarrow>
    a < BITS_TO_LONGS n \<and> (n mod 64 \<noteq> 0 \<and> a = BITS_TO_LONGS n - 1 \<longrightarrow> b < n mod 64)"
proof -
  obtain q r where n: "n = 64 * q + r" "r < 64"
    using mult_div_mod_eq [of 64 n] mod_less_divisor [of 64 n] by (metis zero_less_numeral)
  then have "n div 64 = q" "n mod 64 = r" by simp_all
  then show ?thesis using assms n by (auto simp: BITS_TO_LONGS_cases)
qed

lemma div_mod_64: "b < 64 \<Longrightarrow> (64 * a + b) div 64 = a \<and> (64 * a + b) mod 64 = (b :: nat)"
  by simp

lemma bit_shift_left_word:
  assumes i: "i < n" and k: "i div 64 = k + shift div 64"
  shows "bit (shift_left_word (BITS_TO_LONGS n) (n mod 64) shift m k) (i mod 64)
    \<longleftrightarrow> shift \<le> i \<and> bm_bit m (i - shift)"
proof -
  define lim where "lim = BITS_TO_LONGS n"
  define left where "left = n mod 64"
  define off where "off = shift div 64"
  define rem where "rem = shift mod 64"
  define M where "M = i mod 64"
  have sh: "shift = 64 * off + rem" "rem < 64" by (simp_all add: off_def rem_def)
  have ii: "i = 64 * (k + off) + M" "M < 64"
    using k mult_div_mod_eq [of 64 i] by (simp_all add: off_def M_def)
  have top: "left \<noteq> 0 \<and> k + off = lim - 1 \<Longrightarrow> M < left"
    using i index_lt_iff [OF ii(2), of "k + off" n] by (simp add: ii(1) lim_def left_def)
  define lower where "lower = (if rem \<noteq> 0 \<and> k > 0 then m ! (k - 1) else 0)"
  define upper where
    "upper = (if left \<noteq> 0 \<and> k = lim - 1 then m ! k AND (push_bit left 1 - 1) else m ! k)"
  have left64: "left < 64" by (simp add: left_def)
  have up: "bit upper (M - rem) = bit (m ! k) (M - rem)"
  proof (cases "left \<noteq> 0 \<and> k = lim - 1")
    case True
    have "k + off < lim" using i index_lt_iff [OF ii(2), of "k + off" n] by (simp add: ii(1) lim_def)
    then have "k + off = lim - 1" using True by linarith
    then have "M - rem < left" using True top by auto
    then show ?thesis using left64 by (simp add: upper_def bit_and_iff bit_left_mask bit_power_mask)
  qed (auto simp: upper_def)
  have w: "bit (shift_left_word lim left shift m k) M
      \<longleftrightarrow> bit lower (64 - rem + M) \<or> rem \<le> M \<and> bit upper (M - rem)"
  proof -
    have "shift_left_word lim left shift m k =
        (let w = drop_bit (64 - rem) lower OR push_bit rem upper
         in if left \<noteq> 0 \<and> k + off = lim - 1 then w AND (push_bit left 1 - 1) else w)"
      unfolding shift_left_word_def Let_def BITS_PER_LONG_def lower_def upper_def off_def rem_def ..
    then show ?thesis
      using top ii(2) by (simp add: Let_def bit_and_iff bit_or_iff bit_drop_bit_eq bit_push_bit_iff
          bit_left_mask bit_power_mask left64)
  qed
  consider "rem \<le> M" | "M < rem" "k = 0" | "M < rem" "0 < k" by linarith
  then have "(bit lower (64 - rem + M) \<or> rem \<le> M \<and> bit upper (M - rem))
      \<longleftrightarrow> shift \<le> i \<and> bm_bit m (i - shift)"
  proof cases
    case 1
    then have "\<not> bit lower (64 - rem + M)"
      using sh(2) bit_imp_le_length [of lower "64 - rem + M"] by auto
    moreover have "i - shift = 64 * k + (M - rem)" using 1 sh ii by simp
    then have "(i - shift) div 64 = k" "(i - shift) mod 64 = M - rem" using ii(2) by simp_all
    ultimately show ?thesis using 1 sh ii up by (simp add: bm_bit_def)
  next
    case 2
    then show ?thesis using sh ii by (simp add: lower_def)
  next
    case 3
    then have "i - shift = 64 * (k - 1) + (64 - rem + M)" "64 - rem + M < 64"
      using sh ii by (simp_all add: algebra_simps diff_mult_distrib2)
    then have "(i - shift) div 64 = k - 1" "(i - shift) mod 64 = 64 - rem + M"
      using div_mod_64 [of "64 - rem + M" "k - 1"] by simp_all
    then show ?thesis using 3 sh ii by (simp add: bm_bit_def lower_def)
  qed
  with w show ?thesis by (simp add: lim_def left_def M_def)
qed

lemma u_bitmap_shift_left_post:
  assumes n: "BITS_TO_LONGS n \<le> length (s dst)" and off: "shift div 64 \<le> BITS_TO_LONGS n"
  shows "bm_op_post s dst n (u_bitmap_shift_left dst src shift n s)
    (\<lambda>i. shift \<le> i \<and> bm_bit (s src) (i - shift))"
proof -
  define lim where "lim = BITS_TO_LONGS n"
  define off' where "off' = shift div 64"
  let ?g = "\<lambda>k. shift_left_word lim (n mod 64) shift (s src) k"
  define t where "t = fold (\<lambda>k s. bm_put s dst (k + off')
      (shift_left_word lim (n mod 64) shift (s src) k)) (rev [0..<lim - off']) s"
  have t: "(\<forall>q. q \<noteq> dst \<longrightarrow> t q = s q) \<and> length (t dst) = length (s dst)
    \<and> (\<forall>j. t dst ! j = (if off' \<le> j \<and> j < lim - off' + off' then ?g (j - off') else s dst ! j))"
    unfolding t_def
  proof (rule word_loop_down)
    show "lim - off' + off' \<le> length (s dst)" using n off by (simp add: lim_def off'_def)
    fix k t
    assume k: "\<forall>q. q \<noteq> dst \<longrightarrow> t q = s q" "\<forall>j \<le> k + off'. t dst ! j = s dst ! j"
    have "t src ! j = s src ! j" if "j \<le> k" for j using k that by (cases "src = dst") auto
    then show "shift_left_word lim (n mod 64) shift (t src) k = ?g k"
      by (simp add: shift_left_word_def Let_def)
  qed
  have r: "u_bitmap_shift_left dst src shift n s = (if off' \<noteq> 0 then bm_memset dst 0 off' 0 t else t)"
    by (simp add: u_bitmap_shift_left_def Let_def t_def lim_def off'_def BITS_PER_LONG_def)
  have "(\<forall>q. q \<noteq> dst \<longrightarrow> u_bitmap_shift_left dst src shift n s q = s q)
    \<and> length (u_bitmap_shift_left dst src shift n s dst) = length (s dst)
    \<and> (\<forall>j. u_bitmap_shift_left dst src shift n s dst ! j =
        (if j < BITS_TO_LONGS n then if j < off' then 0 else ?g (j - off') else s dst ! j))"
    using t bm_memset_simps [of 0 off' t dst 0] n off unfolding r by (auto simp: lim_def off'_def)
  then show ?thesis
  proof (rule bm_op_postI)
    fix i assume i: "i < n"
    show "bit (if i div 64 < off' then 0 else ?g (i div 64 - off')) (i mod 64)
        = (shift \<le> i \<and> bm_bit (s src) (i - shift))"
    proof (cases "i div 64 < off'")
      case True
      then have "i < shift" using div_le_mono [of shift i 64] by (auto simp: off'_def not_less)
      then show ?thesis using True by simp
    next
      case False
      then show ?thesis
        using bit_shift_left_word [OF i, of "i div 64 - off'" shift "s src"] by (simp add: off'_def lim_def)
    qed
  qed
qed


lemma bit_shift_right_word:
  assumes i: "i < n" and k: "k = i div 64" "shift div 64 + k < BITS_TO_LONGS n"
  shows "bit (shift_right_word (BITS_TO_LONGS n) (n mod 64) shift m k) (i mod 64)
    \<longleftrightarrow> i + shift < n \<and> bm_bit m (i + shift)"
proof -
  define lim where "lim = BITS_TO_LONGS n"
  define left where "left = n mod 64"
  define off where "off = shift div 64"
  define rem where "rem = shift mod 64"
  define M where "M = i mod 64"
  have sh: "shift = 64 * off + rem" "rem < 64" by (simp_all add: off_def rem_def)
  have ii: "i = 64 * k + M" "M < 64" using k mult_div_mod_eq [of 64 i] by (simp_all add: M_def)
  have left64: "left < 64" by (simp add: left_def)
  have idx: "64 * a + b < n \<longleftrightarrow> a < lim \<and> (left \<noteq> 0 \<and> a = lim - 1 \<longrightarrow> b < left)" if "b < 64" for a b
    using index_lt_iff [OF that] by (simp add: lim_def left_def)
  define upper where "upper = (if rem = 0 \<or> off + k + 1 \<ge> lim then 0
      else if off + k + 1 = lim - 1 \<and> left \<noteq> 0 then m ! (off + k + 1) AND (push_bit left 1 - 1)
      else m ! (off + k + 1))"
  define lower where "lower = (if left \<noteq> 0 \<and> off + k = lim - 1
      then m ! (off + k) AND (push_bit left 1 - 1) else m ! (off + k))"
  have w: "bit (shift_right_word lim left shift m k) M
      \<longleftrightarrow> 64 - rem \<le> M \<and> bit upper (M - (64 - rem)) \<or> bit lower (rem + M)"
  proof -
    have "shift_right_word lim left shift m k =
        (let w = push_bit (64 - rem) upper OR drop_bit rem lower
         in if left \<noteq> 0 \<and> k = lim - 1 then w AND (push_bit left 1 - 1) else w)"
      unfolding shift_right_word_def Let_def BITS_PER_LONG_def lower_def upper_def off_def rem_def ..
    moreover have "left \<noteq> 0 \<and> k = lim - 1 \<Longrightarrow> M < left"
      using idx [OF ii(2), of k] i ii(1) by simp
    ultimately show ?thesis
      using ii(2) by (simp add: Let_def bit_and_iff bit_or_iff bit_drop_bit_eq bit_push_bit_iff
          bit_left_mask bit_power_mask left64)
  qed
  have lo: "bit lower b \<longleftrightarrow> 64 * (off + k) + b < n \<and> bit (m ! (off + k)) b" if "b < 64" for b
    using idx [OF that, of "off + k"] k(2) left64
    by (auto simp: lower_def bit_and_iff bit_left_mask bit_power_mask off_def lim_def)
  have up: "bit upper b \<longleftrightarrow> rem \<noteq> 0 \<and> 64 * (off + k + 1) + b < n \<and> bit (m ! (off + k + 1)) b"
    if "b < 64" for b
    using idx [OF that, of "off + k + 1"] left64 by (auto simp: upper_def bit_and_iff bit_left_mask bit_power_mask)
  show ?thesis
  proof (cases "rem + M < 64")
    case True
    have e: "i + shift = 64 * (off + k) + (rem + M)" using sh ii by simp
    have "(i + shift) div 64 = off + k" "(i + shift) mod 64 = rem + M"
      by (simp_all only: e div_mod_64 [OF True])
    then show ?thesis
      using w lo [OF True] True e unfolding lim_def left_def M_def bm_bit_def by auto
  next
    case False
    have b: "M - (64 - rem) < 64" using ii(2) by linarith
    have e: "i + shift = 64 * (off + k + 1) + (M - (64 - rem))" using sh ii False by simp
    have "(i + shift) div 64 = off + k + 1" "(i + shift) mod 64 = M - (64 - rem)"
      by (simp_all only: e div_mod_64 [OF b])
    moreover have "\<not> bit lower (rem + M)" using False bit_imp_le_length [of lower "rem + M"] by auto
    moreover have "rem \<noteq> 0" using False ii(2) by auto
    ultimately show ?thesis
      using w up [OF b] False e unfolding lim_def left_def M_def bm_bit_def by auto
  qed
qed

lemma u_bitmap_shift_right_post:
  assumes n: "BITS_TO_LONGS n \<le> length (s dst)" and off: "shift div 64 \<le> BITS_TO_LONGS n"
  shows "bm_op_post s dst n (u_bitmap_shift_right dst src shift n s)
    (\<lambda>i. i + shift < n \<and> bm_bit (s src) (i + shift))"
proof -
  define lim where "lim = BITS_TO_LONGS n"
  define off' where "off' = shift div 64"
  let ?g = "\<lambda>k. shift_right_word lim (n mod 64) shift (s src) k"
  define t where "t = fold (\<lambda>k s. bm_put s dst k
      (shift_right_word lim (n mod 64) shift (s src) k)) [0..<lim - off'] s"
  have t: "(\<forall>q. q \<noteq> dst \<longrightarrow> t q = s q) \<and> length (t dst) = length (s dst)
    \<and> (\<forall>j. t dst ! j = (if j < lim - off' then ?g j else s dst ! j))"
    unfolding t_def
  proof (rule word_loop_up)
    show "lim - off' \<le> length (s dst)" using n by (simp add: lim_def)
    fix k t
    assume k: "\<forall>q. q \<noteq> dst \<longrightarrow> t q = s q" "\<forall>j \<ge> k. t dst ! j = s dst ! j"
    have "t src ! j = s src ! j" if "k \<le> j" for j using k that by (cases "src = dst") auto
    then show "shift_right_word lim (n mod 64) shift (t src) k = ?g k"
      by (simp add: shift_right_word_def Let_def)
  qed
  have r: "u_bitmap_shift_right dst src shift n s =
      (if off' \<noteq> 0 then bm_memset dst (lim - off') off' 0 t else t)"
    by (simp add: u_bitmap_shift_right_def Let_def t_def lim_def off'_def BITS_PER_LONG_def)
  have "(\<forall>q. q \<noteq> dst \<longrightarrow> u_bitmap_shift_right dst src shift n s q = s q)
    \<and> length (u_bitmap_shift_right dst src shift n s dst) = length (s dst)
    \<and> (\<forall>j. u_bitmap_shift_right dst src shift n s dst ! j =
        (if j < BITS_TO_LONGS n then if j < lim - off' then ?g j else 0 else s dst ! j))"
    using t bm_memset_simps [of "lim - off'" off' t dst 0] n off unfolding r
    by (auto simp: lim_def off'_def)
  then show ?thesis
  proof (rule bm_op_postI)
    fix i assume i: "i < n"
    show "bit (if i div 64 < lim - off' then ?g (i div 64) else 0) (i mod 64)
        = (i + shift < n \<and> bm_bit (s src) (i + shift))"
    proof (cases "i div 64 < lim - off'")
      case True
      then show ?thesis
        using bit_shift_right_word [OF i refl, of shift "s src"] by (simp add: off'_def lim_def)
    next
      case False
      have "\<not> i + shift < n"
      proof
        assume "i + shift < n"
        then have "(i + shift) div 64 < lim" using BITS_TO_LONGS_words by (simp add: lim_def)
        moreover have "i div 64 + shift div 64 \<le> (i + shift) div 64"
          using div_add1_eq [of i shift 64] by linarith
        ultimately show False using False by (simp add: off'_def)
      qed
      then show ?thesis using False by simp
    qed
  qed
qed


subsection \<open>Constant maps and single bits\<close>

lemma bitmap_zero_post:
  assumes n: "0 < n" "BITS_TO_LONGS n \<le> length (s dst)"
  shows "bm_op_post s dst n (bitmap_zero dst n s) (\<lambda>i. False)"
proof (rule bm_op_postI [where g = "\<lambda>_. 0"])
  show "(\<forall>q. q \<noteq> dst \<longrightarrow> bitmap_zero dst n s q = s q)
    \<and> length (bitmap_zero dst n s dst) = length (s dst)
    \<and> (\<forall>j. bitmap_zero dst n s dst ! j = (if j < BITS_TO_LONGS n then 0 else s dst ! j))"
  proof (cases "n \<le> 64")
    case True
    then have "BITS_TO_LONGS n = 1" using n(1)
      by (simp add: BITS_TO_LONGS_def BITS_PER_LONG_def div_nat_eqI)
    with True n(2) show ?thesis
      by (auto simp: bitmap_zero_def BITS_PER_LONG_def nth_list_update Suc_le_eq)
  next
    case False
    then show ?thesis
      using bm_memset_simps [of 0 "BITS_TO_LONGS n" s dst 0] n
      by (simp add: bitmap_zero_def BITS_PER_LONG_def)
  qed
qed simp

lemma bitmap_fill_post:
  assumes n: "0 < n" "BITS_TO_LONGS n \<le> length (s dst)"
  shows "bm_op_post s dst n (bitmap_fill dst n s) (\<lambda>i. True)"
proof -
  let ?l = "BITS_TO_LONGS n"
  have l: "0 < ?l" using BITS_TO_LONGS_words [OF n(1)] by auto
  define t where "t = (if ?l > 1 then bm_memset dst 0 (?l - 1) (NOT 0) s else s)"
  have "(\<forall>q. q \<noteq> dst \<longrightarrow> t q = s q) \<and> length (t dst) = length (s dst)
    \<and> (\<forall>j. t dst ! j = (if j < ?l - 1 then NOT 0 else s dst ! j))"
    using bm_memset_simps [of 0 "?l - 1" s dst "NOT 0"] n by (auto simp: t_def)
  then have "(\<forall>q. q \<noteq> dst \<longrightarrow> bitmap_fill dst n s q = s q)
    \<and> length (bitmap_fill dst n s dst) = length (s dst)
    \<and> (\<forall>j. bitmap_fill dst n s dst ! j =
        (if j < ?l then if j < ?l - 1 then NOT 0 else BITMAP_LAST_WORD_MASK n else s dst ! j))"
  proof -
    have "bitmap_fill dst n s = bm_put t dst (?l - 1) (BITMAP_LAST_WORD_MASK n)"
      unfolding bitmap_fill_def Let_def t_def ..
    moreover assume "(\<forall>q. q \<noteq> dst \<longrightarrow> t q = s q) \<and> length (t dst) = length (s dst)
      \<and> (\<forall>j. t dst ! j = (if j < ?l - 1 then NOT 0 else s dst ! j))"
    ultimately show ?thesis using l n by (auto simp: nth_list_update)
  qed
  then show ?thesis
  proof (rule bm_op_postI)
    fix i assume i: "i < n"
    then show "bit (if i div 64 < ?l - 1 then NOT 0 else BITMAP_LAST_WORD_MASK n) (i mod 64) = True"
      using index_lt_iff [of "i mod 64" "i div 64" n] BITS_TO_LONGS_words [OF i]
      by (auto simp: bit_not_iff bit_last_word_mask)
  qed
qed

lemma bit_op_mask: "bit (BITOP_MASK nr) j \<longleftrightarrow> j = nr mod 64"
proof -
  have "nr mod 64 < 64" by simp
  then show ?thesis
    unfolding BITOP_MASK_def BITS_PER_LONG_def bit_push_bit_iff by (auto simp: bit_1_iff)
qed

lemma bm_single_bit:
  assumes "nr div 64 < length m"
  shows "bm_bit (bm_set_bit nr m) i \<longleftrightarrow> i = nr \<or> bm_bit m i"
    and "bm_bit (bm_clear_bit nr m) i \<longleftrightarrow> i \<noteq> nr \<and> bm_bit m i"
    and "bm_bit (bm_change_bit nr m) i \<longleftrightarrow> (i = nr) \<noteq> bm_bit m i"
proof -
  have "i = nr \<longleftrightarrow> i div 64 = nr div 64 \<and> i mod 64 = nr mod 64"
    by (metis mult_div_mod_eq)
  then show "bm_bit (bm_set_bit nr m) i \<longleftrightarrow> i = nr \<or> bm_bit m i"
    "bm_bit (bm_clear_bit nr m) i \<longleftrightarrow> i \<noteq> nr \<and> bm_bit m i"
    "bm_bit (bm_change_bit nr m) i \<longleftrightarrow> (i = nr) \<noteq> bm_bit m i"
    using assms
    by (auto simp: bm_bit_def bm_set_bit_def bm_clear_bit_def bm_change_bit_def BITOP_WORD_def
        BITS_PER_LONG_def nth_list_update bit_or_iff bit_and_iff bit_xor_iff bit_not_iff bit_op_mask)
qed

lemma bm_single_bit_length [simp]:
  "length (bm_set_bit nr m) = length m" "length (bm_clear_bit nr m) = length m"
  "length (bm_change_bit nr m) = length m"
  by (simp_all add: bm_set_bit_def bm_clear_bit_def bm_change_bit_def)

lemma bm_test_bit_eq: "bm_test_bit nr m = (if bm_bit m nr then 1 else 0)"
proof -
  have "nr AND 63 = nr mod 64"
    using take_bit_eq_mask [of 6 nr] by (simp add: take_bit_eq_mod mask_numeral)
  then have "bm_test_bit nr m = drop_bit (nr mod 64) (m ! (nr div 64)) mod 2"
    by (simp add: bm_test_bit_def BITOP_WORD_def BITS_PER_LONG_def and.commute [of 1] and_one_eq)
  then show ?thesis
    by (simp add: bm_bit_def bit_iff_odd_drop_bit odd_iff_mod_2_eq_one)
qed

text \<open>The test-and-modify operations return the old bit and do what the plain ones do.\<close>

lemma and_op_mask_nonzero: "w AND BITOP_MASK nr \<noteq> 0 \<longleftrightarrow> bit w (nr mod 64)"
  by (auto simp: word_nonzero_iff bit_and_iff bit_op_mask)

lemma bm_test_and_modify:
  "bm_test_and_set_bit nr m = (bm_bit m nr, bm_set_bit nr m)"
  "bm_test_and_clear_bit nr m = (bm_bit m nr, bm_clear_bit nr m)"
  "bm_test_and_change_bit nr m = (bm_bit m nr, bm_change_bit nr m)"
  by (simp_all add: bm_test_and_set_bit_def bm_test_and_clear_bit_def bm_test_and_change_bit_def
      bm_set_bit_def bm_clear_bit_def bm_change_bit_def Let_def and_op_mask_nonzero bm_bit_def
      BITOP_WORD_def BITS_PER_LONG_def)

section \<open>Properties\<close>

text \<open>
  C26: \<open>__bitmap_shift_left\<close> and \<open>__bitmap_shift_right\<close> compute the shifted bit map exactly, for any
  size and any shift whose whole words lie in the map, also when the destination is the source
  array: bits shifted beyond either end are lost, vacated positions are 0, no other array and no
  array size changes.
\<close>

theorem bitmap_shifts_exact:
  assumes "BITS_TO_LONGS n \<le> length (s dst)" "shift div 64 \<le> BITS_TO_LONGS n"
  shows "bm_set n (u_bitmap_shift_left dst src shift n s dst) =
      {i. i < n \<and> shift \<le> i \<and> bm_bit (s src) (i - shift)}
    \<and> bm_set n (u_bitmap_shift_right dst src shift n s dst) =
      {i. i + shift < n \<and> bm_bit (s src) (i + shift)}
    \<and> (\<forall>q. q \<noteq> dst \<longrightarrow> u_bitmap_shift_left dst src shift n s q = s q
         \<and> u_bitmap_shift_right dst src shift n s q = s q)"
  using u_bitmap_shift_left_post [where s = s and dst = dst and src = src and n = n and shift = shift]
    u_bitmap_shift_right_post [where s = s and dst = dst and src = src and n = n and shift = shift] assms
  by (auto simp: bm_op_post_def)

theorem bitmap_shifts_exact_witness:
  "bm_set 70 (u_bitmap_shift_left 0 0 65 70 (\<lambda>_. [3, 1]) 0) =
      {i. i < 70 \<and> 65 \<le> i \<and> bm_bit [3, 1] (i - 65)}
    \<and> bm_set 70 (u_bitmap_shift_right 0 0 65 70 (\<lambda>_. [3, 1]) 0) =
      {i. i + 65 < 70 \<and> bm_bit [3, 1] (i + 65)}"
  using bitmap_shifts_exact [where n = 70 and s = "\<lambda>_. [3, 1]" and dst = 0 and shift = 65 and src = 0]
  by (simp add: BITS_TO_LONGS_def BITS_PER_LONG_def)

text \<open>
  C30: The predicates and the weight of a bit map of \<open>n > 0\<close> bits, with their one-word shortcuts, are
  those of its set of bits: emptiness, fullness, equality, intersection and cardinality. Bits of
  the last word beyond \<open>n\<close> never count.
\<close>

theorem bitmap_queries_exact:
  assumes "0 < n"
  shows "(bitmap_empty a n \<longleftrightarrow> bm_set n a = {}) \<and> (bitmap_full a n \<longleftrightarrow> bm_set n a = {..<n})
    \<and> (bitmap_equal a b n \<longleftrightarrow> bm_set n a = bm_set n b)
    \<and> (bitmap_intersects a b n \<longleftrightarrow> bm_set n a \<inter> bm_set n b \<noteq> {})
    \<and> bitmap_weight a n = card (bm_set n a)"
  using assms
  by (simp add: bitmap_empty_iff bitmap_full_iff bitmap_equal_iff bitmap_intersects_iff bitmap_weight_card)

theorem bitmap_queries_exact_witness:
  "(bitmap_empty [8] 3 \<longleftrightarrow> bm_set 3 [8] = {}) \<and> bitmap_weight [8] 3 = card (bm_set 3 [8])"
  using bitmap_queries_exact [of 3 "[8]"] by simp

end
