(* ===== verification/Cpumask.thy ===== *)
theory Cpumask
  imports Bitmap_Laws
begin

text \<open>
  cpumask.h: a CPU mask is a bit map of \<open>NR_CPUS\<close> bits, passed and assigned by value.
  Each macro runs the bit map operation of the same name at \<open>NR_CPUS\<close> bits; the
  wrappers below run it on a store that holds the operands and read the destination
  back. The abstraction of a mask is its set of CPU numbers, \<open>cpus_of\<close>.

  The locale \<open>cpu_set_algebra\<close> is what the placement code relies on: the operations it
  calls and their meaning on sets of CPUs. It is interpreted on the masks of this theory.
\<close>

definition NR_CPUS :: nat where
  "NR_CPUS = 4096"

type_synonym cpumask = bitmap

definition wf_mask :: "cpumask \<Rightarrow> bool" where
  "wf_mask m \<longleftrightarrow> length m = BITS_TO_LONGS NR_CPUS"

definition cpus_of :: "cpumask \<Rightarrow> nat set" where
  "cpus_of m = bm_set NR_CPUS m"

text \<open>A zero-initialised mask, as \<open>calloc\<close> and static storage give it (\<open>CPU_MASK_NONE\<close>).\<close>

definition CPU_MASK_NONE :: cpumask where
  "CPU_MASK_NONE = replicate (BITS_TO_LONGS NR_CPUS) 0"

definition CPU_MASK_ALL :: cpumask where
  "CPU_MASK_ALL = replicate (BITS_TO_LONGS NR_CPUS - 1) (NOT 0) @ [BITMAP_LAST_WORD_MASK NR_CPUS]"

text \<open>The operands of a macro: the destination is pointer 0, the sources are 1 and 2.\<close>

definition mask_store :: "cpumask \<Rightarrow> cpumask \<Rightarrow> bmstore" where
  "mask_store a b = (\<lambda>p. if p = 1 then a else if p = 2 then b else CPU_MASK_NONE)"

definition cpu_set :: "nat \<Rightarrow> cpumask \<Rightarrow> cpumask" where
  "cpu_set cpu dst = bm_set_bit cpu dst"

definition cpu_clear :: "nat \<Rightarrow> cpumask \<Rightarrow> cpumask" where
  "cpu_clear cpu dst = bm_clear_bit cpu dst"

definition cpu_isset :: "nat \<Rightarrow> cpumask \<Rightarrow> bool" where
  "cpu_isset cpu m \<longleftrightarrow> bm_test_bit cpu m \<noteq> 0"

definition cpus_setall :: cpumask where
  "cpus_setall = bitmap_fill 0 NR_CPUS (mask_store [] []) 0"

definition cpus_clear :: cpumask where
  "cpus_clear = bitmap_zero 0 NR_CPUS (mask_store [] []) 0"

definition cpus_and :: "cpumask \<Rightarrow> cpumask \<Rightarrow> cpumask" where
  "cpus_and src1 src2 = bitmap_and 0 1 2 NR_CPUS (mask_store src1 src2) 0"

definition cpus_or :: "cpumask \<Rightarrow> cpumask \<Rightarrow> cpumask" where
  "cpus_or src1 src2 = bitmap_or 0 1 2 NR_CPUS (mask_store src1 src2) 0"

definition cpus_xor :: "cpumask \<Rightarrow> cpumask \<Rightarrow> cpumask" where
  "cpus_xor src1 src2 = bitmap_xor 0 1 2 NR_CPUS (mask_store src1 src2) 0"

definition cpus_andnot :: "cpumask \<Rightarrow> cpumask \<Rightarrow> cpumask" where
  "cpus_andnot src1 src2 = bitmap_andnot 0 1 2 NR_CPUS (mask_store src1 src2) 0"

definition cpus_complement :: "cpumask \<Rightarrow> cpumask" where
  "cpus_complement src = bitmap_complement 0 1 NR_CPUS (mask_store src []) 0"

definition cpus_shift_right :: "cpumask \<Rightarrow> nat \<Rightarrow> cpumask" where
  "cpus_shift_right src n = bitmap_shift_right 0 1 n NR_CPUS (mask_store src []) 0"

definition cpus_shift_left :: "cpumask \<Rightarrow> nat \<Rightarrow> cpumask" where
  "cpus_shift_left src n = bitmap_shift_left 0 1 n NR_CPUS (mask_store src []) 0"

definition cpus_equal :: "cpumask \<Rightarrow> cpumask \<Rightarrow> bool" where
  "cpus_equal src1 src2 = bitmap_equal src1 src2 NR_CPUS"

definition cpus_intersects :: "cpumask \<Rightarrow> cpumask \<Rightarrow> bool" where
  "cpus_intersects src1 src2 = bitmap_intersects src1 src2 NR_CPUS"

definition cpus_empty :: "cpumask \<Rightarrow> bool" where
  "cpus_empty src = bitmap_empty src NR_CPUS"

definition cpus_full :: "cpumask \<Rightarrow> bool" where
  "cpus_full src = bitmap_full src NR_CPUS"

definition cpus_weight :: "cpumask \<Rightarrow> nat" where
  "cpus_weight src = bitmap_weight src NR_CPUS"

text \<open>
  \<open>first_cpu\<close> is \<open>ffs(*bits) - 1\<close>: \<open>ffs\<close> takes an \<open>int\<close>, so it sees the low 32 bits of
  the first word only, and is 0 when they are all zero.
\<close>

definition ffs :: "u32 \<Rightarrow> nat" where
  "ffs x = (case List.find (bit x) [0..<32] of Some i \<Rightarrow> i + 1 | None \<Rightarrow> 0)"

definition first_cpu :: "cpumask \<Rightarrow> int" where
  "first_cpu src = int (ffs (ucast (src ! 0))) - 1"

section \<open>Masks as sets of CPUs\<close>

lemma NR_CPUS_facts [simp]:
  "0 < NR_CPUS" "BITS_TO_LONGS NR_CPUS = 64" "length CPU_MASK_NONE = 64"
  "wf_mask CPU_MASK_NONE" "cpus_of CPU_MASK_NONE = {}"
proof -
  show len: "BITS_TO_LONGS NR_CPUS = 64"
    by (simp add: BITS_TO_LONGS_def BITS_PER_LONG_def NR_CPUS_def)
  show "0 < NR_CPUS" by (simp add: NR_CPUS_def)
  show "length CPU_MASK_NONE = 64" "wf_mask CPU_MASK_NONE"
    by (simp_all add: CPU_MASK_NONE_def wf_mask_def len)
  have "CPU_MASK_NONE ! (i div 64) = 0" if "i < 4096" for i
    using that by (simp add: CPU_MASK_NONE_def len)
  then show "cpus_of CPU_MASK_NONE = {}"
    by (auto simp: cpus_of_def bm_set_def bm_bit_def NR_CPUS_def)
qed

lemma mask_store_simps [simp]:
  "mask_store a b 0 = CPU_MASK_NONE" "mask_store a b 1 = a" "mask_store a b (Suc 0) = a"
  "mask_store a b 2 = b"
  by (simp_all add: mask_store_def)

lemma cpus_of_iff: "i \<in> cpus_of m \<longleftrightarrow> i < NR_CPUS \<and> bm_bit m i"
  by (simp add: cpus_of_def bm_set_def)

lemma cpus_of_bound: "cpus_of m \<subseteq> {..<NR_CPUS}"
  by (auto simp: cpus_of_iff)

lemma finite_cpus_of [simp]: "finite (cpus_of m)"
  by (simp add: cpus_of_def)

text \<open>What a macro with its operands in the store gives, from the bit map operation's result.\<close>

lemma mask_result:
  assumes "bm_op_post (mask_store a b) 0 NR_CPUS r P"
  shows "wf_mask (r 0) \<and> cpus_of (r 0) = {i. i < NR_CPUS \<and> P i}"
  using assms by (simp add: bm_op_post_def wf_mask_def cpus_of_def)

lemma mask_dst: "BITS_TO_LONGS NR_CPUS \<le> length (mask_store a b 0)"
  by simp

lemma cpus_and_set: "wf_mask (cpus_and a b) \<and> cpus_of (cpus_and a b) = cpus_of a \<inter> cpus_of b"
  unfolding cpus_and_def
  using mask_result [OF bitmap_and_post [where s = "mask_store a b" and dst = 0 and ?b1.0 = 1 and ?b2.0 = 2, OF NR_CPUS_facts(1) mask_dst]]
  by (simp add: set_eq_iff cpus_of_iff conj_commute conj_left_commute)

lemma cpus_or_set: "wf_mask (cpus_or a b) \<and> cpus_of (cpus_or a b) = cpus_of a \<union> cpus_of b"
  unfolding cpus_or_def
  using mask_result [OF bitmap_or_post [where s = "mask_store a b" and dst = 0 and ?b1.0 = 1 and ?b2.0 = 2, OF NR_CPUS_facts(1) mask_dst]]
  by (simp add: set_eq_iff cpus_of_iff conj_disj_distribL)

lemma cpus_xor_set:
  "wf_mask (cpus_xor a b) \<and> cpus_of (cpus_xor a b) = (cpus_of a - cpus_of b) \<union> (cpus_of b - cpus_of a)"
  unfolding cpus_xor_def
  using mask_result [OF bitmap_xor_post [where s = "mask_store a b" and dst = 0 and ?b1.0 = 1 and ?b2.0 = 2, OF NR_CPUS_facts(1) mask_dst]]
  by (simp add: set_eq_iff cpus_of_iff) blast

lemma cpus_andnot_set:
  "wf_mask (cpus_andnot a b) \<and> cpus_of (cpus_andnot a b) = cpus_of a - cpus_of b"
  unfolding cpus_andnot_def
  using mask_result [OF bitmap_andnot_post [where s = "mask_store a b" and dst = 0 and ?b1.0 = 1 and ?b2.0 = 2, OF NR_CPUS_facts(1) mask_dst]]
  by (simp add: set_eq_iff cpus_of_iff) blast

lemma cpus_complement_set:
  "wf_mask (cpus_complement a) \<and> cpus_of (cpus_complement a) = {..<NR_CPUS} - cpus_of a"
  unfolding cpus_complement_def
  using mask_result [OF bitmap_complement_post [where s = "mask_store a []" and dst = 0 and src = 1, OF NR_CPUS_facts(1) mask_dst]]
  by (simp add: set_eq_iff cpus_of_iff) blast

lemma cpus_clear_set: "wf_mask cpus_clear \<and> cpus_of cpus_clear = {}"
  unfolding cpus_clear_def
  using mask_result [OF bitmap_zero_post [where s = "mask_store [] []" and dst = 0, OF NR_CPUS_facts(1) mask_dst]] by simp

lemma cpus_setall_set: "wf_mask cpus_setall \<and> cpus_of cpus_setall = {..<NR_CPUS}"
  unfolding cpus_setall_def
  using mask_result [OF bitmap_fill_post [where s = "mask_store [] []" and dst = 0, OF NR_CPUS_facts(1) mask_dst]]
  by (simp add: lessThan_def)

lemma cpu_in_words: "wf_mask m \<Longrightarrow> cpu < NR_CPUS \<Longrightarrow> cpu div 64 < length m"
  using div_le_mono [of cpu 4095 64] by (simp add: wf_mask_def) (simp add: NR_CPUS_def)

lemma cpu_set_wf [simp]: "wf_mask m \<Longrightarrow> wf_mask (cpu_set cpu m)"
  by (simp add: cpu_set_def wf_mask_def bm_set_bit_def)

lemma cpu_set_set:
  assumes "wf_mask m" "cpu < NR_CPUS"
  shows "cpus_of (cpu_set cpu m) = insert cpu (cpus_of m)"
  using cpu_in_words [OF assms] assms(2)
  by (auto simp: cpu_set_def cpus_of_iff bm_single_bit)

lemma cpu_clear_set:
  assumes "wf_mask m" "cpu < NR_CPUS"
  shows "cpus_of (cpu_clear cpu m) = cpus_of m - {cpu}"
  using cpu_in_words [OF assms] assms(2)
  by (auto simp: cpu_clear_def cpus_of_iff bm_single_bit)

lemma cpu_isset_iff: "cpu < NR_CPUS \<Longrightarrow> cpu_isset cpu m \<longleftrightarrow> cpu \<in> cpus_of m"
  by (simp add: cpu_isset_def bm_test_bit_eq cpus_of_iff)

lemma cpus_equal_iff: "cpus_equal a b \<longleftrightarrow> cpus_of a = cpus_of b"
  by (simp add: cpus_equal_def bitmap_equal_iff cpus_of_def)

lemma cpus_intersects_iff: "cpus_intersects a b \<longleftrightarrow> cpus_of a \<inter> cpus_of b \<noteq> {}"
  by (simp add: cpus_intersects_def bitmap_intersects_iff cpus_of_def)

lemma cpus_empty_iff: "cpus_empty a \<longleftrightarrow> cpus_of a = {}"
  by (simp add: cpus_empty_def bitmap_empty_iff cpus_of_def)

lemma cpus_full_iff: "cpus_full a \<longleftrightarrow> cpus_of a = {..<NR_CPUS}"
  by (simp add: cpus_full_def bitmap_full_iff cpus_of_def)

lemma cpus_weight_card: "cpus_weight a = card (cpus_of a)"
  by (simp add: cpus_weight_def bitmap_weight_card cpus_of_def)

lemma cpu_mask_all_set: "cpus_of CPU_MASK_ALL = {..<NR_CPUS}"
proof -
  have "BITMAP_LAST_WORD_MASK NR_CPUS = - 1"
    by (simp add: BITMAP_LAST_WORD_MASK_def BITS_PER_LONG_def NR_CPUS_def)
  then have all: "CPU_MASK_ALL = replicate 63 (- 1) @ [- 1]"
    by (simp add: CPU_MASK_ALL_def NR_CPUS_facts(2))
  have "bm_bit CPU_MASK_ALL i" if "i < 4096" for i
  proof -
    have "CPU_MASK_ALL ! (i div 64) = - 1"
      using that unfolding all by (simp add: nth_append)
    then show ?thesis by (simp add: bm_bit_def)
  qed
  then show ?thesis by (auto simp: cpus_of_iff NR_CPUS_def)
qed

lemma cpus_of_inter_all: "cpus_of m \<inter> {..<NR_CPUS} = cpus_of m" "{..<NR_CPUS} \<noteq> {}"
  using cpus_of_bound [of m] NR_CPUS_facts(1) by (blast, metis empty_iff lessThan_iff)

lemmas cpus_simps =
  cpus_and_set cpus_or_set cpus_andnot_set cpus_complement_set cpus_clear_set cpus_setall_set
  cpus_equal_iff cpus_intersects_iff cpus_empty_iff cpus_full_iff

section \<open>The interface to the placement code\<close>

locale cpu_set_algebra =
  fixes cpus :: "'m \<Rightarrow> nat set" and univ :: "nat set"
    and inter :: "'m \<Rightarrow> 'm \<Rightarrow> 'm" and compl :: "'m \<Rightarrow> 'm"
    and meets :: "'m \<Rightarrow> 'm \<Rightarrow> bool" and is_empty :: "'m \<Rightarrow> bool"
  assumes cpus_univ: "cpus m \<subseteq> univ"
    and cpus_inter: "cpus (inter a b) = cpus a \<inter> cpus b"
    and cpus_compl: "cpus (compl a) = univ - cpus a"
    and meets_iff: "meets a b \<longleftrightarrow> cpus a \<inter> cpus b \<noteq> {}"
    and is_empty_iff: "is_empty a \<longleftrightarrow> cpus a = {}"
begin

text \<open>Masking with the complement of the banned CPUs leaves no banned CPU.\<close>

lemma inter_compl_allowed: "\<not> meets (inter a (compl b)) b"
  by (auto simp: meets_iff cpus_inter cpus_compl)

text \<open>A mask that meets no allowed CPU lies inside the banned ones.\<close>

lemma not_meets_compl: "\<not> meets a (compl b) \<longleftrightarrow> cpus a \<subseteq> cpus b"
  using cpus_univ [of a] by (auto simp: meets_iff cpus_compl)

lemma meets_of_subset: "cpus a \<subseteq> cpus b \<Longrightarrow> \<not> is_empty a \<Longrightarrow> meets a b"
  by (auto simp: meets_iff is_empty_iff)

lemma allowed_iff: "\<not> meets a b \<longleftrightarrow> cpus a \<subseteq> cpus (compl b)"
  using cpus_univ [of a] by (auto simp: meets_iff cpus_compl)

end

interpretation cpum: cpu_set_algebra cpus_of "{..<NR_CPUS}" cpus_and cpus_complement
  cpus_intersects cpus_empty
  by unfold_locales (use cpus_of_bound in \<open>auto simp: cpus_simps\<close>)

section \<open>Properties\<close>

text \<open>
  C29: The CPU mask macros are the Boolean algebra of sets of CPU numbers below \<open>NR_CPUS\<close>, and
  their results are well-formed masks.
\<close>

theorem cpumask_algebra:
  "cpus_of (cpus_and a b) = cpus_of a \<inter> cpus_of b \<and> cpus_of (cpus_or a b) = cpus_of a \<union> cpus_of b
    \<and> cpus_of (cpus_andnot a b) = cpus_of a - cpus_of b
    \<and> cpus_of (cpus_xor a b) = (cpus_of a - cpus_of b) \<union> (cpus_of b - cpus_of a)
    \<and> cpus_of (cpus_complement a) = {..<NR_CPUS} - cpus_of a
    \<and> cpus_of cpus_clear = {} \<and> cpus_of cpus_setall = {..<NR_CPUS}
    \<and> wf_mask (cpus_and a b) \<and> wf_mask (cpus_or a b) \<and> wf_mask (cpus_andnot a b)
    \<and> wf_mask (cpus_xor a b) \<and> wf_mask (cpus_complement a) \<and> wf_mask cpus_clear \<and> wf_mask cpus_setall"
  by (simp add: cpus_simps cpus_xor_set)

end
