(* ===== verification/Bitmap_Text.thy ===== *)
theory Bitmap_Text
  imports Cpumask
begin

text \<open>
  The text form of a bit map: \<open>bitmap_scnprintf\<close> and \<open>__bitmap_parse\<close> of bitmap.c with the
  cpumask.h macros that call them. A buffer is a character list; a write outside it is the
  result \<open>None\<close>. The bytes given to the parser are a list of exactly \<open>buflen\<close> characters.

  The numbers printed and parsed are abstracted to the natural number whose bits are the
  members of the map: the parser is shown to accept exactly the comma-separated chunks
  whose number fits the map, and to read back what the printer wrote.
\<close>

section \<open>Characters of the C locale\<close>

definition isspace :: "char \<Rightarrow> bool" where
  "isspace c \<longleftrightarrow> c = CHR '' '' \<or> (9 \<le> (of_char c :: nat) \<and> (of_char c :: nat) \<le> 13)"

definition isdigit :: "char \<Rightarrow> bool" where
  "isdigit c \<longleftrightarrow> 48 \<le> (of_char c :: nat) \<and> (of_char c :: nat) \<le> 57"

definition isxdigit :: "char \<Rightarrow> bool" where
  "isxdigit c \<longleftrightarrow> isdigit c \<or> (65 \<le> (of_char c :: nat) \<and> (of_char c :: nat) \<le> 70)
    \<or> (97 \<le> (of_char c :: nat) \<and> (of_char c :: nat) \<le> 102)"

definition toupper :: "char \<Rightarrow> nat" where
  "toupper c = (if 97 \<le> (of_char c :: nat) \<and> (of_char c :: nat) \<le> 122
     then of_char c - 32 else of_char c)"

definition unhex :: "char \<Rightarrow> nat" where
  "unhex c = (if isdigit c then of_char c - 48 else toupper c - 65 + 10)"

section \<open>snprintf, for the one format the code uses\<close>

definition hex_char :: "nat \<Rightarrow> char" where
  "hex_char d = ''0123456789abcdef'' ! d"

fun hex_of_nat :: "nat \<Rightarrow> string" where
  "hex_of_nat n = (if n < 16 then [hex_char n] else hex_of_nat (n div 16) @ [hex_char (n mod 16)])"

declare hex_of_nat.simps [simp del]

definition fmt_hex :: "nat \<Rightarrow> nat \<Rightarrow> string" where
  "fmt_hex width v = replicate (width - length (hex_of_nat v)) CHR ''0'' @ hex_of_nat v"

text \<open>
  \<open>snprintf(buf + pos, room, s)\<close> stores at most \<open>room - 1\<close> characters and a final NUL and
  returns the length of the whole text.
\<close>

definition snprintf :: "string \<Rightarrow> nat \<Rightarrow> nat \<Rightarrow> string \<Rightarrow> string option" where
  "snprintf buf pos room s =
    (if room = 0 then Some buf
     else let out = take (room - 1) s @ [CHR 0x00] in
       if pos + length out \<le> length buf
       then Some (take pos buf @ out @ drop (pos + length out) buf) else None)"

section \<open>Printing\<close>

definition CHUNKSZ :: nat where
  "CHUNKSZ = 32"

record scn =
  sbuf :: string
  slen :: nat
  ssep :: string
  schunksz :: nat
  sfirst :: bool

text \<open>One round of the loop. \<open>buflen - len\<close> is computed in \<open>unsigned int\<close>.\<close>

definition scn_step :: "u32 \<Rightarrow> bitmap \<Rightarrow> nat \<Rightarrow> scn \<Rightarrow> scn option" where
  "scn_step buflen maskp i st =
    (let chunkmask = ucast (push_bit (schunksz st) 1 - 1 :: u64) :: u32;
         word = i div BITS_PER_LONG;
         bt = i mod BITS_PER_LONG;
         val = drop_bit bt (maskp ! word) AND ucast chunkmask
     in if val \<noteq> 0 \<or> \<not> sfirst st \<or> i = 0
        then let s = ssep st @ fmt_hex ((schunksz st + 3) div 4) (unat val) in
          (case snprintf (sbuf st) (slen st) (unat (buflen - of_nat (slen st))) s of
             None \<Rightarrow> None
           | Some buf \<Rightarrow> Some \<lparr>sbuf = buf, slen = slen st + length s, ssep = '','',
                              schunksz = CHUNKSZ, sfirst = False\<rparr>)
        else Some st)"

text \<open>The loop over \<open>i = ALIGN(nmaskbits, 32) - 32, \<dots>, 32, 0\<close>, by the number of rounds left.\<close>

fun scn_loop :: "u32 \<Rightarrow> bitmap \<Rightarrow> nat \<Rightarrow> scn \<Rightarrow> scn option" where
  "scn_loop buflen maskp 0 st = Some st"
| "scn_loop buflen maskp (Suc j) st =
    (case scn_step buflen maskp (CHUNKSZ * j) st of
       None \<Rightarrow> None
     | Some st' \<Rightarrow> scn_loop buflen maskp j st')"

definition bitmap_scnprintf :: "string \<Rightarrow> u32 \<Rightarrow> bitmap \<Rightarrow> nat \<Rightarrow> (nat \<times> string) option" where
  "bitmap_scnprintf buf buflen maskp nmaskbits =
    (let chunksz = nmaskbits AND (CHUNKSZ - 1);
         chunksz = (if chunksz = 0 then CHUNKSZ else chunksz)
     in map_option (\<lambda>st. (slen st, sbuf st))
       (scn_loop buflen maskp ((nmaskbits + CHUNKSZ - 1) div CHUNKSZ)
         \<lparr>sbuf = buf, slen = 0, ssep = [], schunksz = chunksz, sfirst = True\<rparr>))"

definition cpumask_scnprintf :: "string \<Rightarrow> u32 \<Rightarrow> cpumask \<Rightarrow> (nat \<times> string) option" where
  "cpumask_scnprintf buf buflen src = bitmap_scnprintf buf buflen src NR_CPUS"

section \<open>Parsing\<close>

definition EINVAL :: int where "EINVAL = 22"
definition EOVERFLOW :: int where "EOVERFLOW = 75"

record chunk_state =
  cs_rest :: string
  cs_c :: char
  cs_chunk :: u32
  cs_ndigits :: nat
  cs_total :: nat

text \<open>The inner loop: \<open>Inl\<close> is a \<open>return\<close> of the whole function.\<close>

fun get_chunk :: "string \<Rightarrow> char \<Rightarrow> u32 \<Rightarrow> nat \<Rightarrow> nat \<Rightarrow> int + chunk_state" where
  "get_chunk [] c chunk ndigits totaldigits =
    Inr \<lparr>cs_rest = [], cs_c = c, cs_chunk = chunk, cs_ndigits = ndigits, cs_total = totaldigits\<rparr>"
| "get_chunk (x # buf) old_c chunk ndigits totaldigits =
    (if isspace x then get_chunk buf x chunk ndigits totaldigits
     else if totaldigits \<noteq> 0 \<and> x \<noteq> CHR 0x00 \<and> isspace old_c then Inl 0
     else if x = CHR 0x00 \<or> x = CHR '','' then
       Inr \<lparr>cs_rest = buf, cs_c = x, cs_chunk = chunk, cs_ndigits = ndigits, cs_total = totaldigits\<rparr>
     else if \<not> isxdigit x then Inl (- EINVAL)
     else if chunk AND NOT (push_bit (CHUNKSZ - 4) 1 - 1) \<noteq> 0 then Inl (- EOVERFLOW)
     else get_chunk buf x (push_bit 4 chunk OR of_nat (unhex x)) (ndigits + 1) (totaldigits + 1))"

lemma get_chunk_shorter:
  "get_chunk buf c chunk nd t = Inr st \<Longrightarrow> length (cs_rest st) \<le> length buf"
  "get_chunk buf c chunk nd t = Inr st \<Longrightarrow> cs_rest st \<noteq> [] \<Longrightarrow> length (cs_rest st) < length buf"
  by (induction buf c chunk nd t rule: get_chunk.induct) (auto split: if_splits)

text \<open>\<open>*maskp |= chunk\<close>.\<close>

definition bm_or_first :: "nat \<Rightarrow> u32 \<Rightarrow> bmstore \<Rightarrow> bmstore" where
  "bm_or_first p chunk s = bm_put s p 0 (s p ! 0 OR ucast chunk)"

text \<open>The outer loop, from its \<open>do\<close>.\<close>

function parse_chunks ::
  "nat \<Rightarrow> nat \<Rightarrow> string \<Rightarrow> char \<Rightarrow> nat \<Rightarrow> nat \<Rightarrow> nat \<Rightarrow> bmstore \<Rightarrow> int \<times> bmstore" where
  "parse_chunks p nmaskbits buf c totaldigits nchunks nbits s =
    (case get_chunk buf c 0 0 totaldigits of
       Inl r \<Rightarrow> (r, s)
     | Inr st \<Rightarrow>
         if cs_ndigits st = 0 then (- EINVAL, s)
         else if nchunks = 0 \<and> cs_chunk st = 0 then
           (if cs_rest st \<noteq> [] \<and> cs_c st = CHR '',''
            then parse_chunks p nmaskbits (cs_rest st) (cs_c st) (cs_total st) nchunks nbits s
            else (0, s))
         else
           let s = bm_or_first p (cs_chunk st) (u_bitmap_shift_left p p CHUNKSZ nmaskbits s);
               nchunks = nchunks + 1;
               nbits = nbits + (if nchunks = 1 then fls (cs_chunk st) else CHUNKSZ)
           in if nbits > nmaskbits then (- EOVERFLOW, s)
              else if cs_rest st \<noteq> [] \<and> cs_c st = CHR '',''
              then parse_chunks p nmaskbits (cs_rest st) (cs_c st) (cs_total st) nchunks nbits s
              else (0, s))"
  by pat_completeness auto
termination
  by (relation "measure (\<lambda>(p, n, buf, c, t, nc, nb, s). length buf)")
    (auto dest: get_chunk_shorter(2))

declare parse_chunks.simps [simp del]

definition bitmap_parse :: "string \<Rightarrow> nat \<Rightarrow> nat \<Rightarrow> bmstore \<Rightarrow> int \<times> bmstore" where
  "bitmap_parse buf p nmaskbits s =
    parse_chunks p nmaskbits buf CHR 0x00 0 0 0 (bitmap_zero p nmaskbits s)"

text \<open>\<open>cpumask_parse_user(buf, len, dst)\<close>: the result code and the mask that is stored.\<close>

definition cpumask_parse_user :: "string \<Rightarrow> cpumask \<Rightarrow> int \<times> cpumask" where
  "cpumask_parse_user buf dst =
    (let (r, s) = bitmap_parse buf 1 NR_CPUS (mask_store dst []) in (r, s 1))"

section \<open>Numbers in hexadecimal\<close>

definition hexval :: "nat \<Rightarrow> string \<Rightarrow> nat" where
  "hexval acc ds = foldl (\<lambda>a c. 16 * a + unhex c) acc ds"

lemma hexval_simps [simp]:
  "hexval a [] = a" "hexval a (c # ds) = hexval (16 * a + unhex c) ds"
  "hexval a (ds @ es) = hexval (hexval a ds) es"
  by (simp_all add: hexval_def)

lemma hexval_grows: "a \<le> hexval a ds"
proof (induction ds arbitrary: a)
  case (Cons c ds)
  show ?case using Cons.IH [of "16 * a + unhex c"] by simp
qed simp

lemma hexval_zeros [simp]: "hexval 0 (replicate k CHR ''0'') = 0"
  by (induction k) (simp_all add: unhex_def isdigit_def)

lemma hex_char_digit:
  assumes "d < 16"
  shows "isxdigit (hex_char d) \<and> unhex (hex_char d) = d"
proof -
  have "list_all (\<lambda>d. isxdigit (hex_char d) \<and> unhex (hex_char d) = d) [0..<16]" by code_simp
  then show ?thesis using assms by (simp add: list_all_iff)
qed

lemma isxdigit_props:
  assumes "isxdigit c"
  shows "\<not> isspace c" "c \<noteq> CHR 0x00" "c \<noteq> CHR '',''" "unhex c < 16"
  using assms by (auto simp: isxdigit_def isspace_def unhex_def isdigit_def toupper_def)

lemma hex_of_nat_digits:
  "list_all isxdigit (hex_of_nat n)" "hexval 0 (hex_of_nat n) = n" "hex_of_nat n \<noteq> []"
proof (induction n rule: hex_of_nat.induct)
  case (1 n)
  {
    case 1 then show ?case using "1.IH" hex_char_digit by (subst hex_of_nat.simps) simp
  next
    case 2 then show ?case using "1.IH" hex_char_digit by (subst hex_of_nat.simps) simp
  next
    case 3 then show ?case by (subst hex_of_nat.simps) simp
  }
qed

lemma hex_of_nat_length: "0 < w \<Longrightarrow> n < 16 ^ w \<Longrightarrow> length (hex_of_nat n) \<le> w"
proof (induction w arbitrary: n)
  case 0 then show ?case by simp
next
  case (Suc w)
  show ?case
  proof (cases "n < 16")
    case True then show ?thesis by (simp add: hex_of_nat.simps [of n])
  next
    case False
    then have "0 < w" "n div 16 < 16 ^ w" using Suc.prems by (cases w; auto)+
    then show ?thesis using Suc.IH [of "n div 16"] False by (simp add: hex_of_nat.simps [of n])
  qed
qed

lemma fmt_hex_digits:
  "list_all isxdigit (fmt_hex w n)" "hexval 0 (fmt_hex w n) = n" "fmt_hex w n \<noteq> []"
proof -
  have "isxdigit CHR ''0''" by (simp add: isxdigit_def isdigit_def)
  then show "list_all isxdigit (fmt_hex w n)"
    using hex_of_nat_digits(1) [of n] by (auto simp: fmt_hex_def list_all_iff)
qed (simp_all add: fmt_hex_def hex_of_nat_digits)

lemma fmt_hex_length: "0 < w \<Longrightarrow> n < 16 ^ w \<Longrightarrow> length (fmt_hex w n) = w"
  using hex_of_nat_length [of w n] by (simp add: fmt_hex_def)

lemma chunk_shift_in:
  assumes "unat chunk < 2 ^ 28" "u < 16"
  shows "push_bit 4 chunk OR of_nat u = (of_nat (16 * unat chunk + u) :: u32)"
    and "unat (push_bit 4 chunk OR of_nat u :: u32) = 16 * unat chunk + u"
proof -
  have "\<not> bit (push_bit 4 chunk) n \<or> \<not> bit (of_nat u :: u32) n" for n
  proof -
    have "unat (of_nat u :: u32) < 2 ^ 4" using assms(2) by (simp add: unat_of_nat take_bit_nat_eq_self)
    then show ?thesis
      unfolding unat_less_exp_iff_high_bits by (auto simp: bit_push_bit_iff not_le)
  qed
  then have "push_bit 4 chunk OR of_nat u = push_bit 4 chunk + (of_nat u :: u32)"
    by (rule disjunctive_add [symmetric])
  then show e: "push_bit 4 chunk OR of_nat u = (of_nat (16 * unat chunk + u) :: u32)"
    by (simp add: push_bit_eq_mult mult.commute)
  have "16 * unat chunk + u < 2 ^ 32" using assms by simp
  then show "unat (push_bit 4 chunk OR of_nat u :: u32) = 16 * unat chunk + u"
    unfolding e by (simp only: unat_of_nat take_bit_nat_eq_self len_bit0 len_num1) (simp add: take_bit_nat_eq_self)
qed
section \<open>What the parser accepts\<close>

lemma get_chunk_digits:
  assumes "list_all isxdigit ds" "\<not> isspace c"
  shows "get_chunk (ds @ rest) c chunk nd td =
    (if hexval (unat chunk) ds < 2 ^ 32
     then get_chunk rest (last (c # ds)) (of_nat (hexval (unat chunk) ds)) (nd + length ds) (td + length ds)
     else Inl (- EOVERFLOW))"
  using assms
proof (induction ds arbitrary: c chunk nd td)
  case Nil
  then show ?case using unsigned_less [where 'a = nat, of chunk] by simp
next
  case (Cons x ds)
  have x: "isxdigit x" and ds: "list_all isxdigit ds" using Cons.prems by simp_all
  have guard: "chunk AND NOT (push_bit (CHUNKSZ - 4) 1 - 1) = 0 \<longleftrightarrow> unat chunk < 2 ^ 28"
    using and_not_mask_eq_0_iff [of chunk 28]
    by (simp add: CHUNKSZ_def mask_eq_exp_minus_1 push_bit_eq_mult)
  show ?case
  proof (cases "unat chunk < 2 ^ 28")
    case True
    note sh = chunk_shift_in [OF True isxdigit_props(4) [OF x]]
    show ?thesis
      using Cons.IH [OF ds isxdigit_props(1) [OF x]] True x isxdigit_props [OF x] Cons.prems(2) guard sh(2)
      by simp
  next
    case False
    have "2 ^ 32 \<le> 16 * unat chunk + unhex x" using False by simp
    then have "\<not> hexval (unat chunk) (x # ds) < 2 ^ 32"
      using hexval_grows [of "16 * unat chunk + unhex x" ds] by simp
    then show ?thesis
      using False x isxdigit_props [OF x] Cons.prems(2) guard by simp
  qed
qed

fun join :: "string list \<Rightarrow> string" where
  "join [] = []"
| "join [d] = d"
| "join (d # e # ds) = d @ CHR '','' # join (e # ds)"

definition hex_chunk :: "string \<Rightarrow> bool" where
  "hex_chunk ds \<longleftrightarrow> ds \<noteq> [] \<and> list_all isxdigit ds \<and> hexval 0 ds < 2 ^ 32"

definition chunks_val :: "nat \<Rightarrow> string list \<Rightarrow> nat" where
  "chunks_val V css = foldl (\<lambda>V ds. V * 2 ^ 32 + hexval 0 ds) V css"

lemma chunks_val_simps [simp]:
  "chunks_val V [] = V"
  "chunks_val V (ds # css) = chunks_val (V * 2 ^ 32 + hexval 0 ds) css"
  by (simp_all add: chunks_val_def)

lemma chunks_val_grows: "V \<le> chunks_val V css"
proof (induction css arbitrary: V)
  case (Cons ds css)
  show ?case using Cons.IH [of "V * 2 ^ 32 + hexval 0 ds"] by simp
qed simp

lemma get_chunk_join:
  assumes "hex_chunk ds" "\<not> isspace c"
  shows "get_chunk (join (ds # css)) c 0 0 td =
    Inr \<lparr>cs_rest = join css, cs_c = (if css = [] then last ds else CHR '',''),
         cs_chunk = of_nat (hexval 0 ds), cs_ndigits = length ds, cs_total = td + length ds\<rparr>"
proof -
  have d: "list_all isxdigit ds" "hexval 0 ds < 2 ^ 32" "ds \<noteq> []"
    using assms(1) by (simp_all add: hex_chunk_def)
  have "isxdigit (last ds)" using d by (simp add: list_all_iff)
  then have l: "\<not> isspace (last ds)" by (rule isxdigit_props)
  have "\<not> isspace CHR '',''" by (simp add: isspace_def)
  then show ?thesis
    using get_chunk_digits [OF d(1) assms(2), of "[]" 0 0 td]
      get_chunk_digits [OF d(1) assms(2), of "CHR '','' # join css" 0 0 td] d l
    by (cases css) simp_all
qed

lemma join_nonempty: "css \<noteq> [] \<Longrightarrow> \<forall>ds \<in> set css. hex_chunk ds \<Longrightarrow> join css \<noteq> []"
  by (cases css rule: join.cases) (auto simp: hex_chunk_def)

definition mask_is :: "nat \<Rightarrow> bitmap \<Rightarrow> nat \<Rightarrow> bool" where
  "mask_is n m V \<longleftrightarrow> BITS_TO_LONGS n \<le> length m \<and> bm_set n m = {i. i < n \<and> bit V i}"

lemma mask_is_append:
  assumes "mask_is n (s p) V" "0 < n" "C < 2 ^ 32"
  shows "mask_is n (bm_or_first p (of_nat C) (u_bitmap_shift_left p p CHUNKSZ n s) p) (V * 2 ^ 32 + C)"
proof -
  define t where "t = u_bitmap_shift_left p p CHUNKSZ n s"
  have n: "BITS_TO_LONGS n \<le> length (s p)" and m: "\<And>i. i < n \<Longrightarrow> bm_bit (s p) i = bit V i"
    using assms(1) by (auto simp: mask_is_def bm_set_def set_eq_iff)
  have "CHUNKSZ div 64 \<le> BITS_TO_LONGS n" by (simp add: CHUNKSZ_def)
  from u_bitmap_shift_left_post [where s = s and dst = p and src = p, OF n this]
  have t: "length (t p) = length (s p)"
    "\<And>i. i < n \<Longrightarrow> bm_bit (t p) i \<longleftrightarrow> 32 \<le> i \<and> bm_bit (s p) (i - 32)"
    by (auto simp: bm_op_post_def t_def CHUNKSZ_def bm_set_def set_eq_iff)
  have len: "0 < length (t p)" using n t(1) BITS_TO_LONGS_words [OF assms(2)] by linarith
  have c: "bit (of_nat C :: u32) j = bit C j" for j by (rule bit_of_nat_u32 [OF assms(3)])
  have "bm_bit (bm_or_first p (of_nat C) t p) i \<longleftrightarrow> bm_bit (t p) i \<or> (i < 32 \<and> bit C i)" for i
    using len by (auto simp: bm_or_first_def bm_put_def bm_bit_def nth_list_update bit_or_iff bit_ucast_iff c
        dest: nat_bit_bound [OF assms(3)])
  moreover have "\<not> bit C i" if "32 \<le> i" for i
    using nat_bit_bound [OF assms(3)] that by (meson not_less)
  ultimately show ?thesis
    using n t m by (auto simp: mask_is_def bm_set_def t_def [symmetric] bit_shift_add [OF assms(3), simplified]
        bm_or_first_def bm_put_def)
qed
definition digits_seen :: "nat \<Rightarrow> nat \<Rightarrow> nat \<Rightarrow> bool" where
  "digits_seen nchunks nbits V \<longleftrightarrow>
    (if nchunks = 0 then V = 0 \<and> nbits = 0
     else 0 < nbits \<and> 2 ^ (nbits - 1) \<le> V \<and> V < 2 ^ nbits)"

lemma digits_seen_append:
  assumes "digits_seen nchunks nbits V" "C < 2 ^ 32" "\<not> (nchunks = 0 \<and> C = 0)"
  shows "digits_seen (nchunks + 1)
    (nbits + (if nchunks + 1 = 1 then fls (of_nat C) else CHUNKSZ)) (V * 2 ^ 32 + C)"
proof (cases "nchunks = 0")
  case True
  have C: "unat (of_nat C :: u32) = C" using assms(2) by (simp add: unat_of_nat take_bit_nat_eq_self)
  then have "(of_nat C :: u32) \<noteq> 0" using assms(3) True by auto
  from fls_correct [OF this] show ?thesis using assms(1) True C by (simp add: digits_seen_def)
next
  case False
  then have V: "0 < nbits" "2 ^ (nbits - 1) \<le> V" "V + 1 \<le> 2 ^ nbits"
    using assms(1) by (simp_all add: digits_seen_def)
  have e: "(2::nat) ^ (nbits + 32 - 1) = 2 ^ (nbits - 1) * 2 ^ 32"
    using V(1) by (simp only: power_add [symmetric]) simp
  have "2 ^ (nbits + 32 - 1) \<le> V * 2 ^ 32 + C"
    unfolding e using mult_le_mono1 [OF V(2), of "2 ^ 32"] by linarith
  moreover have "V * 2 ^ 32 + C < 2 ^ (nbits + 32)"
    using mult_le_mono1 [OF V(3), of "2 ^ 32"] assms(2) by (simp add: power_add)
  ultimately show ?thesis using False by (simp add: digits_seen_def CHUNKSZ_def)
qed

lemma digits_seen_bound:
  assumes "digits_seen nchunks nbits V" "0 < nchunks"
  shows "nbits > n \<longleftrightarrow> 2 ^ n \<le> V"
proof
  assume "n < nbits"
  then have "(2::nat) ^ n \<le> 2 ^ (nbits - 1)" by (intro power_increasing) auto
  also have "\<dots> \<le> V" using assms by (simp add: digits_seen_def)
  finally show "2 ^ n \<le> V" .
next
  assume "2 ^ n \<le> V"
  also have "V < 2 ^ nbits" using assms by (simp add: digits_seen_def)
  finally have "(2::nat) ^ n < 2 ^ nbits" .
  then show "n < nbits" by simp
qed

definition parsed :: "nat \<Rightarrow> nat \<Rightarrow> nat \<Rightarrow> int \<times> bmstore \<Rightarrow> bool" where
  "parsed p n W res \<longleftrightarrow>
    (if W < 2 ^ n then fst res = 0 \<and> mask_is n (snd res p) W else fst res = - EOVERFLOW)"

lemma parse_chunks_join:
  assumes "css \<noteq> []" "\<forall>ds \<in> set css. hex_chunk ds" "\<not> isspace c" "0 < n"
    and "mask_is n (s p) V" "digits_seen nchunks nbits V" "nbits \<le> n"
  shows "parsed p n (chunks_val V css) (parse_chunks p n (join css) c td nchunks nbits s)"
  using assms
proof (induction css arbitrary: c td nchunks nbits s V)
  case Nil
  then show ?case by simp
next
  case (Cons ds css)
  define C where "C = hexval 0 ds"
  have ds: "hex_chunk ds" and C: "C < 2 ^ 32" "ds \<noteq> []"
    using Cons.prems(2) by (simp_all add: hex_chunk_def C_def)
  have C0: "(of_nat C :: u32) = 0 \<longleftrightarrow> C = 0"
    using C(1) by (auto simp: word_of_nat_eq_0_iff dest: dvd_imp_le)
  have comma: "\<not> isspace CHR '',''" by (simp add: isspace_def)
  have IH: "css \<noteq> [] \<Longrightarrow> mask_is n (s' p) V' \<Longrightarrow> digits_seen nchunks' nbits' V' \<Longrightarrow> nbits' \<le> n
    \<Longrightarrow> parsed p n (chunks_val V' css) (parse_chunks p n (join css) CHR '','' td' nchunks' nbits' s')"
    for s' V' nchunks' nbits' td'
    using Cons.prems by (intro Cons.IH [OF _ _ comma]) auto
  note g = get_chunk_join [OF ds Cons.prems(3), of css td, folded C_def]
  have more: "join css \<noteq> [] \<and> (if css = [] then last ds else CHR '','') = CHR '','' \<longleftrightarrow> css \<noteq> []"
    using join_nonempty [of css] Cons.prems(2) by auto
  show ?case
  proof (cases "nchunks = 0 \<and> C = 0")
    case True
    then have "V = 0" "nbits = 0" using Cons.prems(6) by (simp_all add: digits_seen_def)
    with True show ?thesis
      using Cons.prems(5-7) IH [of s 0 0 0 "td + length ds"] more C(2) Cons.prems(4)
      by (subst parse_chunks.simps) (simp add: g parsed_def C_def [symmetric])
  next
    case False
    define V' where "V' = V * 2 ^ 32 + C"
    define nbits' where "nbits' = nbits + (if nchunks + 1 = 1 then fls (of_nat C) else CHUNKSZ)"
    define s' where "s' = bm_or_first p (of_nat C) (u_bitmap_shift_left p p CHUNKSZ n s)"
    have d: "digits_seen (nchunks + 1) nbits' V'"
      unfolding nbits'_def V'_def using digits_seen_append [OF Cons.prems(6) C(1) False] .
    have m: "mask_is n (s' p) V'"
      unfolding s'_def V'_def using mask_is_append [where s = s and p = p and n = n] Cons.prems(4,5) C(1) by simp
    have bnd: "nbits' > n \<longleftrightarrow> 2 ^ n \<le> V'" using digits_seen_bound [OF d] by simp
    have step: "parse_chunks p n (join (ds # css)) c td nchunks nbits s =
      (if nbits' > n then (- EOVERFLOW, s')
       else if css \<noteq> [] then parse_chunks p n (join css) CHR '','' (td + length ds) (nchunks + 1) nbits' s'
       else (0, s'))"
      using False C(2) C0 more
      by (subst parse_chunks.simps) (auto simp: g Let_def nbits'_def s'_def)
    show ?thesis
    proof (cases "nbits' > n")
      case True
      then have "\<not> chunks_val V' css < 2 ^ n" using bnd chunks_val_grows [of V' css] by simp
      with True show ?thesis unfolding step parsed_def by (simp add: V'_def C_def)
    next
      case no: False
      show ?thesis
      proof (cases "css = []")
        case True
        with no bnd m show ?thesis unfolding step parsed_def by (simp add: V'_def C_def)
      next
        case False
        with no IH [of s' V' "nchunks + 1" nbits' "td + length ds", OF False m d] show ?thesis
          unfolding step by (simp add: V'_def C_def)
      qed
    qed
  qed
qed

lemma mask_is_zero:
  assumes "0 < n" "BITS_TO_LONGS n \<le> length (s p)"
  shows "mask_is n (bitmap_zero p n s p) 0"
  using bitmap_zero_post [where s = s and dst = p and n = n] assms
  by (simp add: bm_op_post_def mask_is_def)

lemma bitmap_parse_join:
  assumes "css \<noteq> []" "\<forall>ds \<in> set css. hex_chunk ds" "0 < n" "BITS_TO_LONGS n \<le> length (s p)"
  shows "parsed p n (chunks_val 0 css) (bitmap_parse (join css) p n s)"
  unfolding bitmap_parse_def
  using assms mask_is_zero [where s = s and p = p and n = n]
  by (intro parse_chunks_join) (auto simp: isspace_def digits_seen_def)

section \<open>What the printer writes\<close>

definition chunk_at :: "bitmap \<Rightarrow> nat \<Rightarrow> u64" where
  "chunk_at m j = drop_bit (32 * j mod 64) (m ! (32 * j div 64)) AND mask 32"

fun printed :: "bool \<Rightarrow> bitmap \<Rightarrow> nat \<Rightarrow> string list" where
  "printed b m 0 = []"
| "printed b m (Suc j) =
    (if chunk_at m j \<noteq> 0 \<or> b \<or> j = 0 then fmt_hex 8 (unat (chunk_at m j)) # printed True m j
     else printed False m j)"

lemma chunk_at_bound: "unat (chunk_at m j) < 2 ^ 32"
  unfolding unat_less_exp_iff_high_bits by (simp add: chunk_at_def bit_simps)

lemma bit_chunk_at: "r < 32 \<Longrightarrow> bit (unat (chunk_at m j)) r \<longleftrightarrow> bm_bit m (32 * j + r)"
proof -
  assume r: "r < 32"
  have "(32 * j + r) div 64 = 32 * j div 64 \<and> (32 * j + r) mod 64 = 32 * j mod 64 + r"
  proof (cases "even j")
    case True
    then obtain k where "j = 2 * k" by blast
    then have "32 * j + r = 64 * k + r" "32 * j = 64 * k" by simp_all
    then show ?thesis using r by simp
  next
    case False
    then obtain k where "j = 2 * k + 1" by (elim oddE)
    then have e: "32 * j + r = 64 * k + (32 + r)" "32 * j = 64 * k + 32" by simp_all
    have "32 + r < 64" "(32::nat) < 64" using r by simp_all
    then show ?thesis
      unfolding e(1) unfolding e(2) using div_mod_64 [of "32 + r" k] div_mod_64 [of 32 k] by presburger
  qed
  then show ?thesis
    using r by (simp add: chunk_at_def bm_bit_def bit_simps)
qed

lemma printed_props:
  "ds \<in> set (printed b m j) \<Longrightarrow> hex_chunk ds \<and> length ds = 8"
proof (induction j arbitrary: b)
  case (Suc j)
  have "unat (chunk_at m j) < 16 ^ 8" using chunk_at_bound [of m j] by simp
  then show ?case
    using Suc chunk_at_bound [of m j] fmt_hex_digits [of 8 "unat (chunk_at m j)"]
      fmt_hex_length [of 8 "unat (chunk_at m j)"]
    by (auto simp: hex_chunk_def split: if_splits)
qed simp

lemma printed_length: "length (printed b m j) \<le> j"
  by (induction j arbitrary: b) (auto intro: le_SucI)

lemma printed_nonempty: "0 < j \<Longrightarrow> printed b m j \<noteq> []"
proof (induction j arbitrary: b)
  case (Suc j)
  then show ?case by (cases "j = 0") auto
qed simp

lemma chunks_val_printed:
  assumes "b \<or> V = 0"
  shows "bit (chunks_val V (printed b m j)) i \<longleftrightarrow>
    (if i < 32 * j then bm_bit m i else bit V (i - 32 * j))"
  using assms
proof (induction j arbitrary: b V)
  case 0
  then show ?case by simp
next
  case (Suc j)
  let ?c = "unat (chunk_at m j)"
  note b = bit_shift_add [OF chunk_at_bound [of m j], of V]
  have *: "chunks_val V (printed b m (Suc j)) =
      chunks_val (V * 2 ^ 32 + ?c) (printed (chunk_at m j \<noteq> 0 \<or> b \<or> j = 0) m j)"
    using Suc.prems by (auto simp: fmt_hex_digits)
  have "chunk_at m j \<noteq> 0 \<or> b \<or> j = 0 \<or> V * 2 ^ 32 + ?c = 0" using Suc.prems by auto
  then have "bit (chunks_val V (printed b m (Suc j))) i \<longleftrightarrow>
      (if i < 32 * j then bm_bit m i else bit (V * 2 ^ 32 + ?c) (i - 32 * j))"
    unfolding * by (intro Suc.IH) auto
  also have "\<dots> \<longleftrightarrow> (if i < 32 * Suc j then bm_bit m i else bit V (i - 32 * Suc j))"
  proof (cases "i < 32 * j")
    case False
    then have "32 * j + (i - 32 * j) = i" "i - 32 * j < 32 \<longleftrightarrow> i < 32 * Suc j"
      "i - 32 * j - 32 = i - 32 * Suc j" by (simp, arith, arith)
    then show ?thesis using False bit_chunk_at [of "i - 32 * j" m j] by (simp only: b) simp
  qed simp
  finally show ?case .
qed

definition scn_shows :: "nat \<Rightarrow> scn \<Rightarrow> string list \<Rightarrow> bool" where
  "scn_shows size0 st css \<longleftrightarrow>
    length (sbuf st) = size0 \<and> slen st = length (join css) \<and> slen st \<le> size0
    \<and> take (slen st) (sbuf st) = join css
    \<and> (css \<noteq> [] \<longrightarrow> slen st < size0 \<and> sbuf st ! slen st = CHR 0x00)
    \<and> ssep st = (if css = [] then [] else '','') \<and> schunksz st = CHUNKSZ \<and> sfirst st = (css = [])"

lemma join_snoc: "join (css @ [d]) = join css @ (if css = [] then [] else '','') @ d"
  by (induction css rule: join.induct) auto

lemma join_length8: "\<forall>ds \<in> set css. length ds = 8 \<Longrightarrow> length (join css) = 9 * length css - 1"
  by (induction css rule: join.induct) auto

lemma scn_step_shows:
  assumes st: "scn_shows size0 st css" "\<forall>ds \<in> set css. length ds = 8"
    and room: "9 * (length css + 1) \<le> unat buflen" "unat buflen \<le> size0"
  shows "\<exists>st'. scn_step buflen m (CHUNKSZ * j) st = Some st'
    \<and> scn_shows size0 st' (if chunk_at m j \<noteq> 0 \<or> css \<noteq> [] \<or> j = 0
         then css @ [fmt_hex 8 (unat (chunk_at m j))] else css)"
proof -
  let ?d = "fmt_hex 8 (unat (chunk_at m j))"
  have mask: "(ucast (ucast (push_bit 32 1 - 1 :: u64) :: u32) :: u64) = mask 32"
    by (simp add: mask_eq_exp_minus_1)
  have val: "drop_bit (CHUNKSZ * j mod BITS_PER_LONG) (m ! (CHUNKSZ * j div BITS_PER_LONG))
      AND ucast (ucast (push_bit (schunksz st) 1 - 1 :: u64) :: u32) = chunk_at m j"
    using st(1) mask by (simp add: scn_shows_def chunk_at_def CHUNKSZ_def BITS_PER_LONG_def)
  show ?thesis
  proof (cases "chunk_at m j \<noteq> 0 \<or> css \<noteq> [] \<or> j = 0")
    case False
    then show ?thesis using st(1) val
      by (auto simp: scn_step_def Let_def scn_shows_def CHUNKSZ_def)
  next
    case True
    have d8: "length ?d = 8" using chunk_at_bound [of m j] by (intro fmt_hex_length) auto
    have len: "slen st = 9 * length css - 1" using st join_length8 by (simp add: scn_shows_def)
    let ?s = "ssep st @ ?d"
    have ls: "length ?s + slen st < unat buflen" "slen st \<le> unat buflen"
      using len room(1) d8 st(1) by (cases css; auto simp: scn_shows_def)+
    have sub: "unat (buflen - of_nat (slen st)) = unat buflen - slen st"
      using ls(2) unsigned_less [where 'a = nat, of buflen]
      by (simp add: unat_sub word_le_nat_alt unat_of_nat take_bit_nat_eq_self)
    have snp: "snprintf (sbuf st) (slen st) (unat (buflen - of_nat (slen st))) ?s =
      Some (take (slen st) (sbuf st) @ (?s @ [CHR 0x00])
        @ drop (slen st + length ?s + 1) (sbuf st))"
      using ls room(2) st(1) unfolding sub by (simp add: snprintf_def Let_def scn_shows_def)
    have step: "scn_step buflen m (CHUNKSZ * j) st = Some
      \<lparr>sbuf = take (slen st) (sbuf st) @ (?s @ [CHR 0x00]) @ drop (slen st + length ?s + 1) (sbuf st),
       slen = slen st + length ?s, ssep = '','', schunksz = CHUNKSZ, sfirst = False\<rparr>"
      using True st(1) snp
      unfolding scn_step_def Let_def val by (auto simp: scn_shows_def CHUNKSZ_def)
    have "take (length (join css)) (sbuf st) = join css" using st(1) by (metis scn_shows_def)
    then show ?thesis
      unfolding step using True st(1) ls room(2) d8
      by (simp add: scn_shows_def join_snoc nth_append)
  qed
qed

lemma scn_loop_shows:
  assumes "scn_shows size0 st css" "\<forall>ds \<in> set css. length ds = 8"
    and "9 * (length css + j) \<le> unat buflen" "unat buflen \<le> size0"
  shows "\<exists>st'. scn_loop buflen m j st = Some st' \<and> scn_shows size0 st' (css @ printed (css \<noteq> []) m j)"
  using assms
proof (induction j arbitrary: st css)
  case 0
  then show ?case by simp
next
  case (Suc j)
  let ?P = "chunk_at m j \<noteq> 0 \<or> css \<noteq> [] \<or> j = 0"
  let ?d = "fmt_hex 8 (unat (chunk_at m j))"
  have d8: "length ?d = 8" using chunk_at_bound [of m j] by (intro fmt_hex_length) auto
  obtain st' where st': "scn_step buflen m (CHUNKSZ * j) st = Some st'"
    "scn_shows size0 st' (if ?P then css @ [?d] else css)"
    using scn_step_shows [OF Suc.prems(1,2) _ Suc.prems(4), of m j] Suc.prems(3) by auto
  show ?case
    using Suc.IH [OF st'(2)] Suc.prems(2-4) d8 st'(1) by (cases ?P) auto
qed

lemma mask_eqI:
  assumes "wf_mask a" "wf_mask b" "\<And>i. i < NR_CPUS \<Longrightarrow> bm_bit a i = bm_bit b i"
  shows "a = b"
proof (rule nth_equalityI)
  show l: "length a = length b" using assms(1,2) by (simp add: wf_mask_def)
  fix k assume "k < length a"
  then have k: "k < 64" using assms(1) by (simp add: wf_mask_def)
  have "bit (a ! k) r = bit (b ! k) r" if "r < 64" for r
  proof -
    have "64 * k + r < NR_CPUS" using k that by (simp add: NR_CPUS_def)
    from assms(3) [OF this] show ?thesis using div_mod_64 [OF that, of k] by (simp add: bm_bit_def)
  qed
  then show "a ! k = b ! k" by (intro bit_word_eqI) simp
qed

lemma cpumask_scnprintf_text:
  assumes "1152 \<le> unat buflen" "unat buflen \<le> length buf"
  shows "\<exists>buf'. cpumask_scnprintf buf buflen m = Some (length (join (printed False m 128)), buf')
    \<and> length buf' = length buf
    \<and> take (length (join (printed False m 128))) buf' = join (printed False m 128)
    \<and> length (join (printed False m 128)) < length buf
    \<and> buf' ! length (join (printed False m 128)) = CHR 0x00"
proof -
  let ?st = "\<lparr>sbuf = buf, slen = 0, ssep = [], schunksz = CHUNKSZ, sfirst = True\<rparr>"
  have "scn_shows (length buf) ?st []" by (simp add: scn_shows_def)
  from scn_loop_shows [OF this _ _ assms(2), of 128 m] assms(1)
  obtain st' where st': "scn_loop buflen m 128 ?st = Some st'"
    "scn_shows (length buf) st' (printed False m 128)" by auto
  have "NR_CPUS AND (CHUNKSZ - 1) = 0" "(NR_CPUS + CHUNKSZ - 1) div CHUNKSZ = 128"
    using take_bit_eq_mask [of 5 NR_CPUS]
    by (simp_all add: NR_CPUS_def CHUNKSZ_def take_bit_eq_mod mask_numeral)
  then have "cpumask_scnprintf buf buflen m = Some (slen st', sbuf st')"
    using st'(1) by (simp add: cpumask_scnprintf_def bitmap_scnprintf_def Let_def)
  then show ?thesis
    using st'(2) printed_nonempty [of 128 False m] by (auto simp: scn_shows_def)
qed

text \<open>The parser writes its own array only, and keeps its size.\<close>

definition writes_only :: "nat \<Rightarrow> bmstore \<Rightarrow> bmstore \<Rightarrow> bool" where
  "writes_only p s s' \<longleftrightarrow> (\<forall>q. q \<noteq> p \<longrightarrow> s' q = s q) \<and> length (s' p) = length (s p)"

lemma writes_only_refl [simp]: "writes_only p s s"
  by (simp add: writes_only_def)

lemma writes_only_trans: "writes_only p s t \<Longrightarrow> writes_only p t u \<Longrightarrow> writes_only p s u"
  by (simp add: writes_only_def)

lemma writes_only_put: "writes_only p s t \<Longrightarrow> writes_only p s (bm_put t p k w)"
  by (simp add: writes_only_def bm_put_def)

lemma writes_only_shift_left: "writes_only p s (u_bitmap_shift_left p q sh n s)"
  unfolding u_bitmap_shift_left_def Let_def bm_memset_def
  by (auto intro!: fold_invariant_set [where P = "writes_only p s"] writes_only_put)

lemma writes_only_zero: "writes_only p s (bitmap_zero p n s)"
  unfolding bitmap_zero_def bm_memset_def
  by (auto intro!: fold_invariant_set [where P = "writes_only p s"] writes_only_put)

lemma writes_only_parse_chunks:
  "writes_only p s (snd (parse_chunks p n buf c td nchunks nbits s))"
proof (induction "length buf" arbitrary: buf c td nchunks nbits s rule: less_induct)
  case less
  have w: "writes_only p s (bm_or_first p C (u_bitmap_shift_left p p CHUNKSZ n s))" for C
    unfolding bm_or_first_def by (intro writes_only_put writes_only_shift_left)
  show ?case
  proof (cases "get_chunk buf c 0 0 td")
    case (Inl r)
    then show ?thesis by (subst parse_chunks.simps) simp
  next
    case (Inr st)
    have IH: "writes_only p t (snd (parse_chunks p n (cs_rest st) c' td' nc nb t))"
      if "cs_rest st \<noteq> []" for c' td' nc nb t
      using less.hyps [OF get_chunk_shorter(2) [OF Inr that]] .
    from Inr IH [THEN writes_only_trans [OF w]] IH show ?thesis
      by (subst parse_chunks.simps) (simp add: Let_def w)
  qed
qed

lemma writes_only_bitmap_parse: "writes_only p s (snd (bitmap_parse buf p n s))"
  unfolding bitmap_parse_def using writes_only_trans [OF writes_only_zero writes_only_parse_chunks] .

lemma printed_parses:
  assumes "wf_mask m" "wf_mask d"
  shows "cpumask_parse_user (join (printed False m 128)) d = (0, m)"
proof -
  let ?css = "printed False m 128"
  define W where "W = chunks_val 0 ?css"
  have W: "bit W i \<longleftrightarrow> i < NR_CPUS \<and> bm_bit m i" for i
    unfolding W_def chunks_val_printed [of False 0 m 128, simplified] by (simp add: NR_CPUS_def)
  have "take_bit NR_CPUS W = W" by (rule bit_eqI) (auto simp: bit_take_bit_iff W)
  then have small: "W < 2 ^ NR_CPUS" by (simp only: take_bit_nat_eq_self_iff)
  obtain r s where rs: "bitmap_parse (join ?css) 1 NR_CPUS (mask_store d []) = (r, s)" by fastforce
  have d: "BITS_TO_LONGS NR_CPUS \<le> length (mask_store d [] 1)" "length (mask_store d [] 1) = 64"
    using assms(2) by (simp_all add: wf_mask_def)
  have "parsed 1 NR_CPUS W (r, s)"
    unfolding W_def rs [symmetric]
    using bitmap_parse_join [where css = ?css and s = "mask_store d []" and p = 1 and n = NR_CPUS]
      printed_nonempty [of 128 False m] printed_props d(1) by auto
  then have "r = 0" "mask_is NR_CPUS (s 1) W" using small by (simp_all add: parsed_def)
  moreover have "wf_mask (s 1)" 
    using writes_only_bitmap_parse [of 1 "mask_store d []" "join ?css" NR_CPUS, unfolded rs] d(2)
    by (simp add: writes_only_def wf_mask_def)
  ultimately have "s 1 = m"
    using assms(1) by (intro mask_eqI) (auto simp: mask_is_def bm_set_def W set_eq_iff)
  then show ?thesis using \<open>r = 0\<close> unfolding cpumask_parse_user_def rs by simp
qed

section \<open>Properties\<close>

text \<open>
  C13: Printing a CPU mask with \<open>cpumask_scnprintf\<close> into a buffer of at least 1152 bytes never
  writes outside it, ends the text with a NUL, and \<open>cpumask_parse_user\<close> reads exactly that
  text back to the same mask with result 0. (activate.c prints into \<open>PATH_MAX\<close> = 4096 bytes.)
\<close>

theorem cpumask_print_parse:
  assumes "wf_mask m" "wf_mask d" "1152 \<le> unat buflen" "unat buflen \<le> length buf"
  shows "\<exists>len buf'. cpumask_scnprintf buf buflen m = Some (len, buf')
    \<and> length buf' = length buf \<and> len < length buf \<and> buf' ! len = CHR 0x00
    \<and> cpumask_parse_user (take len buf') d = (0, m)"
  using cpumask_scnprintf_text [OF assms(3,4), of m] printed_parses [OF assms(1,2)] by auto

theorem cpumask_print_parse_witness:
  "\<exists>len buf'. cpumask_scnprintf (replicate 4096 CHR ''x'') 4096 CPU_MASK_NONE = Some (len, buf')
    \<and> length buf' = length (replicate 4096 CHR ''x'') \<and> len < length (replicate 4096 CHR ''x'')
    \<and> buf' ! len = CHR 0x00 \<and> cpumask_parse_user (take len buf') CPU_MASK_NONE = (0, CPU_MASK_NONE)"
  by (rule cpumask_print_parse) simp_all

text \<open>
  C27: \<open>__bitmap_parse\<close> on well-formed text (comma-separated chunks of hex digits, each below
  \<open>2^32\<close>) returns 0 exactly when the number fits the map, and then the map holds the bits of
  that number; otherwise it returns \<open>-EOVERFLOW\<close>. No other array is written.
\<close>

theorem bitmap_parse_number:
  assumes "css \<noteq> []" "\<forall>ds \<in> set css. hex_chunk ds" "0 < n" "BITS_TO_LONGS n \<le> length (s p)"
  shows "(fst (bitmap_parse (join css) p n s) = 0 \<longleftrightarrow> chunks_val 0 css < 2 ^ n)
    \<and> (chunks_val 0 css < 2 ^ n \<longrightarrow>
         bm_set n (snd (bitmap_parse (join css) p n s) p) = {i. bit (chunks_val 0 css) i})
    \<and> (2 ^ n \<le> chunks_val 0 css \<longrightarrow> fst (bitmap_parse (join css) p n s) = - EOVERFLOW)
    \<and> writes_only p s (snd (bitmap_parse (join css) p n s))"
proof -
  have "parsed p n (chunks_val 0 css) (bitmap_parse (join css) p n s)"
    using bitmap_parse_join [where s = s and p = p and n = n] assms by blast
  then show ?thesis
    using nat_bit_bound [of "chunks_val 0 css" n] writes_only_bitmap_parse [of p s "join css" n]
    by (auto simp: parsed_def mask_is_def EOVERFLOW_def not_less [symmetric] split: if_splits)
qed

theorem bitmap_parse_number_witness:
  "(fst (bitmap_parse (join [''f'', ''00000001'']) 0 40 (\<lambda>_. [7])) = 0
      \<longleftrightarrow> chunks_val 0 [''f'', ''00000001''] < 2 ^ 40)
    \<and> writes_only 0 (\<lambda>_. [7]) (snd (bitmap_parse (join [''f'', ''00000001'']) 0 40 (\<lambda>_. [7])))"
proof -
  have "\<forall>ds \<in> set [''f'', ''00000001'']. hex_chunk ds"
    by (simp add: hex_chunk_def isxdigit_def isdigit_def unhex_def toupper_def)
  from bitmap_parse_number [of "[''f'', ''00000001'']" 40 "\<lambda>_. [7]" 0, OF _ this]
  show ?thesis by (simp add: BITS_TO_LONGS_def BITS_PER_LONG_def)
qed

text \<open>
  A number that contains a space after its first digits is not an error: \<open>__bitmap_parse\<close>
  returns 0, the code of success, and leaves the map empty.
\<close>

lemma bitmap_parse_embedded_space:
  assumes "list_all isxdigit ds" "ds \<noteq> []" "hexval 0 ds < 2 ^ 32"
    and "isspace b" "\<not> isspace x" "x \<noteq> CHR 0x00" "0 < n" "BITS_TO_LONGS n \<le> length (s p)"
  shows "fst (bitmap_parse (ds @ b # x # rest) p n s) = 0
    \<and> bm_set n (snd (bitmap_parse (ds @ b # x # rest) p n s) p) = {}"
proof -
  have "\<not> isspace CHR 0x00" by (simp add: isspace_def)
  from get_chunk_digits [OF assms(1) this, of "b # x # rest" 0 0 0]
  have "get_chunk (ds @ b # x # rest) CHR 0x00 0 0 0 = Inl 0"
    using assms(2-6) by simp
  then show ?thesis
    using bitmap_zero_post [where dst = p and s = s and n = n] assms(7,8)
    by (simp add: bitmap_parse_def parse_chunks.simps bm_op_post_def)
qed

lemma bitmap_parse_embedded_space_witness:
  "fst (bitmap_parse (''3'' @ CHR '' '' # CHR ''1'' # []) 0 64 (\<lambda>_. [7])) = 0
    \<and> bm_set 64 (snd (bitmap_parse (''3'' @ CHR '' '' # CHR ''1'' # []) 0 64 (\<lambda>_. [7])) 0) = {}"
  by (rule bitmap_parse_embedded_space)
    (simp_all add: isxdigit_def isdigit_def unhex_def isspace_def BITS_TO_LONGS_def BITS_PER_LONG_def)

text \<open>
  \<open>bitmap_scnprintf\<close> on a map whose size is not a multiple of 32: when the top chunk is zero
  it is skipped without resetting the chunk size, so the next chunk is cut to the size of the top
  one. A map of 40 bits that holds 0x12345678 is printed as \<open>78\<close>.
\<close>

lemma bitmap_scnprintf_partial_chunk:
  "map_option (\<lambda>(len, b). take len b) (bitmap_scnprintf (replicate 16 CHR ''x'') 16 [0x12345678] 40)
    = Some ''78''"
  by code_simp

end
