(* ===== verification/Glist.thy ===== *)
theory Glist
  imports Prelude "HOL-Library.Monad_Syntax" "HOL-Library.Multiset"
begin

text \<open>
  glib-local/glist.c: doubly linked lists on a heap. A node pointer is a natural number, 0 is
  NULL; reading or writing a cell that is not allocated, freeing one twice, and a loop that
  does not end are all the result \<open>None\<close>, so a theorem that an operation returns \<open>Some\<close> shows
  that none of them happens. \<open>malloc\<close> is assumed to succeed, as the code assumes.

  The predicate \<open>glist h l ns\<close> says that \<open>l\<close> is a well-formed list with the nodes \<open>ns\<close>, pairs
  of a pointer and its data. Each operation is shown to refine its function on the list of
  data; the other theories use those functions (\<open>xs @ [x]\<close>, \<open>List.find\<close>, \<open>length\<close>, \<open>g_sort\<close>).
\<close>

section \<open>Heap and nodes\<close>

record 'a gnode =
  gdata :: 'a
  gnext :: nat
  gprev :: nat

record 'a gheap =
  cells :: "nat \<Rightarrow> 'a gnode option"
  brk :: nat

definition set_next :: "'a gheap \<Rightarrow> nat \<Rightarrow> nat \<Rightarrow> 'a gheap option" where
  "set_next h p q = do {
     n \<leftarrow> cells h p;
     Some (h\<lparr>cells := (cells h)(p \<mapsto> n\<lparr>gnext := q\<rparr>)\<rparr>)
   }"

definition set_prev :: "'a gheap \<Rightarrow> nat \<Rightarrow> nat \<Rightarrow> 'a gheap option" where
  "set_prev h p q = do {
     n \<leftarrow> cells h p;
     Some (h\<lparr>cells := (cells h)(p \<mapsto> n\<lparr>gprev := q\<rparr>)\<rparr>)
   }"

definition free_node :: "'a gheap \<Rightarrow> nat \<Rightarrow> 'a gheap option" where
  "free_node h p =
    (if p = 0 then Some h
     else do { _ \<leftarrow> cells h p; Some (h\<lparr>cells := (cells h)(p := None)\<rparr>) })"

section \<open>Operations\<close>

partial_function (option) g_list_free :: "'a gheap \<Rightarrow> nat \<Rightarrow> 'a gheap option" where
  "g_list_free h l =
    (if l = 0 then Some h
     else do { n \<leftarrow> cells h l; h \<leftarrow> free_node h l; g_list_free h (gnext n) })"

partial_function (option) last_loop :: "'a gheap \<Rightarrow> nat \<Rightarrow> nat option" where
  "last_loop h l = do { n \<leftarrow> cells h l; if gnext n = 0 then Some l else last_loop h (gnext n) }"

definition g_list_last :: "'a gheap \<Rightarrow> nat \<Rightarrow> nat option" where
  "g_list_last h l = (if l = 0 then Some 0 else last_loop h l)"

definition g_list_append :: "'a gheap \<Rightarrow> nat \<Rightarrow> 'a \<Rightarrow> ('a gheap \<times> nat) option" where
  "g_list_append h l x =
    (let p = brk h;
         h = h\<lparr>cells := (cells h)(p \<mapsto> \<lparr>gdata = x, gnext = 0, gprev = 0\<rparr>), brk := brk h + 1\<rparr>
     in if l \<noteq> 0 then do {
          e \<leftarrow> g_list_last h l;
          h \<leftarrow> set_next h e p;
          h \<leftarrow> set_prev h p e;
          Some (h, l)
        } else Some (h, p))"

definition remove_link :: "'a gheap \<Rightarrow> nat \<Rightarrow> nat \<Rightarrow> ('a gheap \<times> nat) option" where
  "remove_link h l k =
    (if k = 0 then Some (h, l) else do {
       n \<leftarrow> cells h k;
       h \<leftarrow> (if gprev n \<noteq> 0 then set_next h (gprev n) (gnext n) else Some h);
       n \<leftarrow> cells h k;
       h \<leftarrow> (if gnext n \<noteq> 0 then set_prev h (gnext n) (gprev n) else Some h);
       l \<leftarrow> (if k = l then map_option gnext (cells h l) else Some l);
       h \<leftarrow> set_next h k 0;
       h \<leftarrow> set_prev h k 0;
       Some (h, l)
     })"

definition g_list_delete_link :: "'a gheap \<Rightarrow> nat \<Rightarrow> nat \<Rightarrow> ('a gheap \<times> nat) option" where
  "g_list_delete_link h l k = do {
     (h, l) \<leftarrow> remove_link h l k;
     h \<leftarrow> free_node h k;
     Some (h, l)
   }"

partial_function (option) first_loop :: "'a gheap \<Rightarrow> nat \<Rightarrow> nat option" where
  "first_loop h l = do { n \<leftarrow> cells h l; if gprev n = 0 then Some l else first_loop h (gprev n) }"

definition g_list_first :: "'a gheap \<Rightarrow> nat \<Rightarrow> nat option" where
  "g_list_first h l = (if l = 0 then Some 0 else first_loop h l)"

partial_function (option) length_loop :: "'a gheap \<Rightarrow> nat \<Rightarrow> nat \<Rightarrow> nat option" where
  "length_loop h l len =
    (if l = 0 then Some len else do { n \<leftarrow> cells h l; length_loop h (gnext n) (len + 1) })"

definition g_list_length :: "'a gheap \<Rightarrow> nat \<Rightarrow> nat option" where
  "g_list_length h l = length_loop h l 0"

text \<open>The callback of \<open>g_list_foreach\<close> may change the heap and a state of its own.\<close>

partial_function (option) g_list_foreach ::
  "('a \<Rightarrow> 'a gheap \<times> 's \<Rightarrow> ('a gheap \<times> 's) option) \<Rightarrow> nat \<Rightarrow> 'a gheap \<times> 's \<Rightarrow> ('a gheap \<times> 's) option"
where
  "g_list_foreach func l hs =
    (if l = 0 then Some hs
     else do { n \<leftarrow> cells (fst hs) l; hs \<leftarrow> func (gdata n) hs; g_list_foreach func (gnext n) hs })"

definition g_list_free_full ::
  "('a \<Rightarrow> 'a gheap \<times> 's \<Rightarrow> ('a gheap \<times> 's) option) \<Rightarrow> nat \<Rightarrow> 'a gheap \<times> 's \<Rightarrow> ('a gheap \<times> 's) option"
where
  "g_list_free_full free_func l hs = do {
     (h, s) \<leftarrow> g_list_foreach free_func l hs;
     h \<leftarrow> g_list_free h l;
     Some (h, s)
   }"

partial_function (option) g_list_find_custom :: "'a gheap \<Rightarrow> nat \<Rightarrow> ('a \<Rightarrow> int) \<Rightarrow> nat option" where
  "g_list_find_custom h l func =
    (if l = 0 then Some 0
     else do {
       n \<leftarrow> cells h l;
       if func (gdata n) = 0 then Some l else g_list_find_custom h (gnext n) func
     })"

partial_function (option) remove_loop ::
  "'a gheap \<Rightarrow> nat \<Rightarrow> 'a \<Rightarrow> nat \<Rightarrow> ('a gheap \<times> nat) option"
where
  "remove_loop h l x tmp =
    (if tmp = 0 then Some (h, l)
     else do {
       n \<leftarrow> cells h tmp;
       if gdata n \<noteq> x then remove_loop h l x (gnext n)
       else do {
         (h, l) \<leftarrow> remove_link h l tmp;
         h \<leftarrow> g_list_free h tmp;
         Some (h, l)
       }
     })"

definition g_list_remove :: "'a gheap \<Rightarrow> nat \<Rightarrow> 'a \<Rightarrow> ('a gheap \<times> nat) option" where
  "g_list_remove h l x = remove_loop h l x l"

subsection \<open>Merge sort\<close>

text \<open>
  The merge keeps a stack node \<open>list\<close> in front of the result. Here \<open>l = 0\<close> stands for
  \<open>&list\<close> and \<open>head\<close> is \<open>list.next\<close>. Storing \<open>&list\<close> into a heap node, which would leave a pointer
  into a dead stack frame, is \<open>None\<close>.
\<close>

definition put_next :: "'a gheap \<Rightarrow> nat \<Rightarrow> nat \<Rightarrow> nat \<Rightarrow> ('a gheap \<times> nat) option" where
  "put_next h head l q =
    (if l = 0 then Some (h, q) else do { h \<leftarrow> set_next h l q; Some (h, head) })"

definition get_next :: "'a gheap \<Rightarrow> nat \<Rightarrow> nat \<Rightarrow> nat option" where
  "get_next h head l = (if l = 0 then Some head else map_option gnext (cells h l))"

partial_function (option) merge_loop ::
  "('a \<Rightarrow> 'a \<Rightarrow> int) \<Rightarrow> 'a gheap \<Rightarrow> nat \<Rightarrow> nat \<Rightarrow> nat \<Rightarrow> nat \<Rightarrow> nat \<Rightarrow> ('a gheap \<times> nat) option"
where
  "merge_loop cmp h head l1 l2 l lprev =
    (if l1 \<noteq> 0 \<and> l2 \<noteq> 0 then do {
       n1 \<leftarrow> cells h l1;
       n2 \<leftarrow> cells h l2;
       (h, head, l1, l2) \<leftarrow>
         (if cmp (gdata n1) (gdata n2) \<le> 0 then do {
            (h, head) \<leftarrow> put_next h head l l1;
            n1 \<leftarrow> cells h l1;
            Some (h, head, gnext n1, l2)
          } else do {
            (h, head) \<leftarrow> put_next h head l l2;
            n2 \<leftarrow> cells h l2;
            Some (h, head, l1, gnext n2)
          });
       l \<leftarrow> get_next h head l;
       h \<leftarrow> set_prev h l lprev;
       merge_loop cmp h head l1 l2 l l
     } else do {
       (h, head) \<leftarrow> put_next h head l (if l1 \<noteq> 0 then l1 else l2);
       r \<leftarrow> get_next h head l;
       h \<leftarrow> (if l = 0 then None else set_prev h r l);
       Some (h, head)
     })"

definition g_list_sort_merge ::
  "('a \<Rightarrow> 'a \<Rightarrow> int) \<Rightarrow> 'a gheap \<Rightarrow> nat \<Rightarrow> nat \<Rightarrow> ('a gheap \<times> nat) option" where
  "g_list_sort_merge cmp h l1 l2 = merge_loop cmp h 0 l1 l2 0 0"

partial_function (option) split_loop :: "'a gheap \<Rightarrow> nat \<Rightarrow> nat \<Rightarrow> nat option" where
  "split_loop h l1 l2 = do {
     n2 \<leftarrow> cells h l2;
     if gnext n2 = 0 then Some l1
     else do {
       n2 \<leftarrow> cells h (gnext n2);
       if gnext n2 = 0 then Some l1
       else do { n1 \<leftarrow> cells h l1; split_loop h (gnext n1) (gnext n2) }
     }
   }"

partial_function (option) g_list_sort_real ::
  "('a \<Rightarrow> 'a \<Rightarrow> int) \<Rightarrow> 'a gheap \<Rightarrow> nat \<Rightarrow> ('a gheap \<times> nat) option"
where
  "g_list_sort_real cmp h l =
    (if l = 0 then Some (h, 0)
     else do {
       n \<leftarrow> cells h l;
       if gnext n = 0 then Some (h, l)
       else do {
         l1 \<leftarrow> split_loop h l (gnext n);
         n1 \<leftarrow> cells h l1;
         h \<leftarrow> set_next h l1 0;
         (h, a) \<leftarrow> g_list_sort_real cmp h l;
         (h, b) \<leftarrow> g_list_sort_real cmp h (gnext n1);
         g_list_sort_merge cmp h a b
       }
     })"

definition g_list_sort :: "('a \<Rightarrow> 'a \<Rightarrow> int) \<Rightarrow> 'a gheap \<Rightarrow> nat \<Rightarrow> ('a gheap \<times> nat) option" where
  "g_list_sort cmp h l = g_list_sort_real cmp h l"

section \<open>The functions on lists\<close>

fun g_merge :: "('a \<Rightarrow> 'a \<Rightarrow> int) \<Rightarrow> 'a list \<Rightarrow> 'a list \<Rightarrow> 'a list" where
  "g_merge cmp [] ys = ys"
| "g_merge cmp (x # xs) [] = x # xs"
| "g_merge cmp (x # xs) (y # ys) =
    (if cmp x y \<le> 0 then x # g_merge cmp xs (y # ys) else y # g_merge cmp (x # xs) ys)"

function g_sort :: "('a \<Rightarrow> 'a \<Rightarrow> int) \<Rightarrow> 'a list \<Rightarrow> 'a list" where
  "g_sort cmp xs =
    (if length xs \<le> 1 then xs
     else g_merge cmp (g_sort cmp (take (length xs div 2) xs)) (g_sort cmp (drop (length xs div 2) xs)))"
  by pat_completeness auto
termination by (relation "measure (\<lambda>(cmp, xs). length xs)") auto

declare g_sort.simps [simp del]

section \<open>Well-formed lists\<close>

fun first_ptr :: "(nat \<times> 'a) list \<Rightarrow> nat \<Rightarrow> nat" where
  "first_ptr [] q = q"
| "first_ptr (n # ns) q = fst n"

fun last_ptr :: "(nat \<times> 'a) list \<Rightarrow> nat \<Rightarrow> nat" where
  "last_ptr [] q = q"
| "last_ptr (n # ns) q = last_ptr ns (fst n)"

text \<open>A segment from the node after \<open>pr\<close> up to the node before \<open>q\<close>.\<close>

fun seg :: "(nat \<Rightarrow> 'a gnode option) \<Rightarrow> nat \<Rightarrow> (nat \<times> 'a) list \<Rightarrow> nat \<Rightarrow> bool" where
  "seg c pr [] q \<longleftrightarrow> True"
| "seg c pr (n # ns) q \<longleftrightarrow>
    fst n \<noteq> 0 \<and> c (fst n) = Some \<lparr>gdata = snd n, gnext = first_ptr ns q, gprev = pr\<rparr>
    \<and> seg c (fst n) ns q"

definition glist :: "'a gheap \<Rightarrow> nat \<Rightarrow> (nat \<times> 'a) list \<Rightarrow> bool" where
  "glist h l ns \<longleftrightarrow> seg (cells h) 0 ns 0 \<and> distinct (map fst ns) \<and> l = first_ptr ns 0"

definition heap_ok :: "'a gheap \<Rightarrow> bool" where
  "heap_ok h \<longleftrightarrow> 0 < brk h \<and> (\<forall>p. cells h p \<noteq> None \<longrightarrow> 0 < p \<and> p < brk h)"

lemma first_ptr_append [simp]: "first_ptr (a @ b) q = first_ptr a (first_ptr b q)"
  by (cases a) auto

lemma last_ptr_append [simp]: "last_ptr (a @ b) q = last_ptr b (last_ptr a q)"
  by (induction a q rule: last_ptr.induct) auto

lemma last_ptr_nonempty: "ns \<noteq> [] \<Longrightarrow> last_ptr ns q = fst (last ns)"
  by (induction ns q rule: last_ptr.induct) auto

lemma seg_append [simp]:
  "seg c pr (a @ b) q \<longleftrightarrow> seg c pr a (first_ptr b q) \<and> seg c (last_ptr a pr) b q"
  by (induction a arbitrary: pr) auto

lemma seg_cong: "(\<And>p. p \<in> fst ` set ns \<Longrightarrow> c p = c' p) \<Longrightarrow> seg c pr ns q = seg c' pr ns q"
  by (induction ns arbitrary: pr) auto

lemma seg_update [simp]: "p \<notin> fst ` set ns \<Longrightarrow> seg (c(p := v)) pr ns q = seg c pr ns q"
  by (rule seg_cong) auto

lemma seg_pos: "seg c pr ns q \<Longrightarrow> p \<in> fst ` set ns \<Longrightarrow> p \<noteq> 0 \<and> c p \<noteq> None"
  by (induction ns arbitrary: pr) auto

lemma first_ptr_cases: "first_ptr ns q = (if ns = [] then q else fst (hd ns))"
  by (cases ns) auto

lemma first_ptr_0 [simp]: "seg c pr ns q \<Longrightarrow> first_ptr ns 0 = 0 \<longleftrightarrow> ns = []"
  by (cases ns) auto

lemma glist_not_null: "glist h l ns \<Longrightarrow> l = 0 \<longleftrightarrow> ns = []"
  by (auto simp: glist_def)

lemma last_loop_seg:
  "seg (cells h) pr ns 0 \<Longrightarrow> ns \<noteq> [] \<Longrightarrow> last_loop h (first_ptr ns 0) = Some (last_ptr ns 0)"
proof (induction ns arbitrary: pr)
  case (Cons n ns)
  obtain p x where n: "n = (p, x)" by fastforce
  show ?case
    using Cons by (cases ns) (auto simp: n last_loop.simps [of h p])
qed simp

lemma g_list_last_glist: "glist h l ns \<Longrightarrow> g_list_last h l = Some (last_ptr ns 0)"
  using last_loop_seg [of h 0 ns] by (cases "ns = []") (auto simp: g_list_last_def glist_def)

lemma first_loop_seg:
  "seg (cells h) 0 (a @ (p, x) # b) q \<Longrightarrow> first_loop h p = Some (first_ptr (a @ [(p, x)]) 0)"
proof (induction a arbitrary: p x b rule: rev_induct)
  case Nil
  then show ?case by (auto simp: first_loop.simps [of h p])
next
  case (snoc n a)
  obtain p' x' where n: "n = (p', x')" by fastforce
  have "first_loop h p' = Some (first_ptr (a @ [(p', x')]) 0)"
    using snoc.prems snoc.IH [of p' x' "(p, x) # b"] by (simp add: n)
  then show ?case using snoc.prems by (auto simp: n first_loop.simps [of h p])
qed

lemma g_list_first_glist:
  assumes "glist h l (a @ (p, x) # b)"
  shows "g_list_first h p = Some l"
  using assms first_loop_seg [of h a p x b 0] by (auto simp: glist_def g_list_first_def)

lemma length_loop_seg: "seg (cells h) pr ns 0 \<Longrightarrow> length_loop h (first_ptr ns 0) k = Some (k + length ns)"
proof (induction ns arbitrary: pr k)
  case Nil
  then show ?case by (simp add: length_loop.simps)
next
  case (Cons n ns)
  then show ?case by (auto simp: length_loop.simps [of h "fst n"])
qed

lemma g_list_length_glist: "glist h l ns \<Longrightarrow> g_list_length h l = Some (length ns)"
  using length_loop_seg [of h 0 ns 0] by (simp add: g_list_length_def glist_def)

lemma find_custom_seg:
  "seg (cells h) pr ns 0 \<Longrightarrow>
    g_list_find_custom h (first_ptr ns 0) func = Some (first_ptr (dropWhile (\<lambda>n. func (snd n) \<noteq> 0) ns) 0)"
proof (induction ns arbitrary: pr)
  case Nil
  then show ?case by (simp add: g_list_find_custom.simps)
next
  case (Cons n ns)
  then show ?case by (auto simp: g_list_find_custom.simps [of h "fst n"])
qed

lemma g_list_find_custom_glist:
  "glist h l ns \<Longrightarrow>
    g_list_find_custom h l func = Some (first_ptr (dropWhile (\<lambda>n. func (snd n) \<noteq> 0) ns) 0)"
  using find_custom_seg [of h 0 ns] by (simp add: glist_def)

lemma foreach_seg:
  assumes "seg (cells h) pr ns 0"
  shows "g_list_foreach (\<lambda>x (h, s). Some (h, f x s)) (first_ptr ns 0) (h, s)
    = Some (h, fold f (map snd ns) s)"
  using assms
proof (induction ns arbitrary: pr s)
  case Nil
  then show ?case by (simp add: g_list_foreach.simps)
next
  case (Cons n ns)
  then show ?case by (auto simp: g_list_foreach.simps [of _ "fst n"])
qed

lemma g_list_free_seg:
  assumes "seg (cells h) pr ns 0" "distinct (map fst ns)"
  shows "\<exists>h'. g_list_free h (first_ptr ns 0) = Some h'
    \<and> cells h' = (\<lambda>p. if p \<in> fst ` set ns then None else cells h p) \<and> brk h' = brk h"
  using assms
proof (induction ns arbitrary: pr h)
  case Nil
  then show ?case by (simp add: g_list_free.simps)
next
  case (Cons n ns)
  obtain p x where n: "n = (p, x)" by fastforce
  let ?h = "h\<lparr>cells := (cells h)(p := None)\<rparr>"
  have "seg (cells ?h) p ns 0" using Cons.prems by (simp add: n)
  from Cons.IH [OF this] Cons.prems obtain h' where
    h': "g_list_free ?h (first_ptr ns 0) = Some h'"
    "cells h' = (\<lambda>q. if q \<in> fst ` set ns then None else cells ?h q)" "brk h' = brk ?h" by auto
  have "g_list_free h p = Some h'"
    using Cons.prems h'(1) by (simp add: n g_list_free.simps [of h p] free_node_def)
  with h'(2,3) show ?case by (auto simp: n fun_eq_iff)
qed

definition same_outside :: "nat set \<Rightarrow> 'a gheap \<Rightarrow> 'a gheap \<Rightarrow> bool" where
  "same_outside P h h' \<longleftrightarrow> (\<forall>p. p \<notin> P \<longrightarrow> cells h' p = cells h p)"

lemma fresh_ptr: "heap_ok h \<Longrightarrow> seg (cells h) pr ns q \<Longrightarrow> brk h \<notin> fst ` set ns"
  using seg_pos [of "cells h" pr ns q "brk h"] by (auto simp: heap_ok_def)

lemma g_list_append_glist:
  assumes "glist h l ns" "heap_ok h"
  shows "\<exists>h' l'. g_list_append h l x = Some (h', l') \<and> glist h' l' (ns @ [(brk h, x)]) \<and> heap_ok h'
    \<and> same_outside (fst ` set ns \<union> {brk h}) h h'"
proof (cases ns rule: rev_cases)
  case Nil
  then show ?thesis using assms
    by (auto simp: g_list_append_def glist_def heap_ok_def same_outside_def Let_def)
next
  case (snoc a n)
  define p where "p = brk h"
  define h1 where "h1 = h\<lparr>cells := (cells h)(p \<mapsto> \<lparr>gdata = x, gnext = 0, gprev = 0\<rparr>), brk := brk h + 1\<rparr>"
  have s: "seg (cells h) 0 ns 0" and d: "distinct (map fst ns)" and l: "l = first_ptr ns 0"
    using assms(1) by (simp_all add: glist_def)
  have p: "p \<notin> fst ` set ns" using fresh_ptr [OF assms(2) s] by (simp add: p_def)
  have "p \<noteq> 0" using assms(2) by (simp add: heap_ok_def p_def)
  have "seg (cells h1) 0 ns 0" using s p by (simp add: h1_def)
  then have g1: "glist h1 l ns" using d l by (simp add: glist_def)
  have e: "fst n \<noteq> 0" "cells h (fst n) = Some \<lparr>gdata = snd n, gnext = 0, gprev = last_ptr a 0\<rparr>"
    "fst n \<notin> fst ` set a" "fst n \<noteq> p" "l \<noteq> 0"
    using s d p l glist_not_null [OF assms(1)] by (auto simp: snoc)
  let ?c = "(cells h)(p \<mapsto> \<lparr>gdata = x, gnext = 0, gprev = fst n\<rparr>,
      fst n \<mapsto> \<lparr>gdata = snd n, gnext = p, gprev = last_ptr a 0\<rparr>)"
  have r: "g_list_append h l x = Some (h1\<lparr>cells := ?c\<rparr>, l)"
    using g_list_last_glist [OF g1] e
    by (auto simp: g_list_append_def Let_def set_next_def set_prev_def snoc h1_def p_def [symmetric]
        fun_upd_twist)
  have "glist (h1\<lparr>cells := ?c\<rparr>) l (ns @ [(p, x)])"
    using s d p l e \<open>p \<noteq> 0\<close> by (auto simp: glist_def snoc)
  moreover have "heap_ok (h1\<lparr>cells := ?c\<rparr>)"
    using assms(2) e by (auto simp: heap_ok_def h1_def p_def less_SucI)
  moreover have "same_outside (fst ` set ns \<union> {brk h}) h (h1\<lparr>cells := ?c\<rparr>)"
    by (auto simp: same_outside_def snoc p_def)
  ultimately show ?thesis using r by (auto simp: p_def)
qed


lemma glist_update:
  "glist h l ns \<Longrightarrow> p \<notin> fst ` set ns \<Longrightarrow> glist (h\<lparr>cells := (cells h)(p := v)\<rparr>) l ns"
  by (simp add: glist_def)

lemma first_ptr_mem: "first_ptr a q = q \<or> first_ptr a q \<in> fst ` set a"
  by (cases a) auto

text \<open>Unlinking the node between \<open>a\<close> and \<open>b\<close>: the four cases of its neighbours.\<close>

definition unlinked :: "'a gheap \<Rightarrow> (nat \<times> 'a) list \<Rightarrow> nat \<times> 'a \<Rightarrow> (nat \<times> 'a) list \<Rightarrow> 'a gheap \<times> nat \<Rightarrow> bool" where
  "unlinked h a n b r \<longleftrightarrow> glist (fst r) (snd r) (a @ b)
    \<and> cells (fst r) (fst n) = Some \<lparr>gdata = snd n, gnext = 0, gprev = 0\<rparr> \<and> brk (fst r) = brk h
    \<and> same_outside (fst ` set (a @ n # b)) h (fst r)
    \<and> (\<forall>p. cells (fst r) p = None \<longleftrightarrow> cells h p = None)"

lemma remove_link_glist:
  assumes g: "glist h l (a @ n # b)"
  shows "\<exists>r. remove_link h l (fst n) = Some r \<and> unlinked h a n b r"
proof -
  note defs = remove_link_def set_next_def set_prev_def unlinked_def glist_def same_outside_def
  have cases_b: "b = [] \<or> (\<exists>m b'. b = m # b')" by (cases b) auto
  show ?thesis
  proof (cases a rule: rev_cases)
    case Nil
    show ?thesis
      using cases_b
    proof (elim disjE exE)
      assume "b = []"
      with g Nil show ?thesis by (auto simp: defs)
    next
      fix m b' assume "b = m # b'"
      with g Nil show ?thesis by (auto simp: defs)
    qed
  next
    case (snoc a' k)
    have ne: "first_ptr a' (fst k) \<noteq> fst n"
      using g snoc first_ptr_mem [of a' "fst k"] by (force simp: glist_def)
    show ?thesis
      using cases_b
    proof (elim disjE exE)
      assume "b = []"
      with g snoc ne show ?thesis by (auto simp: defs)
    next
      fix m b' assume "b = m # b'"
      with g snoc ne show ?thesis by (auto simp: defs)
    qed
  qed
qed

lemma g_list_delete_link_glist:
  assumes "glist h l (a @ n # b)"
  shows "\<exists>h' l'. g_list_delete_link h l (fst n) = Some (h', l') \<and> glist h' l' (a @ b)
    \<and> cells h' (fst n) = None \<and> same_outside (fst ` set (a @ n # b)) h h'
    \<and> (heap_ok h \<longrightarrow> heap_ok h')"
proof -
  from remove_link_glist [OF assms] obtain h1 l1 where
    r: "remove_link h l (fst n) = Some (h1, l1)" and u: "unlinked h a n b (h1, l1)" by auto
  let ?h = "h1\<lparr>cells := (cells h1)(fst n := None)\<rparr>"
  have n: "fst n \<noteq> 0" "fst n \<notin> fst ` set (a @ b)" using assms by (auto simp: glist_def)
  have "g_list_delete_link h l (fst n) = Some (?h, l1)"
    using r u n by (simp add: g_list_delete_link_def free_node_def unlinked_def)
  moreover have "glist ?h l1 (a @ b)"
    using u n by (intro glist_update) (auto simp: unlinked_def)
  moreover have "same_outside (fst ` set (a @ n # b)) h ?h"
    using u by (auto simp: unlinked_def same_outside_def)
  moreover have "heap_ok h \<longrightarrow> heap_ok ?h"
    using u by (simp add: unlinked_def heap_ok_def del: not_None_eq)
  ultimately show ?thesis by auto
qed

lemma remove_loop_glist:
  assumes "glist h l (a @ b)" "\<forall>n \<in> set a. snd n \<noteq> x"
  shows "\<exists>h' l'. remove_loop h l x (first_ptr b 0) = Some (h', l')
    \<and> (\<exists>ns. glist h' l' ns \<and> map snd ns = remove1 x (map snd (a @ b)))"
  using assms
proof (induction b arbitrary: a)
  case Nil
  have "remove1 x (map snd a) = map snd a"
    using Nil.prems(2) by (intro remove1_idem) auto
  then show ?case using Nil.prems by (auto simp: remove_loop.simps)
next
  case (Cons n b)
  have c: "fst n \<noteq> 0" "\<exists>pr nx. cells h (fst n) = Some \<lparr>gdata = snd n, gnext = first_ptr b 0, gprev = pr\<rparr>"
    using Cons.prems(1) by (auto simp: glist_def)
  show ?case
  proof (cases "snd n = x")
    case False
    have "glist h l ((a @ [n]) @ b)" "\<forall>m \<in> set (a @ [n]). snd m \<noteq> x"
      using Cons.prems False by auto
    from Cons.IH [OF this] show ?thesis
      using c False by (auto simp: remove_loop.simps [of h l x "fst n"])
  next
    case True
    from remove_link_glist [OF Cons.prems(1)] obtain h1 l1 where
      r: "remove_link h l (fst n) = Some (h1, l1)" and u: "unlinked h a n b (h1, l1)" by auto
    let ?h = "h1\<lparr>cells := (cells h1)(fst n := None)\<rparr>"
    have n: "fst n \<notin> fst ` set (a @ b)" using Cons.prems(1) by (auto simp: glist_def)
    have "g_list_free h1 (fst n) = Some ?h"
      using u c(1) by (simp add: unlinked_def g_list_free.simps [of h1 "fst n"] free_node_def
          g_list_free.simps [of _ 0])
    then have "remove_loop h l x (fst n) = Some (?h, l1)"
      using c r True by (auto simp: remove_loop.simps [of h l x "fst n"])
    moreover have "glist ?h l1 (a @ b)" using u n by (intro glist_update) (auto simp: unlinked_def)
    moreover have "map snd (a @ b) = remove1 x (map snd (a @ n # b))"
      using Cons.prems(2) True by (auto simp: remove1_append image_iff)
    ultimately show ?thesis by auto
  qed
qed

lemma g_list_remove_glist:
  assumes "glist h l ns"
  shows "\<exists>h' l' ns'. g_list_remove h l x = Some (h', l') \<and> glist h' l' ns'
    \<and> map snd ns' = remove1 x (map snd ns)"
  using remove_loop_glist [of h l "[]" ns x] assms by (auto simp: g_list_remove_def glist_def)

section \<open>Merge sort on the heap\<close>

definition linked :: "'a gheap \<Rightarrow> nat \<Rightarrow> nat \<Rightarrow> 'a gheap" where
  "linked h l q =
    (if l = 0 then h
     else h\<lparr>cells := (cells h)(l \<mapsto> (the (cells h l))\<lparr>gnext := q\<rparr>)\<rparr>)"

lemma put_get_next:
  assumes "l = 0 \<or> cells h l \<noteq> None"
  shows "put_next h head l q = Some (linked h l q, if l = 0 then q else head)"
    and "get_next (linked h l q) (if l = 0 then q else head) l = Some q"
  using assms by (auto simp: put_next_def get_next_def linked_def set_next_def)

definition relinked :: "'a gheap \<Rightarrow> nat \<Rightarrow> nat \<Rightarrow> nat \<Rightarrow> 'a gheap" where
  "relinked h l p lprev =
    (let h = linked h l p in h\<lparr>cells := (cells h)(p \<mapsto> (the (cells h p))\<lparr>gprev := lprev\<rparr>)\<rparr>)"

lemma merge_loop_left:
  assumes "p \<noteq> 0" "q \<noteq> 0" "cells h p = Some np" "cells h q = Some nq" "cmp (gdata np) (gdata nq) \<le> 0"
    and "l = 0 \<or> cells h l \<noteq> None" "l \<noteq> p"
  shows "merge_loop cmp h head p q l lprev =
    merge_loop cmp (relinked h l p lprev) (if l = 0 then p else head) (gnext np) q p p"
proof -
  have "cells (linked h l p) p = Some np" using assms by (auto simp: linked_def)
  then show ?thesis
    using assms(1-5) put_get_next [OF assms(6), where head = head and q = p]
    by (subst merge_loop.simps) (simp add: set_prev_def relinked_def Let_def)
qed

lemma merge_loop_right:
  assumes "p \<noteq> 0" "q \<noteq> 0" "cells h p = Some np" "cells h q = Some nq" "\<not> cmp (gdata np) (gdata nq) \<le> 0"
    and "l = 0 \<or> cells h l \<noteq> None" "l \<noteq> q"
  shows "merge_loop cmp h head p q l lprev =
    merge_loop cmp (relinked h l q lprev) (if l = 0 then q else head) p (gnext nq) q q"
proof -
  have "cells (linked h l q) q = Some nq" using assms by (auto simp: linked_def)
  then show ?thesis
    using assms(1-5) put_get_next [OF assms(6), where head = head and q = q]
    by (subst merge_loop.simps) (simp add: set_prev_def relinked_def Let_def)
qed

lemma merge_loop_rest:
  assumes "r = (if p \<noteq> 0 then p else q)" "p = 0 \<or> q = 0" "l \<noteq> 0" "cells h l \<noteq> None"
    "cells h r = Some nr" "r \<noteq> l"
  shows "merge_loop cmp h head p q l lprev = Some (relinked h l r l, head)"
proof -
  have "cells (linked h l r) r = Some nr" using assms by (auto simp: linked_def)
  then show ?thesis
    using assms(1-3) put_get_next [of l h, where head = head and q = r] assms(4)
    by (subst merge_loop.simps) (auto simp: set_prev_def relinked_def Let_def)
qed

abbreviation ncmp :: "('a \<Rightarrow> 'a \<Rightarrow> int) \<Rightarrow> nat \<times> 'a \<Rightarrow> nat \<times> 'a \<Rightarrow> int" where
  "ncmp cmp \<equiv> \<lambda>a b. cmp (snd a) (snd b)"

definition merged :: "'a gheap \<Rightarrow> nat \<Rightarrow> nat \<Rightarrow> nat \<Rightarrow> nat set \<Rightarrow> (nat \<times> 'a) list \<Rightarrow> 'a gheap \<times> nat \<Rightarrow> bool" where
  "merged h head l lprev P M r \<longleftrightarrow>
    snd r = (if l = 0 then first_ptr M 0 else head)
    \<and> (l \<noteq> 0 \<longrightarrow> cells (fst r) l = Some ((the (cells h l))\<lparr>gnext := first_ptr M 0\<rparr>))
    \<and> seg (cells (fst r)) lprev M 0 \<and> same_outside (if l = 0 then P else insert l P) h (fst r) \<and> brk (fst r) = brk h"

lemma merged_rest:
  assumes "seg (cells h) a (n # ns) 0" "distinct (map fst (n # ns))" "l \<noteq> 0" "cells h l \<noteq> None"
    "l \<notin> fst ` set (n # ns)"
  shows "merged h head l l (fst ` set (n # ns)) (n # ns) (relinked h l (fst n) l, head)"
  using assms by (auto simp: merged_def relinked_def linked_def same_outside_def Let_def)

lemma set_g_merge [simp]: "set (g_merge cmp xs ys) = set xs \<union> set ys"
  by (induction cmp xs ys rule: g_merge.induct) auto

lemma merged_step:
  assumes "cells h (fst n) = Some \<lparr>gdata = snd n, gnext = q, gprev = pr\<rparr>" "fst n \<noteq> 0"
    "fst n \<noteq> l" "l \<noteq> 0 \<longrightarrow> cells h l \<noteq> None" "l \<notin> P" "fst n \<notin> P" 
    and "merged (relinked h l (fst n) lprev) (if l = 0 then fst n else head) (fst n) (fst n) P M r"
  shows "merged h head l lprev (insert (fst n) P) (n # M) r"
  using assms by (auto simp: merged_def relinked_def linked_def same_outside_def Let_def)

lemma relinked_seg:
  assumes "seg (cells h) a ns q" "l \<notin> fst ` set ns" "p \<notin> fst ` set ns"
  shows "seg (cells (relinked h l p lprev)) a ns q"
  using assms by (simp add: relinked_def linked_def Let_def)

lemma merge_loop_seg:
  assumes "seg (cells h) a ns1 0" "seg (cells h) b ns2 0" "distinct (map fst (ns1 @ ns2))"
    and "ns1 \<noteq> [] \<or> ns2 \<noteq> []"
    and "l = 0 \<and> lprev = 0 \<and> ns1 \<noteq> [] \<and> ns2 \<noteq> []
      \<or> l \<noteq> 0 \<and> lprev = l \<and> cells h l \<noteq> None \<and> l \<notin> fst ` set (ns1 @ ns2)"
  shows "\<exists>r. merge_loop cmp h head (first_ptr ns1 0) (first_ptr ns2 0) l lprev = Some r
    \<and> merged h head l lprev (fst ` set (ns1 @ ns2)) (g_merge (ncmp cmp) ns1 ns2) r"
  using assms
proof (induction "ncmp cmp" ns1 ns2 arbitrary: h head a b l lprev rule: g_merge.induct)
  case (1 ys)
  then obtain n ns where ys: "ys = n # ns" by (cases ys) auto
  have l: "l \<noteq> 0" "lprev = l" "cells h l \<noteq> None" "l \<notin> fst ` set ys" using 1 by auto
  have "merge_loop cmp h head 0 (fst n) l l = Some (relinked h l (fst n) l, head)"
    using 1(2) l by (intro merge_loop_rest) (auto simp: ys)
  then show ?case
    using merged_rest [of h b n ns l head] 1(2,3) l by (simp add: ys)
next
  case (2 n ns)
  have l: "l \<noteq> 0" "lprev = l" "cells h l \<noteq> None" "l \<notin> fst ` set (n # ns)" using 2 by auto
  have "merge_loop cmp h head (fst n) 0 l l = Some (relinked h l (fst n) l, head)"
    using 2(1) l by (intro merge_loop_rest) auto
  then show ?case
    using merged_rest [of h a n ns l head] 2(1,3) l by simp
next
  case (3 n ns m ms)
  let ?p = "fst n" and ?q = "fst m"
  have c: "?p \<noteq> 0" "?q \<noteq> 0" "cells h ?p = Some \<lparr>gdata = snd n, gnext = first_ptr ns 0, gprev = a\<rparr>"
    "cells h ?q = Some \<lparr>gdata = snd m, gnext = first_ptr ms 0, gprev = b\<rparr>"
    "seg (cells h) ?p ns 0" "seg (cells h) ?q ms 0"
    using 3(3,4) by auto
  have l: "l = 0 \<or> cells h l \<noteq> None" "l \<notin> fst ` set ((n # ns) @ m # ms)"
    using 3(7) seg_pos [OF 3(3)] seg_pos [OF 3(4)] by (auto simp: image_Un)
  show ?case
  proof (cases "cmp (snd n) (snd m) \<le> 0")
    case True
    let ?h = "relinked h l ?p lprev"
    have s: "seg (cells ?h) ?p ns 0" "seg (cells ?h) b (m # ms) 0"
      using 3(3-5) l by (intro relinked_seg; auto simp: image_Un)+
    have "cells ?h ?p \<noteq> None" by (simp add: relinked_def Let_def)
    from 3(1) [OF True s, of ?p ?p "if l = 0 then ?p else head"] obtain r where
      r: "merge_loop cmp ?h (if l = 0 then ?p else head) (first_ptr ns 0) ?q ?p ?p = Some r"
      "merged ?h (if l = 0 then ?p else head) ?p ?p (fst ` set (ns @ m # ms))
        (g_merge (ncmp cmp) ns (m # ms)) r"
      using 3(5) c \<open>cells ?h ?p \<noteq> None\<close> by (auto simp: image_Un)
    have "merge_loop cmp h head ?p ?q l lprev = Some r"
      using merge_loop_left [OF c(1-4), of cmp l head lprev] True l r(1) by auto
    moreover have "merged h head l lprev (insert ?p (fst ` set (ns @ m # ms)))
        (n # g_merge (ncmp cmp) ns (m # ms)) r"
      using c l 3(5) r(2) by (intro merged_step) auto
    ultimately show ?thesis using True by simp
  next
    case False
    let ?h = "relinked h l ?q lprev"
    have s: "seg (cells ?h) a (n # ns) 0" "seg (cells ?h) ?q ms 0"
      using 3(3-5) l by (intro relinked_seg; auto simp: image_Un)+
    have "cells ?h ?q \<noteq> None" by (simp add: relinked_def Let_def)
    from 3(2) [OF False s, of ?q ?q "if l = 0 then ?q else head"] obtain r where
      r: "merge_loop cmp ?h (if l = 0 then ?q else head) ?p (first_ptr ms 0) ?q ?q = Some r"
      "merged ?h (if l = 0 then ?q else head) ?q ?q (fst ` set ((n # ns) @ ms))
        (g_merge (ncmp cmp) (n # ns) ms) r"
      using 3(5) c \<open>cells ?h ?q \<noteq> None\<close> by (auto simp: image_Un)
    have "merge_loop cmp h head ?p ?q l lprev = Some r"
      using merge_loop_right [OF c(1-4), of cmp l head lprev] False l r(1) by auto
    moreover have "merged h head l lprev (insert ?q (fst ` set ((n # ns) @ ms)))
        (m # g_merge (ncmp cmp) (n # ns) ms) r"
      using c l 3(5) r(2) by (intro merged_step) auto
    ultimately show ?thesis using False by (simp add: insert_commute)
  qed
qed

lemma mset_g_merge [simp]: "mset (g_merge cmp xs ys) = mset xs + mset ys"
  by (induction cmp xs ys rule: g_merge.induct) auto

lemma mset_g_sort [simp]: "mset (g_sort cmp xs) = mset xs"
proof (induction cmp xs rule: g_sort.induct)
  case (1 cmp xs)
  then show ?case
    by (subst g_sort.simps) (simp flip: mset_append)
qed

lemma set_g_sort [simp]: "set (g_sort cmp xs) = set xs"
  using mset_eq_setD [OF mset_g_sort] .

lemma length_g_sort [simp]: "length (g_sort cmp xs) = length xs"
  using mset_eq_length [OF mset_g_sort] .

lemma distinct_map_g_sort [simp]: "distinct (map f (g_sort cmp xs)) = distinct (map f xs)"
  using mset_eq_imp_distinct_iff [of "map f (g_sort cmp xs)" "map f xs"] by simp

lemma map_g_merge: "map f (g_merge (\<lambda>a b. cmp (f a) (f b)) xs ys) = g_merge cmp (map f xs) (map f ys)"
  by (induction "\<lambda>a b. cmp (f a) (f b)" xs ys rule: g_merge.induct) auto

lemma map_g_sort: "map f (g_sort (\<lambda>a b. cmp (f a) (f b)) xs) = g_sort cmp (map f xs)"
proof (induction "\<lambda>a b. cmp (f a) (f b)" xs rule: g_sort.induct)
  case (1 xs)
  then show ?case
    by (subst (1 2) g_sort.simps) (simp add: map_g_merge take_map drop_map)
qed

lemma seg_nth:
  "seg c pr ns 0 \<Longrightarrow> k < length ns \<Longrightarrow> \<exists>nd. c (fst (ns ! k)) = Some nd
    \<and> gnext nd = (if Suc k < length ns then fst (ns ! Suc k) else 0)
    \<and> (Suc k < length ns \<longrightarrow> fst (ns ! Suc k) \<noteq> 0)"
proof (induction ns arbitrary: pr k)
  case (Cons n ns)
  show ?case
  proof (cases k)
    case 0
    with Cons.prems show ?thesis by (cases ns) auto
  next
    case (Suc k')
    with Cons.prems Cons.IH [of "fst n" k'] show ?thesis by auto
  qed
qed simp

lemma split_loop_seg:
  assumes "seg (cells h) pr ns 0" "j < length ns" "i < length ns" "i \<le> j"
  shows "split_loop h (fst (ns ! i)) (fst (ns ! j)) = Some (fst (ns ! (i + (length ns - 1 - j) div 2)))"
  using assms
proof (induction "length ns - j" arbitrary: i j rule: less_induct)
  case less
  note nx = seg_nth [OF less.prems(1)]
  obtain nj where nj: "cells h (fst (ns ! j)) = Some nj"
    "gnext nj = (if Suc j < length ns then fst (ns ! Suc j) else 0)"
    "Suc j < length ns \<longrightarrow> fst (ns ! Suc j) \<noteq> 0"
    using nx [OF less.prems(2)] by blast
  show ?case
  proof (cases "Suc j < length ns")
    case False
    then have "length ns - 1 - j = 0" by simp
    with False nj show ?thesis by (simp add: split_loop.simps [of h _ "fst (ns ! j)"])
  next
    case True
    obtain nj' where nj': "cells h (fst (ns ! Suc j)) = Some nj'"
      "gnext nj' = (if Suc (Suc j) < length ns then fst (ns ! Suc (Suc j)) else 0)"
      "Suc (Suc j) < length ns \<longrightarrow> fst (ns ! Suc (Suc j)) \<noteq> 0"
      using nx [OF True] by blast
    show ?thesis
    proof (cases "Suc (Suc j) < length ns")
      case False
      then have "length ns - 1 - j = 1" using True by simp
      with False True nj nj' show ?thesis by (simp add: split_loop.simps [of h _ "fst (ns ! j)"])
    next
      case more: True
      have si: "Suc i < length ns" using less.prems more by simp
      obtain ni where ni: "cells h (fst (ns ! i)) = Some ni" "gnext ni = fst (ns ! Suc i)"
        using nx [OF less.prems(3)] si by auto
      have "split_loop h (fst (ns ! Suc i)) (fst (ns ! Suc (Suc j)))
          = Some (fst (ns ! (Suc i + (length ns - 1 - Suc (Suc j)) div 2)))"
        using less.hyps [of "Suc (Suc j)" "Suc i"] less.prems more si by simp
      moreover have "(length ns - 1 - j) div 2 = Suc ((length ns - 1 - Suc (Suc j)) div 2)"
      proof -
        have "length ns - 1 - j = Suc (Suc (length ns - 1 - Suc (Suc j)))" using more by simp
        then show ?thesis by simp
      qed
      ultimately show ?thesis
        using True more nj nj' ni by (simp add: split_loop.simps [of h "fst (ns ! i)"])
    qed
  qed
qed

definition sorted_from :: "('a \<Rightarrow> 'a \<Rightarrow> int) \<Rightarrow> 'a gheap \<Rightarrow> nat \<Rightarrow> (nat \<times> 'a) list \<Rightarrow> 'a gheap \<times> nat \<Rightarrow> bool" where
  "sorted_from cmp h pr ns r \<longleftrightarrow>
    seg (cells (fst r)) (if length ns \<le> 1 then pr else 0) (g_sort (ncmp cmp) ns) 0
    \<and> snd r = first_ptr (g_sort (ncmp cmp) ns) 0
    \<and> same_outside (fst ` set ns) h (fst r) \<and> brk (fst r) = brk h"

lemma seg_outside:
  "same_outside P h h' \<Longrightarrow> fst ` set ns \<inter> P = {} \<Longrightarrow> seg (cells h) pr ns q \<Longrightarrow> seg (cells h') pr ns q"
  using seg_cong [of ns "cells h" "cells h'"] by (auto simp: same_outside_def disjoint_iff)

lemma seg_cut:
  assumes "seg (cells h) pr (a @ m # b) 0" "distinct (map fst (a @ m # b))"
  shows "\<exists>h'. set_next h (fst m) 0 = Some h' \<and> seg (cells h') pr (a @ [m]) 0
    \<and> seg (cells h') (fst m) b 0 \<and> same_outside {fst m} h h' \<and> brk h' = brk h"
  using assms by (auto simp: set_next_def same_outside_def)

lemma sort_real_seg:
  assumes "seg (cells h) pr ns 0" "distinct (map fst ns)"
  shows "\<exists>r. g_list_sort_real cmp h (first_ptr ns 0) = Some r \<and> sorted_from cmp h pr ns r"
  using assms
proof (induction "length ns" arbitrary: ns h pr rule: less_induct)
  case less
  show ?case
  proof (cases "length ns \<le> 1")
    case True
    then have "ns = [] \<or> (\<exists>n. ns = [n])" by (cases ns) auto
    with less.prems True show ?thesis
      by (auto simp: g_list_sort_real.simps [of cmp h] sorted_from_def g_sort.simps same_outside_def)
  next
    case False
    define k where "k = length ns div 2"
    define a where "a = take (k - 1) ns"
    define m where "m = ns ! (k - 1)"
    define b where "b = drop k ns"
    have k: "0 < k" "k < length ns" using False by (auto simp: k_def)
    have nsne: "ns \<noteq> []" using k(2) by (cases ns) simp_all
    have ns: "ns = a @ m # b" using k id_take_nth_drop [of "k - 1" ns] by (simp add: a_def m_def b_def)
    have tk: "take k ns = a @ [m]" using k take_Suc_conv_app_nth [of "k - 1" ns] by (simp add: a_def m_def)
    obtain n0 where n0: "cells h (fst (ns ! 0)) = Some n0" "gnext n0 = fst (ns ! 1)" "fst (ns ! 1) \<noteq> 0"
    proof -
      have "0 < length ns" "Suc 0 < length ns" using False by linarith+
      with seg_nth [OF less.prems(1), of 0] show ?thesis using that by auto
    qed
    have l0: "first_ptr ns 0 = fst (ns ! 0)" "fst (ns ! 0) \<noteq> 0"
      using False less.prems(1) by (cases ns; auto)+
    have "(length ns - 1 - 1) div 2 = k - 1" using False by (simp add: k_def)
    then have sp: "split_loop h (fst (ns ! 0)) (fst (ns ! 1)) = Some (fst m)"
      using split_loop_seg [OF less.prems(1), of 1 0] False nsne by (simp add: m_def)
    obtain nm where nm: "cells h (fst m) = Some nm" "gnext nm = first_ptr b 0"
      using less.prems(1) by (auto simp: ns)
    obtain h1 where h1: "set_next h (fst m) 0 = Some h1" "seg (cells h1) pr (a @ [m]) 0"
      "seg (cells h1) (fst m) b 0" "same_outside {fst m} h h1" "brk h1 = brk h"
      using seg_cut [of h pr a m b] less.prems ns by blast
    have d: "distinct (map fst (a @ [m]))" "distinct (map fst b)"
      "fst ` set (a @ [m]) \<inter> fst ` set b = {}"
      "fst ` set b \<inter> fst ` set (a @ [m]) = {}"
      using less.prems(2) by (auto simp: ns image_Un)
    obtain h2 l2 where r2: "g_list_sort_real cmp h1 (first_ptr (a @ [m]) 0) = Some (h2, l2)"
      "sorted_from cmp h1 pr (a @ [m]) (h2, l2)"
      using less.hyps [OF _ h1(2) d(1)] k tk by (metis length_take min.absorb2 order_less_imp_le surj_pair)
    have b2: "seg (cells h2) (fst m) b 0"
      using r2(2) by (intro seg_outside [OF _ d(4) h1(3)]) (simp add: sorted_from_def)
    obtain h3 l3 where r3: "g_list_sort_real cmp h2 (first_ptr b 0) = Some (h3, l3)"
      "sorted_from cmp h2 (fst m) b (h3, l3)"
      using less.hyps [OF _ b2 d(2)] k by (metis b_def diff_less length_drop less_trans surj_pair)
    let ?s1 = "g_sort (ncmp cmp) (a @ [m])" and ?s2 = "g_sort (ncmp cmp) b"
    define p1 where "p1 = (if length (a @ [m]) \<le> 1 then pr else 0)"
    define p2 where "p2 = (if length b \<le> 1 then fst m else 0)"
    have s1: "seg (cells h3) p1 ?s1 0"
      using r2(2) r3(2) d(3) seg_outside [of "fst ` set b" h2 h3 ?s1 p1 0]
      by (simp add: sorted_from_def p1_def)
    have s2: "seg (cells h3) p2 ?s2 0" using r3(2) by (simp add: sorted_from_def p2_def)
    have "0 < length ?s1" "0 < length ?s2" using k by (simp_all add: b_def)
    then have ne: "?s1 \<noteq> []" "?s2 \<noteq> []" by blast+
    obtain r where r: "merge_loop cmp h3 0 (first_ptr ?s1 0) (first_ptr ?s2 0) 0 0 = Some r"
      "merged h3 0 0 0 (fst ` set (?s1 @ ?s2)) (g_merge (ncmp cmp) ?s1 ?s2) r"
      using merge_loop_seg [OF s1 s2, of 0 0 cmp 0] d ne by (auto simp: image_Un)
    have "g_list_sort_real cmp h (first_ptr ns 0) = Some r"
    proof -
      have "first_ptr (a @ [m]) 0 = fst (ns ! 0)" using l0(1) by (simp add: ns)
      moreover have "l2 = first_ptr ?s1 0" "l3 = first_ptr ?s2 0"
        using r2(2) r3(2) by (simp_all add: sorted_from_def)
      ultimately show ?thesis
        using n0 l0 sp nm h1(1) r2(1) r3(1) r(1)
        by (subst g_list_sort_real.simps) (simp add: g_list_sort_merge_def)
    qed
    moreover have "g_sort (ncmp cmp) ns = g_merge (ncmp cmp) ?s1 ?s2"
      using False tk by (subst g_sort.simps) (simp add: k_def [symmetric] b_def)
    moreover have "same_outside (fst ` set ns) h (fst r)"
      using r(2) h1(4) r2(2) r3(2) by (auto simp: sorted_from_def merged_def same_outside_def ns image_Un)
    ultimately show ?thesis
      using r(2) False h1(5) r2(2) r3(2) by (auto simp: sorted_from_def merged_def)
  qed
qed

lemma g_list_sort_glist:
  assumes "glist h l ns"
  shows "\<exists>h' l'. g_list_sort cmp h l = Some (h', l') \<and> glist h' l' (g_sort (ncmp cmp) ns)
    \<and> same_outside (fst ` set ns) h h' \<and> brk h' = brk h"
proof -
  have "seg (cells h) 0 ns 0" "distinct (map fst ns)" "l = first_ptr ns 0"
    using assms by (simp_all add: glist_def)
  with sort_real_seg [of h 0 ns cmp] show ?thesis
    by (auto simp: g_list_sort_def sorted_from_def glist_def)
qed

text \<open>What a comparator has to be, on the elements it is used for, to sort them.\<close>

definition total_preorder_on :: "'a set \<Rightarrow> ('a \<Rightarrow> 'a \<Rightarrow> int) \<Rightarrow> bool" where
  "total_preorder_on S cmp \<longleftrightarrow>
    (\<forall>a \<in> S. \<forall>b \<in> S. cmp a b \<le> 0 \<or> cmp b a \<le> 0)
    \<and> (\<forall>a \<in> S. \<forall>b \<in> S. \<forall>c \<in> S. cmp a b \<le> 0 \<longrightarrow> cmp b c \<le> 0 \<longrightarrow> cmp a c \<le> 0)"

lemma sorted_g_merge:
  assumes "total_preorder_on S cmp" "set xs \<union> set ys \<subseteq> S"
    and "sorted_wrt (\<lambda>a b. cmp a b \<le> 0) xs" "sorted_wrt (\<lambda>a b. cmp a b \<le> 0) ys"
  shows "sorted_wrt (\<lambda>a b. cmp a b \<le> 0) (g_merge cmp xs ys)"
  using assms
proof (induction cmp xs ys rule: g_merge.induct)
  case (3 cmp x xs y ys)
  have tr: "cmp a c \<le> 0" if "cmp a b \<le> 0" "cmp b c \<le> 0" "a \<in> S" "b \<in> S" "c \<in> S" for a b c
    using 3(3) that unfolding total_preorder_on_def by blast
  have S: "x \<in> S" "y \<in> S" "set xs \<subseteq> S" "set ys \<subseteq> S" using 3(4) by auto
  show ?case
  proof (cases "cmp x y \<le> 0")
    case True
    have "cmp x z \<le> 0" if "z \<in> set xs \<union> set (y # ys)" for z
      using that True 3(5,6) tr [OF True _ S(1,2)] S by auto
    with 3 True show ?thesis by simp
  next
    case False
    then have yx: "cmp y x \<le> 0" using 3(3) S unfolding total_preorder_on_def by blast
    have "cmp y z \<le> 0" if "z \<in> set (x # xs) \<union> set ys" for z
      using that yx 3(5,6) tr [OF yx _ S(2,1)] S by auto
    with 3 False show ?thesis by simp
  qed
qed auto

lemma sorted_g_sort:
  assumes "total_preorder_on S cmp" "set xs \<subseteq> S"
  shows "sorted_wrt (\<lambda>a b. cmp a b \<le> 0) (g_sort cmp xs)"
  using assms
proof (induction cmp xs rule: g_sort.induct)
  case (1 cmp xs)
  show ?case
  proof (cases "length xs \<le> 1")
    case True
    then show ?thesis by (cases xs) (auto simp: g_sort.simps)
  next
    case False
    have sub: "set (take (length xs div 2) xs) \<subseteq> S" "set (drop (length xs div 2) xs) \<subseteq> S"
      using 1(4) by (auto dest: in_set_takeD in_set_dropD)
    show ?thesis
      using False 1(1) [OF False 1(3) sub(1)] 1(2) [OF False 1(3) sub(2)] 1(3) sub
      by (subst g_sort.simps) (auto intro!: sorted_g_merge)
  qed
qed

section \<open>Properties\<close>

text \<open>
  C14: \<open>g_list_sort\<close> on a well-formed list returns without touching an unallocated cell or any
  cell outside the list, whatever the comparison function; the result is a well-formed list of
  the same nodes, whose data are the merge sort of the data. No node is lost or duplicated.
\<close>

theorem g_list_sort_refines:
  assumes "glist h l ns"
  shows "\<exists>h' l' ns'. g_list_sort cmp h l = Some (h', l') \<and> glist h' l' ns'
    \<and> map snd ns' = g_sort cmp (map snd ns) \<and> mset ns' = mset ns
    \<and> (\<forall>p. p \<notin> fst ` set ns \<longrightarrow> cells h' p = cells h p)"
  using g_list_sort_glist [OF assms, of cmp] map_g_sort [of snd cmp ns]
  by (auto simp: same_outside_def intro!: exI [of _ "g_sort (ncmp cmp) ns"])

definition sample_heap :: "int gheap" where
  "sample_heap = \<lparr>cells = [1 \<mapsto> \<lparr>gdata = 5, gnext = 2, gprev = 0\<rparr>,
     2 \<mapsto> \<lparr>gdata = 3, gnext = 0, gprev = 1\<rparr>], brk = 3\<rparr>"

lemma sample_heap_glist: "glist sample_heap 1 [(1, 5), (2, 3)]"
  by (simp add: glist_def sample_heap_def)

theorem g_list_sort_refines_witness:
  "\<exists>h' l' ns'. g_list_sort (\<lambda>a b. a - b) sample_heap 1 = Some (h', l') \<and> glist h' l' ns'
    \<and> map snd ns' = g_sort (\<lambda>a b. a - b) (map snd [(1 :: nat, 5), (2, 3)])
    \<and> mset ns' = mset [(1, 5), (2, 3)]"
  using g_list_sort_refines [OF sample_heap_glist, of "\<lambda>a b. a - b"] by blast



text \<open>
  C28: \<open>g_list_append\<close> adds the datum at the end of a well-formed list, \<open>g_list_delete_link\<close> takes
  exactly the given node out and frees it, and both leave a well-formed list and heap.
\<close>

theorem g_list_append_delete:
  assumes "glist h l (a @ n # b)" "heap_ok h"
  shows "(\<exists>h' l'. g_list_append h l x = Some (h', l')
      \<and> glist h' l' (a @ n # b @ [(brk h, x)]) \<and> heap_ok h')
    \<and> (\<exists>h' l'. g_list_delete_link h l (fst n) = Some (h', l') \<and> glist h' l' (a @ b)
      \<and> cells h' (fst n) = None \<and> heap_ok h')"
  using g_list_append_glist [OF assms, of x] g_list_delete_link_glist [OF assms(1)] assms(2) by auto

theorem g_list_append_delete_witness:
  "(\<exists>h' l'. g_list_append sample_heap 1 7 = Some (h', l')
      \<and> glist h' l' ([(1, 5)] @ (2, 3) # [] @ [(brk sample_heap, 7)]) \<and> heap_ok h')
    \<and> (\<exists>h' l'. g_list_delete_link sample_heap 1 (fst (2 :: nat, 3 :: int)) = Some (h', l')
      \<and> glist h' l' ([(1, 5)] @ []) \<and> cells h' (fst (2 :: nat, 3 :: int)) = None \<and> heap_ok h')"
proof (rule g_list_append_delete)
  show "glist sample_heap 1 ([(1, 5)] @ (2, 3) # [])" using sample_heap_glist by simp
  show "heap_ok sample_heap" by (auto simp: heap_ok_def sample_heap_def)
qed

end
