(* ===== verification/Topo.thy ===== *)
theory Topo
  imports Cpumask Glist
begin

text \<open>
  The data model of types.h and irqbalance.h and the operations on interrupt lists of
  classify.c: \<open>for_each_irq\<close>, \<open>migrate_irq\<close>, \<open>sort_irq_list\<close>, \<open>get_irq_info\<close>.

  Objects and interrupts live in a store and are referred to by a natural number, their
  address. A \<open>GList\<close> of pointers is the list of these numbers: theory \<open>Glist\<close> shows that the
  C lists implement it. \<open>list_ref\<close> names a list that is passed by address. A read through a
  NULL pointer is the result \<open>None\<close> of a step.
\<close>

section \<open>Types\<close>

type_synonym oref = nat
type_synonym iref = nat

datatype obj_type = OBJ_TYPE_CPU | OBJ_TYPE_CACHE | OBJ_TYPE_PACKAGE | OBJ_TYPE_NODE

datatype hint_policy = HINT_POLICY_IGNORE | HINT_POLICY_SUBSET | HINT_POLICY_EXACT

definition BALANCE_NONE :: int where "BALANCE_NONE = 0"
definition BALANCE_PACKAGE :: int where "BALANCE_PACKAGE = 1"
definition BALANCE_CACHE :: int where "BALANCE_CACHE = 2"
definition BALANCE_CORE :: int where "BALANCE_CORE = 3"

lemmas balance_levels = BALANCE_NONE_def BALANCE_PACKAGE_def BALANCE_CACHE_def BALANCE_CORE_def

text \<open>\<open>obj_type_list\<close> is written but never read and is left out.\<close>

record topo_obj =
  load :: u64
  last_load :: u64
  obj_type :: obj_type
  number :: int
  powersave_mode :: bool
  mask :: cpumask
  interrupts :: "iref list"
  parent :: "oref option"
  children :: "oref list"

record irq_info =
  irq :: int
  iclass :: int
  itype :: int
  level :: int
  flags :: int
  numa_node :: "oref option"
  icpumask :: cpumask
  affinity_hint :: cpumask
  hint_policy :: hint_policy
  irq_count :: u64
  last_irq_count :: u64
  iload :: u64
  moved :: bool
  assigned_obj :: "oref option"

text \<open>The global variables the balancer reads and writes.\<close>

record gstate =
  objs :: "oref \<Rightarrow> topo_obj"
  irqs :: "iref \<Rightarrow> irq_info"
  interrupts_db :: "iref list"
  banned_irqs :: "iref list"
  rebalance_irq_list :: "iref list"
  numa_nodes :: "oref list"
  packages :: "oref list"
  cache_domains :: "oref list"
  cpu_objs :: "oref list"
  numa_avail :: bool
  banned_cpus :: cpumask
  unbanned_cpus :: cpumask
  power_thresh :: u64
  cycle_count :: u64

definition upd_obj :: "oref \<Rightarrow> (topo_obj \<Rightarrow> topo_obj) \<Rightarrow> gstate \<Rightarrow> gstate" where
  "upd_obj d f s = s\<lparr>objs := (objs s)(d := f (objs s d))\<rparr>"

definition upd_irq :: "iref \<Rightarrow> (irq_info \<Rightarrow> irq_info) \<Rightarrow> gstate \<Rightarrow> gstate" where
  "upd_irq i f s = s\<lparr>irqs := (irqs s)(i := f (irqs s i))\<rparr>"

datatype list_ref = ObjInts oref | Rebalance

fun get_list :: "gstate \<Rightarrow> list_ref \<Rightarrow> iref list" where
  "get_list s (ObjInts d) = interrupts (objs s d)"
| "get_list s Rebalance = rebalance_irq_list s"

fun put_list :: "gstate \<Rightarrow> list_ref \<Rightarrow> iref list \<Rightarrow> gstate" where
  "put_list s (ObjInts d) l = upd_obj d (\<lambda>ob. ob\<lparr>interrupts := l\<rparr>) s"
| "put_list s Rebalance l = s\<lparr>rebalance_irq_list := l\<rparr>"

section \<open>Iteration\<close>

text \<open>
  Both iterators read the next node before they call back, so a callback may unlink the
  node it is called for: the iteration is over the list as it was at the start.
\<close>

fun for_each :: "('a \<Rightarrow> 's \<Rightarrow> 's option) \<Rightarrow> 'a list \<Rightarrow> 's \<Rightarrow> 's option" where
  "for_each cb [] s = Some s"
| "for_each cb (x # xs) s = (case cb x s of None \<Rightarrow> None | Some s' \<Rightarrow> for_each cb xs s')"

definition for_each_object :: "oref list \<Rightarrow> (oref \<Rightarrow> 's \<Rightarrow> 's option) \<Rightarrow> 's \<Rightarrow> 's option" where
  "for_each_object list cb s = for_each cb list s"

text \<open>An empty list (NULL) means the whole data base: \<open>list ? list : interrupts_db\<close>.\<close>

definition for_each_irq :: "gstate \<Rightarrow> iref list \<Rightarrow> (iref \<Rightarrow> 's \<Rightarrow> 's option) \<Rightarrow> 's \<Rightarrow> 's option" where
  "for_each_irq g list cb s = for_each cb (if list \<noteq> [] then list else interrupts_db g) s"

section \<open>Lookup, moving and sorting\<close>

definition compare_ints :: "irq_info \<Rightarrow> irq_info \<Rightarrow> int" where
  "compare_ints a b = irq a - irq b"

definition find_irq :: "gstate \<Rightarrow> int \<Rightarrow> iref list \<Rightarrow> iref option" where
  "find_irq s n l = List.find (\<lambda>e. irq (irqs s e) - n = 0) l"

definition get_irq_info :: "gstate \<Rightarrow> int \<Rightarrow> iref option" where
  "get_irq_info s n =
    (case find_irq s n (interrupts_db s) of
       Some e \<Rightarrow> Some e
     | None \<Rightarrow> find_irq s n (banned_irqs s))"

definition migrate_irq :: "list_ref \<Rightarrow> list_ref \<Rightarrow> iref \<Rightarrow> gstate \<Rightarrow> gstate" where
  "migrate_irq src dst info s =
    (case find_irq s (irq (irqs s info)) (get_list s src) of
       None \<Rightarrow> s
     | Some e \<Rightarrow>
         let s = put_list s src (remove1 e (get_list s src));
             s = put_list s dst (get_list s dst @ [e])
         in upd_irq info (\<lambda>i. i\<lparr>moved := True\<rparr>) s)"

text \<open>The last comparison is of the addresses.\<close>

definition sort_irqs :: "gstate \<Rightarrow> iref \<Rightarrow> iref \<Rightarrow> int" where
  "sort_irqs s a b =
    (if iclass (irqs s a) < iclass (irqs s b) \<or> iload (irqs s a) < iload (irqs s b) \<or> a < b
     then 1 else - 1)"

definition sort_irq_list :: "list_ref \<Rightarrow> gstate \<Rightarrow> gstate" where
  "sort_irq_list l s = put_list s l (g_sort (sort_irqs s) (get_list s l))"

definition set_assigned :: "oref option \<Rightarrow> iref \<Rightarrow> gstate \<Rightarrow> gstate" where
  "set_assigned d i s = upd_irq i (\<lambda>ii. ii\<lparr>assigned_obj := d\<rparr>) s"

section \<open>Rules for the loops\<close>

text \<open>The invariant may speak of the elements that are still to come.\<close>

lemma for_each_total:
  assumes "P xs s"
    and "\<And>x xs s. P (x # xs) s \<Longrightarrow> \<exists>s'. cb x s = Some s' \<and> P xs s'"
  shows "\<exists>s'. for_each cb xs s = Some s' \<and> P [] s'"
  using assms(1)
proof (induction xs arbitrary: s)
  case (Cons x xs)
  then obtain s1 where "cb x s = Some s1" "P xs s1" using assms(2) by blast
  with Cons.IH show ?case by simp
qed simp

lemma for_each_keeps:
  assumes "for_each cb xs s = Some s'" "P s"
    and "\<And>x s s'. x \<in> set xs \<Longrightarrow> P s \<Longrightarrow> cb x s = Some s' \<Longrightarrow> P s'"
  shows "P s'"
  using assms
proof (induction xs arbitrary: s)
  case (Cons x xs)
  then obtain s1 where s1: "cb x s = Some s1" "for_each cb xs s1 = Some s'"
    by (auto split: option.splits)
  then have "P s1" using Cons.prems(2,3) by auto
  then show ?case using Cons.IH [OF s1(2)] Cons.prems(3) by auto
qed simp

lemma for_each_pure: "for_each (\<lambda>x s. Some (f x s)) xs s = Some (fold f xs s)"
  by (induction xs arbitrary: s) auto

lemma for_each_append:
  "for_each cb (xs @ ys) s = (case for_each cb xs s of None \<Rightarrow> None | Some s' \<Rightarrow> for_each cb ys s')"
  by (induction xs arbitrary: s) (auto split: option.splits)

section \<open>Reading an updated store\<close>

lemma upd_obj_simps [simp]:
  "objs (upd_obj d f s) = (objs s)(d := f (objs s d))" "irqs (upd_obj d f s) = irqs s"
  "interrupts_db (upd_obj d f s) = interrupts_db s"
  "rebalance_irq_list (upd_obj d f s) = rebalance_irq_list s"
  "banned_irqs (upd_obj d f s) = banned_irqs s"
  "numa_nodes (upd_obj d f s) = numa_nodes s" "packages (upd_obj d f s) = packages s"
  "cache_domains (upd_obj d f s) = cache_domains s" "cpu_objs (upd_obj d f s) = cpu_objs s"
  "numa_avail (upd_obj d f s) = numa_avail s" "banned_cpus (upd_obj d f s) = banned_cpus s"
  "unbanned_cpus (upd_obj d f s) = unbanned_cpus s"
  "power_thresh (upd_obj d f s) = power_thresh s" "cycle_count (upd_obj d f s) = cycle_count s"
  by (simp_all add: upd_obj_def)

lemma upd_irq_simps [simp]:
  "irqs (upd_irq d f s) = (irqs s)(d := f (irqs s d))" "objs (upd_irq d f s) = objs s"
  "interrupts_db (upd_irq d f s) = interrupts_db s"
  "rebalance_irq_list (upd_irq d f s) = rebalance_irq_list s"
  "banned_irqs (upd_irq d f s) = banned_irqs s"
  "numa_nodes (upd_irq d f s) = numa_nodes s" "packages (upd_irq d f s) = packages s"
  "cache_domains (upd_irq d f s) = cache_domains s" "cpu_objs (upd_irq d f s) = cpu_objs s"
  "numa_avail (upd_irq d f s) = numa_avail s" "banned_cpus (upd_irq d f s) = banned_cpus s"
  "unbanned_cpus (upd_irq d f s) = unbanned_cpus s"
  "power_thresh (upd_irq d f s) = power_thresh s" "cycle_count (upd_irq d f s) = cycle_count s"
  by (simp_all add: upd_irq_def)

lemma put_list_simps [simp]:
  "irqs (put_list s r l) = irqs s" "interrupts_db (put_list s r l) = interrupts_db s"
  "get_list (put_list s r l) r' = (if r' = r then l else get_list s r')"
  "numa_nodes (put_list s r l) = numa_nodes s" "packages (put_list s r l) = packages s"
  "cache_domains (put_list s r l) = cache_domains s" "cpu_objs (put_list s r l) = cpu_objs s"
  "numa_avail (put_list s r l) = numa_avail s" "banned_cpus (put_list s r l) = banned_cpus s"
  "unbanned_cpus (put_list s r l) = unbanned_cpus s" "banned_irqs (put_list s r l) = banned_irqs s"
  "power_thresh (put_list s r l) = power_thresh s" "cycle_count (put_list s r l) = cycle_count s"
  by (cases r; cases r'; simp; fail)+

end
