(* ===== verification/Irq_Moves.thy ===== *)
theory Irq_Moves
  imports Topo
begin

text \<open>
  What moving an interrupt promises. The abstraction of a balancer state is the place of
  every interrupt: in the list of one object, pending in \<open>rebalance_irq_list\<close>, or in no list.
  \<open>irqs_consistent\<close> is the invariant that the lists and the \<open>assigned_obj\<close> pointers agree
  with one such place for each interrupt, so that none is lost and none is in two lists.

  Two moves are all the balancer does: \<open>evict\<close> takes an interrupt from its object's list to the
  rebalance list, \<open>settle\<close> gives a pending or assigned one to an object. The step relation
  \<open>irq_step\<close> is the abstract balancer; irqlist.c and placement.c are shown to refine it.
\<close>

datatype place = At oref | Pending | Nowhere

definition place_of :: "gstate \<Rightarrow> iref \<Rightarrow> place" where
  "place_of s i =
    (if i \<notin> set (interrupts_db s) then Nowhere
     else case assigned_obj (irqs s i) of
       Some d \<Rightarrow> At d
     | None \<Rightarrow> if i \<in> set (rebalance_irq_list s) then Pending else Nowhere)"

definition irqs_consistent :: "gstate \<Rightarrow> bool" where
  "irqs_consistent s \<longleftrightarrow>
    distinct (interrupts_db s)
    \<and> inj_on (\<lambda>i. irq (irqs s i)) (set (interrupts_db s))
    \<and> distinct (rebalance_irq_list s)
    \<and> set (rebalance_irq_list s) \<subseteq> {i \<in> set (interrupts_db s). assigned_obj (irqs s i) = None}
    \<and> (\<forall>d. distinct (interrupts (objs s d))
        \<and> set (interrupts (objs s d)) = {i \<in> set (interrupts_db s). assigned_obj (irqs s i) = Some d})"

section \<open>The two moves\<close>

definition evict :: "iref \<Rightarrow> gstate \<Rightarrow> gstate" where
  "evict i s =
    (case assigned_obj (irqs s i) of
       None \<Rightarrow> s
     | Some d \<Rightarrow> set_assigned None i (migrate_irq (ObjInts d) Rebalance i s))"

definition settle :: "list_ref \<Rightarrow> oref \<Rightarrow> iref \<Rightarrow> gstate \<Rightarrow> gstate" where
  "settle src a i s = set_assigned (Some a) i (migrate_irq src (ObjInts a) i s)"

definition in_list :: "gstate \<Rightarrow> list_ref \<Rightarrow> iref \<Rightarrow> bool" where
  "in_list s r i \<longleftrightarrow> i \<in> set (interrupts_db s) \<and> i \<in> set (get_list s r)"

lemma consistent_list_in_db:
  "irqs_consistent s \<Longrightarrow> set (get_list s r) \<subseteq> set (interrupts_db s)"
  by (cases r) (auto simp: irqs_consistent_def)

lemma consistent_in_list_iff:
  assumes "irqs_consistent s"
  shows "i \<in> set (get_list s (ObjInts d)) \<longleftrightarrow> place_of s i = At d"
    and "i \<in> set (get_list s Rebalance) \<longleftrightarrow> place_of s i = Pending"
  using assms by (auto simp: irqs_consistent_def place_of_def split: option.splits)

lemma find_irq_self:
  assumes "irqs_consistent s" "i \<in> set (get_list s r)"
  shows "find_irq s (irq (irqs s i)) (get_list s r) = Some i"
proof -
  have inj: "inj_on (\<lambda>i. irq (irqs s i)) (set (get_list s r))"
    using assms(1) consistent_list_in_db [OF assms(1), of r]
    by (auto simp: irqs_consistent_def intro: inj_on_subset)
  obtain e where e: "find_irq s (irq (irqs s i)) (get_list s r) = Some e"
    using assms(2) by (cases "find_irq s (irq (irqs s i)) (get_list s r)")
      (auto simp: find_irq_def find_None_iff)
  then have "e \<in> set (get_list s r)" "irq (irqs s e) = irq (irqs s i)"
    using find_Some_iff_nth [of "\<lambda>e. irq (irqs s e) - irq (irqs s i) = 0" "get_list s r" e]
    by (auto simp: find_irq_def)
  then show ?thesis using inj e assms(2) by (auto simp: inj_on_def)
qed

lemma migrate_irq_found:
  assumes "irqs_consistent s" "i \<in> set (get_list s src)" "src \<noteq> dst"
  shows "migrate_irq src dst i s =
    upd_irq i (\<lambda>i. i\<lparr>moved := True\<rparr>)
      (put_list (put_list s src (remove1 i (get_list s src))) dst (get_list s dst @ [i]))"
  using find_irq_self [OF assms(1,2)] assms(3) by (simp add: migrate_irq_def Let_def)

fun owner :: "list_ref \<Rightarrow> oref option" where
  "owner (ObjInts d) = Some d"
| "owner Rebalance = None"

lemma irqs_consistent_alt:
  "irqs_consistent s \<longleftrightarrow>
    distinct (interrupts_db s) \<and> inj_on (\<lambda>i. irq (irqs s i)) (set (interrupts_db s))
    \<and> (\<forall>r. distinct (get_list s r)
        \<and> (\<forall>i \<in> set (get_list s r). i \<in> set (interrupts_db s) \<and> assigned_obj (irqs s i) = owner r))
    \<and> (\<forall>i \<in> set (interrupts_db s). \<forall>d. assigned_obj (irqs s i) = Some d \<longrightarrow> i \<in> set (get_list s (ObjInts d)))"
  (is "?l = ?r")
proof
  assume ?l
  then have "distinct (get_list s r) \<and>
      (\<forall>i \<in> set (get_list s r). i \<in> set (interrupts_db s) \<and> assigned_obj (irqs s i) = owner r)" for r
    by (cases r) (auto simp: irqs_consistent_def)
  with \<open>?l\<close> show ?r by (auto simp: irqs_consistent_def)
next
  assume r: ?r
  then have l: "distinct (get_list s r)"
      "i \<in> set (get_list s r) \<Longrightarrow> i \<in> set (interrupts_db s) \<and> assigned_obj (irqs s i) = owner r" for r i
    by blast+
  have "set (interrupts (objs s d)) = {i \<in> set (interrupts_db s). assigned_obj (irqs s i) = Some d}" for d
    using r l(2) [of _ "ObjInts d"] by fastforce
  moreover have "set (rebalance_irq_list s) \<subseteq> {i \<in> set (interrupts_db s). assigned_obj (irqs s i) = None}"
    using l(2) [of _ Rebalance] by auto
  ultimately show ?l
    using r l(1) [of Rebalance] l(1) [of "ObjInts d" for d] by (simp add: irqs_consistent_def)
qed

text \<open>The lists and the assignments after a move from one list to another.\<close>

definition moved_irq :: "list_ref \<Rightarrow> list_ref \<Rightarrow> iref \<Rightarrow> gstate \<Rightarrow> gstate" where
  "moved_irq src dst i s = set_assigned (owner dst) i (migrate_irq src dst i s)"

lemma evict_moved: "assigned_obj (irqs s i) = Some d \<Longrightarrow> evict i s = moved_irq (ObjInts d) Rebalance i s"
  by (simp add: evict_def moved_irq_def)

lemma settle_moved: "settle src a i s = moved_irq src (ObjInts a) i s"
  by (simp add: settle_def moved_irq_def)

lemma get_list_upd_irq [simp]: "get_list (upd_irq i f s) r = get_list s r"
  by (cases r) simp_all

lemma moved_irq_eff:
  assumes "irqs_consistent s" "i \<in> set (get_list s src)" "src \<noteq> dst"
  shows "get_list (moved_irq src dst i s) r =
      (if r = dst then get_list s dst @ [i] else if r = src then remove1 i (get_list s src) else get_list s r)"
    and "irqs (moved_irq src dst i s) =
      (irqs s)(i := (irqs s i)\<lparr>moved := True, assigned_obj := owner dst\<rparr>)"
    and "interrupts_db (moved_irq src dst i s) = interrupts_db s"
  using assms(3) by (auto simp: moved_irq_def set_assigned_def migrate_irq_found [OF assms])

lemma moved_irq_consistent:
  assumes c: "irqs_consistent s" and i: "i \<in> set (get_list s src)" and ne: "src \<noteq> dst"
  shows "irqs_consistent (moved_irq src dst i s)"
proof -
  note eff = moved_irq_eff [OF c i ne]
  from c have d: "\<And>r. distinct (get_list s r)"
    "\<And>r j. j \<in> set (get_list s r) \<Longrightarrow> j \<in> set (interrupts_db s) \<and> assigned_obj (irqs s j) = owner r"
    "\<And>j d. j \<in> set (interrupts_db s) \<Longrightarrow> assigned_obj (irqs s j) = Some d \<Longrightarrow> j \<in> set (get_list s (ObjInts d))"
    "distinct (interrupts_db s)" "inj_on (\<lambda>i. irq (irqs s i)) (set (interrupts_db s))"
    unfolding irqs_consistent_alt by auto
  have own: "owner src \<noteq> owner dst" using ne by (cases src; cases dst) auto
  have other: "i \<notin> set (get_list s r)" if "owner r \<noteq> owner src" for r
    using d(2) [OF i] d(2) [of i r] that by auto
  have rinj: "owner r = owner r' \<longleftrightarrow> r = r'" for r r' by (cases r; cases r') auto
  show ?thesis
    unfolding irqs_consistent_alt eff
  proof (intro conjI allI ballI impI)
    show "distinct (interrupts_db s)" using d(4) .
    show "inj_on (\<lambda>j. irq (((irqs s)(i := (irqs s i)\<lparr>moved := True, assigned_obj := owner dst\<rparr>)) j))
        (set (interrupts_db s))"
    proof -
      have "(\<lambda>j. irq (((irqs s)(i := (irqs s i)\<lparr>moved := True, assigned_obj := owner dst\<rparr>)) j))
          = (\<lambda>j. irq (irqs s j))" by (simp add: fun_eq_iff)
      then show ?thesis using d(5) by simp
    qed
  next
    fix r
    show "distinct (if r = dst then get_list s dst @ [i]
        else if r = src then remove1 i (get_list s src) else get_list s r)"
      using d(1) other [of dst] own by auto
  next
    fix r j
    assume j: "j \<in> set (if r = dst then get_list s dst @ [i]
        else if r = src then remove1 i (get_list s src) else get_list s r)"
    show "j \<in> set (interrupts_db s)"
      using j d(2) [OF i] d(2) [of j] by (auto split: if_splits dest: notin_set_remove1)
    show "assigned_obj (((irqs s)(i := (irqs s i)\<lparr>moved := True, assigned_obj := owner dst\<rparr>)) j) = owner r"
      using j d(1,2) other [of r] by (auto simp: rinj split: if_splits)
  next
    fix j k
    assume "j \<in> set (interrupts_db s)"
      "assigned_obj (((irqs s)(i := (irqs s i)\<lparr>moved := True, assigned_obj := owner dst\<rparr>)) j) = Some k"
    then have j: "j \<in> set (interrupts_db s)" "j = i \<longrightarrow> owner dst = Some k"
      "j \<noteq> i \<longrightarrow> assigned_obj (irqs s j) = Some k"
      by (simp_all split: if_splits)
    show "j \<in> set (if ObjInts k = dst then get_list s dst @ [i]
        else if ObjInts k = src then remove1 i (get_list s src) else get_list s (ObjInts k))"
    proof (cases "j = i")
      case True
      then have "dst = ObjInts k" using j(2) rinj [of dst "ObjInts k"] by simp
      with True show ?thesis by simp
    next
      case False
      then have "j \<in> set (get_list s (ObjInts k))" using d(3) j by blast
      with False show ?thesis by (cases "ObjInts k = dst"; cases "ObjInts k = src"; simp)
    qed
  qed
qed

section \<open>Moves as steps on places\<close>

fun place_ref :: "place \<Rightarrow> list_ref" where
  "place_ref (At d) = ObjInts d"
| "place_ref Pending = Rebalance"
| "place_ref Nowhere = Rebalance"

fun ref_place :: "list_ref \<Rightarrow> place" where
  "ref_place (ObjInts d) = At d"
| "ref_place Rebalance = Pending"

lemma in_list_iff: "irqs_consistent s \<Longrightarrow> i \<in> set (get_list s r) \<longleftrightarrow> place_of s i = ref_place r"
  using consistent_in_list_iff by (cases r) auto

lemma place_moved_irq:
  assumes "irqs_consistent s" "i \<in> set (get_list s src)" "src \<noteq> dst"
  shows "place_of (moved_irq src dst i s) = (place_of s)(i := ref_place dst)"
proof
  fix j
  note c = moved_irq_consistent [OF assms]
  have "i \<in> set (interrupts_db s)" using consistent_list_in_db [OF assms(1)] assms(2) by auto
  show "place_of (moved_irq src dst i s) j = ((place_of s)(i := ref_place dst)) j"
  proof (cases "j = i")
    case True
    then have "j \<in> set (get_list (moved_irq src dst i s) dst)"
      by (simp add: moved_irq_eff(1) [OF assms])
    with in_list_iff [OF c, of j dst] True show ?thesis by simp
  next
    case False
    then have "j \<in> set (rebalance_irq_list (moved_irq src dst i s)) \<longleftrightarrow> j \<in> set (rebalance_irq_list s)"
      using moved_irq_eff(1) [OF assms, of Rebalance] by auto
    with False show ?thesis
      by (auto simp: place_of_def moved_irq_eff(2,3) [OF assms] split: option.splits)
  qed
qed

inductive irq_step :: "(iref \<Rightarrow> place) \<Rightarrow> (iref \<Rightarrow> place) \<Rightarrow> bool" where
  evict_step: "p i = At d \<Longrightarrow> irq_step p (p(i := Pending))"
| settle_step: "p i \<noteq> Nowhere \<Longrightarrow> irq_step p (p(i := At d))"

inductive_cases irq_stepE: "irq_step p q"

abbreviation irq_steps :: "(iref \<Rightarrow> place) \<Rightarrow> (iref \<Rightarrow> place) \<Rightarrow> bool" where
  "irq_steps \<equiv> irq_step\<^sup>*\<^sup>*"

text \<open>No step loses an interrupt, and none touches an interrupt that is in no list.\<close>

lemma irq_steps_conserve: "irq_steps p q \<Longrightarrow> q i = Nowhere \<longleftrightarrow> p i = Nowhere"
  by (induction rule: rtranclp_induct) (auto elim!: irq_stepE split: if_splits)

section \<open>The interface to the balancer\<close>

locale irq_mover =
  fixes ok :: "'s \<Rightarrow> bool" and at :: "'s \<Rightarrow> iref \<Rightarrow> place" and mv :: "place \<Rightarrow> iref \<Rightarrow> 's \<Rightarrow> 's"
  assumes mv_ok: "ok s \<Longrightarrow> at s i \<noteq> Nowhere \<Longrightarrow> p \<noteq> Nowhere \<Longrightarrow> at s i \<noteq> p \<Longrightarrow> ok (mv p i s)"
    and mv_at: "ok s \<Longrightarrow> at s i \<noteq> Nowhere \<Longrightarrow> p \<noteq> Nowhere \<Longrightarrow> at s i \<noteq> p
      \<Longrightarrow> at (mv p i s) = (at s)(i := p)"
begin

lemma mv_step:
  assumes "ok s" "at s i \<noteq> Nowhere" "p \<noteq> Nowhere" "at s i \<noteq> p"
  shows "ok (mv p i s) \<and> irq_step (at s) (at (mv p i s))"
proof (cases p)
  case Pending
  then show ?thesis
    using assms mv_ok [OF assms] mv_at [OF assms] by (cases "at s i") (auto intro: evict_step)
qed (use assms mv_ok [OF assms] mv_at [OF assms] in \<open>auto intro: settle_step\<close>)

text \<open>Moving all of a list to one place.\<close>

lemma mv_all:
  assumes "ok s" "distinct is" "\<forall>i \<in> set is. at s i \<noteq> Nowhere \<and> at s i \<noteq> p" "p \<noteq> Nowhere"
  shows "ok (fold (mv p) is s) \<and> at (fold (mv p) is s) = (\<lambda>i. if i \<in> set is then p else at s i)
    \<and> irq_steps (at s) (at (fold (mv p) is s))"
  using assms
proof (induction "is" arbitrary: s)
  case (Cons i js)
  have i: "at s i \<noteq> Nowhere" "at s i \<noteq> p" using Cons.prems by auto
  note m = mv_ok [OF Cons.prems(1) i(1) Cons.prems(4) i(2)]
    mv_at [OF Cons.prems(1) i(1) Cons.prems(4) i(2)]
    mv_step [OF Cons.prems(1) i(1) Cons.prems(4) i(2)]
  have "\<forall>j \<in> set js. at (mv p i s) j \<noteq> Nowhere \<and> at (mv p i s) j \<noteq> p"
    using Cons.prems m(2) by auto
  from Cons.IH [OF m(1) _ this Cons.prems(4)] Cons.prems(2)
  have IH: "ok (fold (mv p) js (mv p i s))"
    "at (fold (mv p) js (mv p i s)) = (\<lambda>j. if j \<in> set js then p else at (mv p i s) j)"
    "irq_steps (at (mv p i s)) (at (fold (mv p) js (mv p i s)))" by auto
  have "irq_steps (at s) (at (fold (mv p) js (mv p i s)))"
    using m(3) IH(3) by (meson converse_rtranclp_into_rtranclp)
  moreover have "at (fold (mv p) js (mv p i s)) = (\<lambda>j. if j \<in> set (i # js) then p else at s j)"
    unfolding IH(2) using m(2) by auto
  ultimately show ?case using IH(1) by simp
qed simp

end

definition move_to :: "place \<Rightarrow> iref \<Rightarrow> gstate \<Rightarrow> gstate" where
  "move_to p i s = moved_irq (place_ref (place_of s i)) (place_ref p) i s"

interpretation mover: irq_mover irqs_consistent place_of move_to
proof
  fix s i p
  assume *: "irqs_consistent s" "place_of s i \<noteq> Nowhere" "p \<noteq> Nowhere" "place_of s i \<noteq> p"
  have "ref_place (place_ref q) = q" if "q \<noteq> Nowhere" for q using that by (cases q) auto
  then have "i \<in> set (get_list s (place_ref (place_of s i)))" "place_ref (place_of s i) \<noteq> place_ref p"
    "ref_place (place_ref p) = p"
    using in_list_iff [OF *(1)] *(2-4) by (auto, metis)
  then show "irqs_consistent (move_to p i s)" "place_of (move_to p i s) = (place_of s)(i := p)"
    using *(1) by (simp_all add: move_to_def moved_irq_consistent place_moved_irq)
qed

end
