(* ===== verification/Irqlist.thy ===== *)
theory Irqlist
  imports Irq_Moves Complex_Main
begin

text \<open>
  irqlist.c: finding overloaded objects and taking interrupts from them.

  The code computes \<open>std_deviation\<close> in floating point as the square root of an integer
  and uses it in two comparisons only. The model keeps that integer, \<open>variance\<close>, and
  compares squares; \<open>load_low_sqrt\<close> and \<open>load_high_sqrt\<close> show that these are the comparisons
  with the real square root. The rounding of the floating point operations is not modelled.
\<close>

record load_balance_info =
  total_load :: u64
  avg_load :: u64
  min_load :: u64
  adjustment_load :: u64
  load_sources :: int
  deviations :: u64
  variance :: u64
  num_over :: u32
  num_under :: u32
  num_powersave :: u32
  powersave :: "oref option"

definition empty_info :: load_balance_info where
  "empty_info = \<lparr>total_load = 0, avg_load = 0, min_load = 0, adjustment_load = 0, load_sources = 0,
     deviations = 0, variance = 0, num_over = 0, num_under = 0, num_powersave = 0, powersave = None\<rparr>"

type_synonym lb_state = "load_balance_info \<times> gstate"

definition gather_load_stats :: "oref \<Rightarrow> lb_state \<Rightarrow> lb_state option" where
  "gather_load_stats d = (\<lambda>(info, s).
    let l = load (objs s d);
        info = (if min_load info = 0 \<or> l < min_load info then info\<lparr>min_load := l\<rparr> else info)
    in Some (info\<lparr>total_load := total_load info + l, load_sources := load_sources info + 1\<rparr>, s))"

definition compute_deviations :: "oref \<Rightarrow> lb_state \<Rightarrow> lb_state option" where
  "compute_deviations d = (\<lambda>(info, s).
    let l = load (objs s d);
        deviation = (if l > avg_load info then l - avg_load info else avg_load info - l)
    in Some (info\<lparr>deviations := deviations info + deviation * deviation\<rparr>, s))"

definition move_candidate_irqs :: "iref \<Rightarrow> lb_state \<Rightarrow> lb_state option" where
  "move_candidate_irqs i = (\<lambda>(info, s).
    let ii = irqs s i in
    if hint_policy ii = HINT_POLICY_EXACT \<and> \<not> cpus_empty (affinity_hint ii) then Some (info, s)
    else if level ii = BALANCE_NONE then Some (info, s)
    else case assigned_obj ii of
      None \<Rightarrow> None
    | Some ob \<Rightarrow>
        if length (interrupts (objs s ob)) \<le> 1 then Some (info, s)
        else if iload ii \<le> 1 then Some (info, s)
        else if adjustment_load info - iload ii > min_load info + iload ii then
          Some (info\<lparr>adjustment_load := adjustment_load info - iload ii,
                     min_load := min_load info + iload ii\<rparr>,
                set_assigned None i (migrate_irq (ObjInts ob) Rebalance i s))
        else Some (info, s))"

text \<open>\<open>load + std_deviation <= avg_load\<close> and \<open>load - std_deviation >= avg_load\<close>.\<close>

definition load_low :: "u64 \<Rightarrow> u64 \<Rightarrow> u64 \<Rightarrow> bool" where
  "load_low l var avg \<longleftrightarrow> l \<le> avg \<and> unat var \<le> (unat avg - unat l)\<^sup>2"

definition load_high :: "u64 \<Rightarrow> u64 \<Rightarrow> u64 \<Rightarrow> bool" where
  "load_high l var avg \<longleftrightarrow> avg \<le> l \<and> unat var \<le> (unat l - unat avg)\<^sup>2"

definition ULONG_MAX :: u64 where "ULONG_MAX = - 1"

text \<open>\<open>migrate_overloaded_irqs\<close> first counts the object, then takes interrupts from it.\<close>

definition count_object :: "gstate \<Rightarrow> oref \<Rightarrow> load_balance_info \<Rightarrow> load_balance_info" where
  "count_object s d info =
    (let ob = objs s d;
         info = (if powersave_mode ob then info\<lparr>num_powersave := num_powersave info + 1\<rparr> else info)
     in if load_low (load ob) (variance info) (avg_load info) then
          let info = info\<lparr>num_under := num_under info + 1\<rparr> in
          if power_thresh s \<noteq> ULONG_MAX \<and> powersave info = None \<and> \<not> powersave_mode ob
          then info\<lparr>powersave := Some d\<rparr> else info
        else if load_high (load ob) (variance info) (avg_load info) then
          info\<lparr>num_over := num_over info + 1\<rparr>
        else info)"

definition migrate_overloaded_irqs :: "oref \<Rightarrow> lb_state \<Rightarrow> lb_state option" where
  "migrate_overloaded_irqs d = (\<lambda>(info, s).
    let info = count_object s d info in
    if load (objs s d) > min_load info \<and> length (interrupts (objs s d)) > 1 then
      let s = sort_irq_list (ObjInts d) s;
          info = info\<lparr>adjustment_load := load (objs s d)\<rparr>
      in for_each_irq s (interrupts (objs s d)) move_candidate_irqs (info, s)
    else Some (info, s))"

definition force_irq_migration :: "iref \<Rightarrow> gstate \<Rightarrow> gstate option" where
  "force_irq_migration i s =
    (case assigned_obj (irqs s i) of
       None \<Rightarrow> None
     | Some ob \<Rightarrow> Some (set_assigned None i (migrate_irq (ObjInts ob) Rebalance i s)))"

definition clear_powersave_mode :: "oref \<Rightarrow> gstate \<Rightarrow> gstate option" where
  "clear_powersave_mode d s = Some (upd_obj d (\<lambda>ob. ob\<lparr>powersave_mode := False\<rparr>) s)"

definition find_overloaded_objs :: "oref list \<Rightarrow> gstate \<Rightarrow> lb_state option" where
  "find_overloaded_objs name s = do {
     (info, s) \<leftarrow> for_each_object name gather_load_stats (empty_info, s);
     let info = info\<lparr>load_sources := (if load_sources info = 0 then 1 else load_sources info)\<rparr>;
     let info = info\<lparr>avg_load := total_load info div of_int (load_sources info)\<rparr>;
     (info, s) \<leftarrow> for_each_object name compute_deviations (info, s);
     let info = info\<lparr>variance := (if load_sources info = 1 then 0
                                   else deviations info div of_int (load_sources info - 1))\<rparr>;
     for_each_object name migrate_overloaded_irqs (info, s)
   }"

text \<open>The block of \<open>update_migration_status\<close> between the CPUs and the caches.\<close>

definition power_save_step :: "load_balance_info \<Rightarrow> gstate \<Rightarrow> gstate option" where
  "power_save_step info s =
    (if power_thresh s \<noteq> ULONG_MAX \<and> cycle_count s > 5 then
       (case (num_over info = 0 \<and> ucast (num_under info) \<ge> power_thresh s, powersave info) of
          (True, Some p) \<Rightarrow>
            let s = upd_obj p (\<lambda>ob. ob\<lparr>powersave_mode := True\<rparr>) s in
            if length (interrupts (objs s p)) > 0
            then for_each_irq s (interrupts (objs s p)) force_irq_migration s
            else Some s
        | _ \<Rightarrow>
            if num_over info \<noteq> 0 \<and> num_powersave info \<noteq> 0
            then for_each_object (cpu_objs s) clear_powersave_mode s else Some s)
     else Some s)"

definition update_migration_status :: "gstate \<Rightarrow> gstate option" where
  "update_migration_status s = do {
     (info, s) \<leftarrow> find_overloaded_objs (cpu_objs s) s;
     s \<leftarrow> power_save_step info s;
     (_, s) \<leftarrow> find_overloaded_objs (cache_domains s) s;
     (_, s) \<leftarrow> find_overloaded_objs (packages s) s;
     (_, s) \<leftarrow> find_overloaded_objs (numa_nodes s) s;
     Some s
   }"

section \<open>The floating point comparisons\<close>

lemma square_diff_real: "b \<le> a \<Longrightarrow> real v \<le> (real a - real b)\<^sup>2 \<longleftrightarrow> v \<le> (a - b)\<^sup>2"
  by (metis of_nat_diff of_nat_le_iff of_nat_power)

lemma load_low_sqrt:
  "load_low l var avg \<longleftrightarrow> real (unat l) + sqrt (real (unat var)) \<le> real (unat avg)"
proof -
  have "real (unat l) + sqrt (real (unat var)) \<le> real (unat avg) \<longleftrightarrow>
      sqrt (real (unat var)) \<le> real (unat avg) - real (unat l)" by linarith
  also have "\<dots> \<longleftrightarrow> unat l \<le> unat avg \<and> real (unat var) \<le> (real (unat avg) - real (unat l))\<^sup>2"
  proof safe
    assume h: "sqrt (real (unat var)) \<le> real (unat avg) - real (unat l)"
    have "0 \<le> sqrt (real (unat var))" by (rule real_sqrt_ge_zero) (rule of_nat_0_le_iff)
    with h have "real (unat l) \<le> real (unat avg)" by linarith
    then show "unat l \<le> unat avg" by (simp only: of_nat_le_iff)
    show "real (unat var) \<le> (real (unat avg) - real (unat l))\<^sup>2" using h by (rule sqrt_le_D)
  next
    assume "unat l \<le> unat avg" "real (unat var) \<le> (real (unat avg) - real (unat l))\<^sup>2"
    moreover from this have "real (unat l) \<le> real (unat avg)" by (simp only: of_nat_le_iff)
    ultimately show "sqrt (real (unat var)) \<le> real (unat avg) - real (unat l)"
      by (intro real_le_lsqrt) linarith+
  qed
  also have "\<dots> \<longleftrightarrow> load_low l var avg"
    using square_diff_real [of "unat l" "unat avg" "unat var"] by (auto simp: load_low_def word_le_nat_alt)
  finally show ?thesis ..
qed

lemma load_high_sqrt:
  "load_high l var avg \<longleftrightarrow> real (unat avg) \<le> real (unat l) - sqrt (real (unat var))"
proof -
  have "load_high l var avg \<longleftrightarrow> load_low avg var l"
    by (simp add: load_high_def load_low_def)
  then show ?thesis unfolding load_low_sqrt by linarith
qed

section \<open>Steps that change lists only\<close>

text \<open>A state without the fields that moves and sorting change.\<close>

definition strip :: "gstate \<Rightarrow> gstate" where
  "strip s = s\<lparr>objs := \<lambda>d. (objs s d)\<lparr>interrupts := []\<rparr>,
     irqs := \<lambda>i. (irqs s i)\<lparr>moved := False, assigned_obj := None\<rparr>, rebalance_irq_list := []\<rparr>"

definition lists_only :: "gstate \<Rightarrow> gstate \<Rightarrow> bool" where
  "lists_only s s' \<longleftrightarrow> strip s' = strip s"

lemma lists_only_refl [simp]: "lists_only s s"
  by (simp add: lists_only_def)

lemma lists_only_trans: "lists_only s t \<Longrightarrow> lists_only t u \<Longrightarrow> lists_only s u"
  by (simp add: lists_only_def)

lemma lists_only_fields:
  assumes "lists_only s s'"
  shows "load (objs s' d) = load (objs s d)" "powersave_mode (objs s' d) = powersave_mode (objs s d)"
    "iload (irqs s' i) = iload (irqs s i)" "level (irqs s' i) = level (irqs s i)"
    "iclass (irqs s' i) = iclass (irqs s i)"
    "hint_policy (irqs s' i) = hint_policy (irqs s i)"
    "affinity_hint (irqs s' i) = affinity_hint (irqs s i)"
    "irq (irqs s' i) = irq (irqs s i)" "interrupts_db s' = interrupts_db s"
    "power_thresh s' = power_thresh s" "cycle_count s' = cycle_count s"
    "cpu_objs s' = cpu_objs s" "packages s' = packages s" "cache_domains s' = cache_domains s"
    "numa_nodes s' = numa_nodes s"
proof -
  have eq: "strip s' = strip s" using assms by (simp add: lists_only_def)
  have d: "objs (strip s') d = objs (strip s) d" and i: "irqs (strip s') i = irqs (strip s) i"
    using eq by simp_all
  show "load (objs s' d) = load (objs s d)" "powersave_mode (objs s' d) = powersave_mode (objs s d)"
    using arg_cong [OF d, of load] arg_cong [OF d, of powersave_mode] by (simp_all add: strip_def)
  show "iload (irqs s' i) = iload (irqs s i)" "level (irqs s' i) = level (irqs s i)"
    "iclass (irqs s' i) = iclass (irqs s i)"
    "hint_policy (irqs s' i) = hint_policy (irqs s i)"
    "affinity_hint (irqs s' i) = affinity_hint (irqs s i)" "irq (irqs s' i) = irq (irqs s i)"
    using arg_cong [OF i, of iload] arg_cong [OF i, of level] arg_cong [OF i, of iclass]
      arg_cong [OF i, of hint_policy] arg_cong [OF i, of affinity_hint] arg_cong [OF i, of irq]
    by (simp_all add: strip_def)
  show "interrupts_db s' = interrupts_db s" "power_thresh s' = power_thresh s"
    "cycle_count s' = cycle_count s" "cpu_objs s' = cpu_objs s" "packages s' = packages s"
    "cache_domains s' = cache_domains s" "numa_nodes s' = numa_nodes s"
    using arg_cong [OF eq, of interrupts_db] arg_cong [OF eq, of power_thresh]
      arg_cong [OF eq, of cycle_count] arg_cong [OF eq, of cpu_objs] arg_cong [OF eq, of packages]
      arg_cong [OF eq, of cache_domains] arg_cong [OF eq, of numa_nodes]
    by (simp_all add: strip_def)
qed

lemma lists_onlyI:
  assumes "s' = s\<lparr>objs := objs s', irqs := irqs s', rebalance_irq_list := rebalance_irq_list s'\<rparr>"
    and "\<And>d. (objs s' d)\<lparr>interrupts := []\<rparr> = (objs s d)\<lparr>interrupts := []\<rparr>"
    and "\<And>i. (irqs s' i)\<lparr>moved := False, assigned_obj := None\<rparr>
      = (irqs s i)\<lparr>moved := False, assigned_obj := None\<rparr>"
  shows "lists_only s s'"
proof -
  have "strip s' = s'\<lparr>objs := objs (strip s), irqs := irqs (strip s), rebalance_irq_list := []\<rparr>"
    using assms(2,3) by (simp add: strip_def)
  also have "\<dots> = strip s" by (subst assms(1)) (simp add: strip_def)
  finally show ?thesis by (simp add: lists_only_def)
qed

lemma lists_only_put_list: "lists_only s (put_list s r l)"
  by (cases r) (auto intro!: lists_onlyI simp: upd_obj_def)

lemma lists_only_moved_irq: "lists_only s (moved_irq src dst i s)"
proof -
  have 1: "lists_only s (upd_irq i (\<lambda>i. i\<lparr>moved := b\<rparr>) s)" for s b
    by (rule lists_onlyI) (simp_all add: upd_irq_def)
  have 2: "lists_only s (set_assigned x i s)" for s x
    by (rule lists_onlyI) (simp_all add: upd_irq_def set_assigned_def)
  show ?thesis
    unfolding moved_irq_def migrate_irq_def Let_def
    by (auto split: option.splits intro!: 2 lists_only_trans [OF _ 2]  lists_only_trans [OF _ 1]
        lists_only_trans [OF lists_only_put_list lists_only_put_list])
qed

lemma lists_only_sort: "lists_only s (sort_irq_list r s)"
  unfolding sort_irq_list_def by (rule lists_only_put_list)

lemma sort_irq_list_eff:
  "irqs (sort_irq_list r s) = irqs s" "interrupts_db (sort_irq_list r s) = interrupts_db s"
  "set (get_list (sort_irq_list r s) r') = set (get_list s r')"
  "distinct (get_list (sort_irq_list r s) r') = distinct (get_list s r')"
  "length (get_list (sort_irq_list r s) r') = length (get_list s r')"
  using distinct_map_g_sort [of "\<lambda>x. x" "sort_irqs s" "get_list s r"]
  by (auto simp: sort_irq_list_def)

lemma sort_irq_list_consistent:
  "irqs_consistent (sort_irq_list r s) = irqs_consistent s" "place_of (sort_irq_list r s) = place_of s"
proof -
  note e = sort_irq_list_eff [of r s]
  show "irqs_consistent (sort_irq_list r s) = irqs_consistent s"
    unfolding irqs_consistent_alt by (simp only: e)
  show "place_of (sort_irq_list r s) = place_of s"
    using e(3) [of Rebalance] by (auto simp: place_of_def fun_eq_iff e(1,2) split: option.splits)
qed

section \<open>Evicting keeps the lists consistent\<close>

text \<open>\<open>s'\<close> comes from \<open>s\<close> by sending interrupts to the rebalance list.\<close>

definition evicted_from :: "gstate \<Rightarrow> gstate \<Rightarrow> bool" where
  "evicted_from s s' \<longleftrightarrow> irqs_consistent s' \<and> irq_steps (place_of s) (place_of s')
    \<and> (\<forall>i. place_of s' i = place_of s i \<or> place_of s' i = Pending)"

lemma evicted_refl: "irqs_consistent s \<Longrightarrow> evicted_from s s"
  by (simp add: evicted_from_def)

lemma evicted_trans: "evicted_from s t \<Longrightarrow> evicted_from t u \<Longrightarrow> evicted_from s u"
  unfolding evicted_from_def by (metis rtranclp_trans)

lemma evicted_one:
  assumes "irqs_consistent s" "place_of s i = At d"
  shows "evicted_from s (moved_irq (ObjInts d) Rebalance i s)"
    and "place_of (moved_irq (ObjInts d) Rebalance i s) = (place_of s)(i := Pending)"
proof -
  have i: "i \<in> set (get_list s (ObjInts d))" using in_list_iff [OF assms(1), of i "ObjInts d"] assms(2) by simp
  note pl = place_moved_irq [OF assms(1) i, of Rebalance]
  then show "place_of (moved_irq (ObjInts d) Rebalance i s) = (place_of s)(i := Pending)" by simp
  moreover have "irq_step (place_of s) ((place_of s)(i := Pending))" using assms(2) by (rule evict_step)
  ultimately show "evicted_from s (moved_irq (ObjInts d) Rebalance i s)"
    using moved_irq_consistent [OF assms(1) i, of Rebalance] by (auto simp: evicted_from_def)
qed

lemma place_assigned: "place_of s i = At d \<Longrightarrow> assigned_obj (irqs s i) = Some d"
  by (auto simp: place_of_def split: if_splits option.splits)

definition is_candidate :: "gstate \<Rightarrow> load_balance_info \<Rightarrow> oref \<Rightarrow> iref \<Rightarrow> bool" where
  "is_candidate s info d i \<longleftrightarrow>
    \<not> (hint_policy (irqs s i) = HINT_POLICY_EXACT \<and> \<not> cpus_empty (affinity_hint (irqs s i)))
    \<and> level (irqs s i) \<noteq> BALANCE_NONE \<and> 1 < length (interrupts (objs s d)) \<and> 1 < iload (irqs s i)
    \<and> adjustment_load info - iload (irqs s i) > min_load info + iload (irqs s i)"

lemma move_candidate_at:
  assumes "place_of s i = At d"
  shows "move_candidate_irqs i (info, s) = Some
    (if is_candidate s info d i
     then (info\<lparr>adjustment_load := adjustment_load info - iload (irqs s i),
                min_load := min_load info + iload (irqs s i)\<rparr>,
           moved_irq (ObjInts d) Rebalance i s)
     else (info, s))"
  using place_assigned [OF assms]
  by (auto simp: move_candidate_irqs_def is_candidate_def Let_def moved_irq_def not_le)

text \<open>The state of the candidate loop: interrupts still to come are still in the object's list.\<close>

definition candidates_inv :: "gstate \<Rightarrow> oref \<Rightarrow> iref list \<Rightarrow> lb_state \<Rightarrow> bool" where
  "candidates_inv s0 d xs st \<longleftrightarrow> evicted_from s0 (snd st) \<and> lists_only s0 (snd st)
    \<and> distinct xs \<and> (\<forall>i \<in> set xs. place_of (snd st) i = At d)"

lemma candidates_step:
  assumes "candidates_inv s0 d (x # xs) st"
  shows "\<exists>st'. move_candidate_irqs x st = Some st' \<and> candidates_inv s0 d xs st'"
proof -
  obtain info s where st: "st = (info, s)" by fastforce
  have ev: "evicted_from s0 s" and lo: "lists_only s0 s" and x: "place_of s x = At d"
    and rest: "distinct xs" "x \<notin> set xs" "\<forall>i \<in> set xs. place_of s i = At d"
    using assms by (auto simp: candidates_inv_def st)
  have c: "irqs_consistent s" using ev by (simp add: evicted_from_def)
  note e = evicted_one [OF c x]
  show ?thesis
    unfolding st move_candidate_at [OF x]
    using ev lo rest e evicted_trans [OF ev e(1)] lists_only_trans [OF lo lists_only_moved_irq]
    by (auto simp: candidates_inv_def)
qed

lemma candidates_loop:
  assumes "irqs_consistent s0" "distinct xs" "\<forall>i \<in> set xs. place_of s0 i = At d"
  shows "\<exists>st'. for_each move_candidate_irqs xs (info, s0) = Some st' \<and> candidates_inv s0 d [] st'"
  by (rule for_each_total [where P = "candidates_inv s0 d", OF _ candidates_step])
    (use assms evicted_refl in \<open>auto simp: candidates_inv_def\<close>)

definition lb_inv :: "gstate \<Rightarrow> lb_state \<Rightarrow> bool" where
  "lb_inv s0 st \<longleftrightarrow> evicted_from s0 (snd st) \<and> lists_only s0 (snd st)"

lemma migrate_overloaded_inv:
  assumes "lb_inv s0 st"
  shows "\<exists>st'. migrate_overloaded_irqs d st = Some st' \<and> lb_inv s0 st'"
proof -
  obtain info s where st: "st = (info, s)" by fastforce
  have ev: "evicted_from s0 s" and lo: "lists_only s0 s" using assms by (auto simp: lb_inv_def st)
  have c: "irqs_consistent s" using ev by (simp add: evicted_from_def)
  let ?s = "sort_irq_list (ObjInts d) s"
  have c': "irqs_consistent ?s" and pl: "place_of ?s = place_of s"
    using c by (simp_all add: sort_irq_list_consistent)
  have at: "\<forall>i \<in> set (interrupts (objs ?s d)). place_of ?s i = At d" "distinct (interrupts (objs ?s d))"
    using in_list_iff [OF c', of _ "ObjInts d"] c' by (auto simp: irqs_consistent_def)
  have len: "length (interrupts (objs ?s d)) = length (interrupts (objs s d))"
    using sort_irq_list_eff(5) [of "ObjInts d" s "ObjInts d"] by simp
  have loop: "\<exists>st'. for_each move_candidate_irqs (interrupts (objs ?s d)) (info', ?s) = Some st'
      \<and> lb_inv s0 st'" for info'
  proof -
    obtain st' where st': "for_each move_candidate_irqs (interrupts (objs ?s d)) (info', ?s) = Some st'"
      "candidates_inv ?s d [] st'"
      using candidates_loop [OF c' at(2,1)] by blast
    have "evicted_from s (snd st')" using st'(2) pl by (simp add: candidates_inv_def evicted_from_def)
    moreover have "lists_only s (snd st')"
      using st'(2) lists_only_trans [OF lists_only_sort] by (auto simp: candidates_inv_def)
    ultimately show ?thesis
      using st'(1) evicted_trans [OF ev] lists_only_trans [OF lo] by (auto simp: lb_inv_def)
  qed
  show ?thesis
  proof (cases "load (objs s d) > min_load (count_object s d info) \<and> length (interrupts (objs s d)) > 1")
    case False
    then show ?thesis using assms
      by (auto simp: migrate_overloaded_irqs_def st Let_def lb_inv_def)
  next
    case True
    then have "interrupts (objs ?s d) \<noteq> []" using len by auto
    with True loop show ?thesis
      by (simp add: migrate_overloaded_irqs_def st Let_def for_each_irq_def)
  qed
qed

lemma gather_inv: "lb_inv s0 st \<Longrightarrow> \<exists>st'. gather_load_stats d st = Some st' \<and> lb_inv s0 st'"
  by (cases st) (simp add: gather_load_stats_def Let_def lb_inv_def)

lemma deviations_inv: "lb_inv s0 st \<Longrightarrow> \<exists>st'. compute_deviations d st = Some st' \<and> lb_inv s0 st'"
  by (cases st) (simp add: compute_deviations_def Let_def lb_inv_def)

lemma for_each_object_inv:
  assumes "\<And>d st. P st \<Longrightarrow> \<exists>st'. cb d st = Some st' \<and> P st'" "P st"
  shows "\<exists>st'. for_each_object ds cb st = Some st' \<and> P st'"
  unfolding for_each_object_def
  using for_each_total [of "\<lambda>_. P" ds st cb] assms by blast

lemma lb_inv_info: "lb_inv s0 (i, s) \<longleftrightarrow> lb_inv s0 (j, s)"
  by (simp add: lb_inv_def)

lemma find_overloaded_objs_inv:
  assumes "evicted_from s0 s" "lists_only s0 s"
  shows "\<exists>st'. find_overloaded_objs name s = Some st' \<and> lb_inv s0 st'"
proof -
  have s: "lb_inv s0 (empty_info, s)" using assms by (simp add: lb_inv_def)
  obtain i1 s1 where 1: "for_each_object name gather_load_stats (empty_info, s) = Some (i1, s1)"
    "lb_inv s0 (i1, s1)"
    using for_each_object_inv [of "lb_inv s0", OF gather_inv s] by fastforce
  define j1 where "j1 = i1\<lparr>load_sources := (if load_sources i1 = 0 then 1 else load_sources i1)\<rparr>"
  define k1 where "k1 = j1\<lparr>avg_load := total_load j1 div of_int (load_sources j1)\<rparr>"
  obtain i2 s2 where 2: "for_each_object name compute_deviations (k1, s1) = Some (i2, s2)"
    "lb_inv s0 (i2, s2)"
    using for_each_object_inv [of "lb_inv s0", OF deviations_inv] 1(2) lb_inv_info [of s0 k1 s1 i1]
    by fastforce
  define k2 where "k2 = i2\<lparr>variance := (if load_sources i2 = 1 then 0
      else deviations i2 div of_int (load_sources i2 - 1))\<rparr>"
  obtain st' where 3: "for_each_object name migrate_overloaded_irqs (k2, s2) = Some st'" "lb_inv s0 st'"
    using for_each_object_inv [where P = "lb_inv s0" and cb = migrate_overloaded_irqs and ds = name]
      migrate_overloaded_inv 2(2) lb_inv_info [of s0 k2 s2 i2] by metis
  have "find_overloaded_objs name s = Some st'"
    by (simp only: find_overloaded_objs_def Let_def 1(1) bind.bind_lunit split j1_def [symmetric]
        k1_def [symmetric] 2(1) k2_def [symmetric] 3(1))
  with 3(2) show ?thesis by blast
qed

lemma force_migration_loop:
  assumes "irqs_consistent s" "distinct xs" "\<forall>i \<in> set xs. place_of s i = At d"
  shows "for_each force_irq_migration xs s = Some (fold (move_to Pending) xs s)"
  using assms
proof (induction xs arbitrary: s)
  case (Cons x xs)
  have x: "place_of s x = At d" using Cons.prems(3) by simp
  note e = evicted_one [OF Cons.prems(1) x]
  have mv: "moved_irq (ObjInts d) Rebalance x s = move_to Pending x s"
    by (simp add: move_to_def x)
  have "force_irq_migration x s = Some (move_to Pending x s)"
    using place_assigned [OF x] by (simp add: force_irq_migration_def moved_irq_def flip: mv)
  moreover have "for_each force_irq_migration xs (move_to Pending x s)
      = Some (fold (move_to Pending) xs (move_to Pending x s))"
    using e Cons.prems by (intro Cons.IH) (auto simp: evicted_from_def mv)
  ultimately show ?case by simp
qed simp

lemma force_migration_all:
  assumes "irqs_consistent s" "interrupts (objs s d) \<noteq> []"
  shows "\<exists>s'. for_each_irq s (interrupts (objs s d)) force_irq_migration s = Some s'
    \<and> evicted_from s s' \<and> interrupts (objs s' d) = []
    \<and> place_of s' = (\<lambda>i. if place_of s i = At d then Pending else place_of s i)"
proof -
  let ?xs = "interrupts (objs s d)"
  define s' where "s' = fold (move_to Pending) ?xs s"
  have xs: "distinct ?xs" "i \<in> set ?xs \<longleftrightarrow> place_of s i = At d" for i
    using assms(1) in_list_iff [OF assms(1), of i "ObjInts d"] by (auto simp: irqs_consistent_def)
  have m: "irqs_consistent s'" "place_of s' = (\<lambda>i. if i \<in> set ?xs then Pending else place_of s i)"
    "irq_steps (place_of s) (place_of s')"
    using mover.mv_all [OF assms(1) xs(1), of Pending] xs(2) by (auto simp: s'_def)
  have "for_each_irq s ?xs force_irq_migration s = Some s'"
    using force_migration_loop [OF assms(1) xs(1), of d] xs(2) assms(2)
    by (simp add: for_each_irq_def s'_def)
  moreover have "evicted_from s s'" using m by (auto simp: evicted_from_def)
  moreover have "interrupts (objs s' d) = []"
  proof -
    have "i \<notin> set (interrupts (objs s' d))" for i
      using in_list_iff [OF m(1), of i "ObjInts d"] xs(2) [of i] by (auto simp: m(2))
    then show ?thesis by (metis last_in_set)
  qed
  ultimately show ?thesis using m(2) xs(2) by (auto simp: fun_eq_iff)
qed

lemma consistent_upd_obj:
  assumes "\<And>ob. interrupts (f ob) = interrupts ob"
  shows "irqs_consistent (upd_obj d f s) = irqs_consistent s" "place_of (upd_obj d f s) = place_of s"
  using assms by (auto simp: irqs_consistent_def place_of_def fun_eq_iff split: option.splits)

lemma evicted_upd_obj:
  "irqs_consistent s \<Longrightarrow> (\<And>ob. interrupts (f ob) = interrupts ob) \<Longrightarrow> evicted_from s (upd_obj d f s)"
  by (simp add: evicted_from_def consistent_upd_obj)

section \<open>The whole rebalancing step\<close>

lemma find_overloaded_evicts:
  assumes "irqs_consistent s"
  shows "\<exists>info s'. find_overloaded_objs name s = Some (info, s') \<and> evicted_from s s' \<and> lists_only s s'"
  using find_overloaded_objs_inv [OF evicted_refl [OF assms] lists_only_refl, of name]
  by (auto simp: lb_inv_def)

text \<open>An object that starts to save power has no interrupts left.\<close>

definition powersave_empty :: "gstate \<Rightarrow> gstate \<Rightarrow> bool" where
  "powersave_empty s s' \<longleftrightarrow>
    (\<forall>d. powersave_mode (objs s' d) \<and> \<not> powersave_mode (objs s d) \<longrightarrow> interrupts (objs s' d) = [])"

lemma powersave_fold_moves:
  "lists_only s (fold (move_to Pending) xs s)"
  using fold_invariant_set [where P = "lists_only s" and f = "move_to Pending" and xs = xs and s = s]
    lists_only_trans lists_only_moved_irq
  by (metis lists_only_refl move_to_def)

lemma clear_powersave_loop:
  assumes "irqs_consistent s"
  shows "\<exists>s'. for_each_object ds clear_powersave_mode s = Some s' \<and> evicted_from s s' \<and> powersave_empty s s'"
proof -
  let ?P = "\<lambda>s'. evicted_from s s' \<and> (\<forall>d. powersave_mode (objs s' d) \<longrightarrow> powersave_mode (objs s d))"
  have step: "?P t \<Longrightarrow> \<exists>t'. clear_powersave_mode d t = Some t' \<and> ?P t'" for d t
    using evicted_trans [OF _ evicted_upd_obj [of t "\<lambda>ob. ob\<lparr>powersave_mode := False\<rparr>" d]]
    by (auto simp: clear_powersave_mode_def evicted_from_def)
  have "\<exists>s'. for_each_object ds clear_powersave_mode s = Some s' \<and> ?P s'"
    using evicted_refl [OF assms]
    by (intro for_each_object_inv [where P = ?P and cb = clear_powersave_mode] step) auto
  then show ?thesis by (auto simp: powersave_empty_def)
qed

lemma power_save_step_evicts:
  assumes "irqs_consistent s"
  shows "\<exists>s'. power_save_step info s = Some s' \<and> evicted_from s s' \<and> powersave_empty s s'"
proof -
  have enter: "\<exists>s'. (let s = upd_obj p (\<lambda>ob. ob\<lparr>powersave_mode := True\<rparr>) s in
            if length (interrupts (objs s p)) > 0
            then for_each_irq s (interrupts (objs s p)) force_irq_migration s
            else Some s) = Some s' \<and> evicted_from s s' \<and> powersave_empty s s'" for p
  proof -
    let ?t = "upd_obj p (\<lambda>ob. ob\<lparr>powersave_mode := True\<rparr>) s"
    have t: "irqs_consistent ?t" "evicted_from s ?t"
      using assms evicted_upd_obj [OF assms] by (simp_all add: consistent_upd_obj)
    show ?thesis
    proof (cases "interrupts (objs ?t p) = []")
      case True
      then show ?thesis using t by (auto simp: Let_def powersave_empty_def)
    next
      case False
      from force_migration_all [OF t(1) this] obtain s' where
        s': "for_each_irq ?t (interrupts (objs ?t p)) force_irq_migration ?t = Some s'"
        "evicted_from ?t s'" "interrupts (objs s' p) = []" by blast
      have xs: "distinct (interrupts (objs ?t p))"
        "\<forall>i \<in> set (interrupts (objs ?t p)). place_of ?t i = At p"
      proof -
        have "distinct (get_list ?t (ObjInts p))" using t(1) irqs_consistent_alt by blast
        then show "distinct (interrupts (objs ?t p))" by simp
        show "\<forall>i \<in> set (interrupts (objs ?t p)). place_of ?t i = At p"
          using in_list_iff [OF t(1), of _ "ObjInts p"] by simp
      qed
      have "lists_only ?t s'"
        using s'(1) force_migration_loop [OF t(1) xs] False powersave_fold_moves
        by (auto simp: for_each_irq_def)
      then have "powersave_empty s s'"
        using s'(3) by (auto simp: powersave_empty_def lists_only_fields split: if_splits)
      then show ?thesis using s' False evicted_trans [OF t(2)] by (simp add: Let_def)
    qed
  qed
  have same: "evicted_from s s \<and> powersave_empty s s"
    using evicted_refl [OF assms] by (simp add: powersave_empty_def)
  note leave = clear_powersave_loop [OF assms, of "cpu_objs s"]
  show ?thesis
  proof (cases "power_thresh s \<noteq> ULONG_MAX \<and> cycle_count s > 5")
    case False
    then show ?thesis using same by (auto simp: power_save_step_def)
  next
    case on: True
    show ?thesis
    proof (cases "powersave info")
      case None
      then show ?thesis using on same leave by (simp add: power_save_step_def split: bool.split)
    next
      case (Some p)
      then show ?thesis
        using on same leave enter [of p] by (simp add: power_save_step_def split: bool.split)
    qed
  qed
qed

lemma evicted_empty: "evicted_from s s' \<Longrightarrow> irqs_consistent s \<Longrightarrow> interrupts (objs s d) = []
    \<Longrightarrow> interrupts (objs s' d) = []"
proof -
  assume *: "evicted_from s s'" "irqs_consistent s" "interrupts (objs s d) = []"
  have "i \<notin> set (interrupts (objs s' d))" for i
    using * in_list_iff [of s' i "ObjInts d"] in_list_iff [of s i "ObjInts d"]
    by (auto simp: evicted_from_def) (metis empty_iff list.set(1) place.distinct(1))
  then show ?thesis by (metis last_in_set)
qed

lemma powersave_lists_only:
  assumes "powersave_empty s t" "evicted_from t u" "lists_only t u" "irqs_consistent t"
  shows "powersave_empty s u"
  using assms evicted_empty [OF assms(2,4)] by (auto simp: powersave_empty_def lists_only_fields)

lemma powersave_lists_only_first:
  assumes "lists_only s t" "powersave_empty t u"
  shows "powersave_empty s u"
  using assms by (auto simp: powersave_empty_def lists_only_fields)

lemma update_migration_status_evicts:
  assumes "irqs_consistent s"
  shows "\<exists>s'. update_migration_status s = Some s' \<and> evicted_from s s' \<and> powersave_empty s s'"
proof -
  have c: "evicted_from x y \<Longrightarrow> irqs_consistent y" for x y by (simp add: evicted_from_def)
  obtain i1 s1 where 1: "find_overloaded_objs (cpu_objs s) s = Some (i1, s1)" "evicted_from s s1"
    "lists_only s s1" using find_overloaded_evicts [OF assms] by blast
  obtain s2 where 2: "power_save_step i1 s1 = Some s2" "evicted_from s1 s2" "powersave_empty s1 s2"
    using power_save_step_evicts [OF c [OF 1(2)]] by blast
  obtain i3 s3 where 3: "find_overloaded_objs (cache_domains s2) s2 = Some (i3, s3)"
    "evicted_from s2 s3" "lists_only s2 s3" using find_overloaded_evicts [OF c [OF 2(2)]] by blast
  obtain i4 s4 where 4: "find_overloaded_objs (packages s3) s3 = Some (i4, s4)"
    "evicted_from s3 s4" "lists_only s3 s4" using find_overloaded_evicts [OF c [OF 3(2)]] by blast
  obtain i5 s5 where 5: "find_overloaded_objs (numa_nodes s4) s4 = Some (i5, s5)"
    "evicted_from s4 s5" "lists_only s4 s5" using find_overloaded_evicts [OF c [OF 4(2)]] by blast
  have "powersave_empty s s2" by (rule powersave_lists_only_first [OF 1(3) 2(3)])
  then have "powersave_empty s s5"
    using powersave_lists_only 3 4 5 c 2(2) by meson
  moreover have "evicted_from s s5"
    using 1(2) 2(2) 3(2) 4(2) 5(2) evicted_trans by meson
  moreover have "update_migration_status s = Some s5"
    unfolding update_migration_status_def
    by (simp only: 1(1) bind.bind_lunit split 2(1) 3(1) 4(1) 5(1))
  ultimately show ?thesis by blast
qed

section \<open>How much is taken from an object\<close>

definition irq_load :: "gstate \<Rightarrow> iref \<Rightarrow> nat" where
  "irq_load s i = unat (iload (irqs s i))"

definition heavy_irqs :: "gstate \<Rightarrow> oref \<Rightarrow> iref set" where
  "heavy_irqs s d = {i \<in> set (interrupts (objs s d)). 1 < iload (irqs s i)}"

text \<open>The loads of an object's interrupts that can be moved add up to at most its own load.\<close>

definition load_budget :: "gstate \<Rightarrow> oref \<Rightarrow> bool" where
  "load_budget s d \<longleftrightarrow> (\<Sum>i \<in> heavy_irqs s d. irq_load s i) \<le> unat (load (objs s d))"

definition taken :: "gstate \<Rightarrow> gstate \<Rightarrow> oref \<Rightarrow> iref set" where
  "taken s s' d = set (interrupts (objs s d)) - set (interrupts (objs s' d))"

definition taken_within :: "gstate \<Rightarrow> oref \<Rightarrow> nat \<Rightarrow> lb_state \<Rightarrow> bool" where
  "taken_within s0 d m0 st \<longleftrightarrow>
    (let E = taken s0 (snd st) d in
     E \<subseteq> heavy_irqs s0 d \<and> (\<forall>i \<in> E. level (irqs s0 i) \<noteq> BALANCE_NONE)
     \<and> unat (adjustment_load (fst st)) + sum (irq_load s0) E = unat (load (objs s0 d))
     \<and> unat (min_load (fst st)) = m0 + sum (irq_load s0) E
     \<and> (E \<noteq> {} \<longrightarrow> unat (min_load (fst st)) < unat (adjustment_load (fst st)))
     \<and> interrupts (objs (snd st) d) \<noteq> [])"

lemma irq_load_lists_only: "lists_only s0 s \<Longrightarrow> iload (irqs s i) = iload (irqs s0 i)"
  by (rule lists_only_fields)

lemma taken_one:
  assumes "irqs_consistent s" "place_of s x = At d" "lists_only s0 s" "evicted_from s0 s"
    "irqs_consistent s0"
  shows "taken s0 (moved_irq (ObjInts d) Rebalance x s) d = insert x (taken s0 s d)"
    "x \<notin> taken s0 s d" "x \<in> set (interrupts (objs s0 d))"
proof -
  have x: "x \<in> set (get_list s (ObjInts d))"
    using in_list_iff [OF assms(1), of x "ObjInts d"] assms(2) by simp
  then show "x \<notin> taken s0 s d" by (simp add: taken_def)
  have "place_of s0 x = At d" using assms(2,4) by (auto simp: evicted_from_def) (metis place.distinct(1))
  then show x0: "x \<in> set (interrupts (objs s0 d))"
    using in_list_iff [OF assms(5), of x "ObjInts d"] by simp
  have "distinct (get_list s (ObjInts d))" using assms(1) irqs_consistent_alt by blast
  then have "set (interrupts (objs (moved_irq (ObjInts d) Rebalance x s) d))
      = set (interrupts (objs s d)) - {x}"
    using moved_irq_eff(1) [OF assms(1) x, of Rebalance "ObjInts d"] by simp
  then show "taken s0 (moved_irq (ObjInts d) Rebalance x s) d = insert x (taken s0 s d)"
    using x0 by (auto simp: taken_def)
qed

lemma candidate_within:
  assumes inv: "candidates_inv s0 d (x # xs) (info, s)" "irqs_consistent s0"
    and bud: "load_budget s0 d" "m0 + unat (load (objs s0 d)) < 2 ^ 64"
    and w: "taken_within s0 d m0 (info, s)" and c: "is_candidate s info d x"
  shows "taken_within s0 d m0
    (info\<lparr>adjustment_load := adjustment_load info - iload (irqs s x),
          min_load := min_load info + iload (irqs s x)\<rparr>, moved_irq (ObjInts d) Rebalance x s)"
proof -
  have ev: "evicted_from s0 s" "irqs_consistent s" and lo: "lists_only s0 s" and x: "place_of s x = At d"
    using inv by (auto simp: candidates_inv_def evicted_from_def)
  define E where "E = taken s0 s d"
  note t = taken_one [OF ev(2) x lo ev(1) inv(2)]
  have E: "finite E" "x \<notin> E" "E \<subseteq> heavy_irqs s0 d" using t(2) w
    by (auto simp: E_def taken_within_def Let_def taken_def)
  have ld: "iload (irqs s x) = iload (irqs s0 x)" "level (irqs s x) = level (irqs s0 x)"
    using lo by (rule lists_only_fields)+
  have hx: "insert x E \<subseteq> heavy_irqs s0 d"
    using E(3) t(3) c by (simp add: heavy_irqs_def is_candidate_def ld)
  have "finite (heavy_irqs s0 d)" by (simp add: heavy_irqs_def)
  then have "sum (irq_load s0) (insert x E) \<le> sum (irq_load s0) (heavy_irqs s0 d)"
    using hx by (intro sum_mono2) auto
  then have room: "irq_load s0 x + sum (irq_load s0) E \<le> unat (load (objs s0 d))"
    using bud(1) E by (simp add: load_budget_def)
  have adj: "unat (adjustment_load info) + sum (irq_load s0) E = unat (load (objs s0 d))"
    and mn: "unat (min_load info) = m0 + sum (irq_load s0) E"
    using w by (simp_all add: taken_within_def Let_def E_def)
  have lx: "unat (iload (irqs s x)) = irq_load s0 x" by (simp add: irq_load_def ld)
  have sub: "unat (adjustment_load info - iload (irqs s x)) = unat (adjustment_load info) - irq_load s0 x"
    using adj room by (subst unat_sub) (simp_all add: word_le_nat_alt lx)
  have add: "unat (min_load info + iload (irqs s x)) = unat (min_load info) + irq_load s0 x"
    using mn room bud(2) by (subst unat_add_lem [THEN iffD1]) (simp_all add: lx)
  have lt: "unat (min_load info) + irq_load s0 x < unat (adjustment_load info) - irq_load s0 x"
    using c by (simp add: is_candidate_def word_less_nat_alt sub add)
  have "interrupts (objs (moved_irq (ObjInts d) Rebalance x s) d) \<noteq> []"
  proof -
    have "x \<in> set (get_list s (ObjInts d))" using in_list_iff [OF ev(2), of x "ObjInts d"] x by simp
    from moved_irq_eff(1) [OF ev(2) this, of Rebalance "ObjInts d"]
    have "length (interrupts (objs (moved_irq (ObjInts d) Rebalance x s) d))
        = length (interrupts (objs s d)) - 1" using \<open>x \<in> set (get_list s (ObjInts d))\<close>
      by (simp add: length_remove1)
    then show ?thesis using c by (auto simp: is_candidate_def)
  qed
  moreover have "level (irqs s0 x) \<noteq> BALANCE_NONE" using c by (simp add: is_candidate_def ld)
  ultimately show ?thesis
    using w hx E adj mn room lt
    by (auto simp: taken_within_def Let_def t(1) E_def [symmetric] sub add)
qed

lemma candidates_within:
  assumes "irqs_consistent s0" "load_budget s0 d" "m0 + unat (load (objs s0 d)) < 2 ^ 64"
    and "candidates_inv s0 d xs st" "taken_within s0 d m0 st"
  shows "\<exists>st'. for_each move_candidate_irqs xs st = Some st' \<and> candidates_inv s0 d [] st'
    \<and> taken_within s0 d m0 st'"
proof (rule for_each_total [where P = "\<lambda>xs st. candidates_inv s0 d xs st \<and> taken_within s0 d m0 st"])
  show "candidates_inv s0 d xs st \<and> taken_within s0 d m0 st" using assms by simp
next
  fix x xs st assume *: "candidates_inv s0 d (x # xs) st \<and> taken_within s0 d m0 st"
  obtain info s where st: "st = (info, s)" by fastforce
  have x: "place_of s x = At d" using * by (simp add: st candidates_inv_def)
  obtain st' where st': "move_candidate_irqs x st = Some st'" "candidates_inv s0 d xs st'"
    using candidates_step * by blast
  have "taken_within s0 d m0 st'"
    using st'(1) candidate_within [OF _ assms(1-3)] * unfolding st move_candidate_at [OF x]
    by (auto split: if_splits)
  with st' show "\<exists>st'. move_candidate_irqs x st = Some st' \<and> candidates_inv s0 d xs st'
      \<and> taken_within s0 d m0 st'" by blast
qed

lemma heavy_sorted: "heavy_irqs (sort_irq_list r s) d = heavy_irqs s d"
  using sort_irq_list_eff(3) [of r s "ObjInts d"] by (simp add: heavy_irqs_def sort_irq_list_eff(1))

lemma migrate_overloaded_within:
  assumes c: "irqs_consistent s" and bud: "load_budget s d"
    and room: "unat (min_load info) + unat (load (objs s d)) < 2 ^ 64"
    and go: "load (objs s d) > min_load info" "length (interrupts (objs s d)) > 1"
  shows "\<exists>st'. migrate_overloaded_irqs d (info, s) = Some st'
    \<and> taken_within s d (unat (min_load info)) st'"
proof -
  let ?s = "sort_irq_list (ObjInts d) s"
  define info' where "info' = (count_object s d info)\<lparr>adjustment_load := load (objs ?s d)\<rparr>"
  have lo: "load (objs ?s d) = load (objs s d)" "iload (irqs ?s i) = iload (irqs s i)" for i
    using lists_only_fields [OF lists_only_sort] by auto
  have mn: "min_load (count_object s d info) = min_load info"
    by (simp add: count_object_def Let_def)
  have c': "irqs_consistent ?s" using c by (simp add: sort_irq_list_consistent)
  have sets: "set (interrupts (objs ?s d)) = set (interrupts (objs s d))"
    "length (interrupts (objs ?s d)) = length (interrupts (objs s d))"
    using sort_irq_list_eff(3,5) [of "ObjInts d" s "ObjInts d"] by simp_all
  have "distinct (get_list ?s (ObjInts d))" using c' irqs_consistent_alt by blast
  then have "candidates_inv ?s d (interrupts (objs ?s d)) (info', ?s)"
    using in_list_iff [OF c', of _ "ObjInts d"] evicted_refl [OF c'] by (simp add: candidates_inv_def)
  moreover have "taken_within ?s d (unat (min_load info)) (info', ?s)"
    using go(2) sets(2) by (auto simp: taken_within_def Let_def taken_def info'_def mn)
  moreover have "load_budget ?s d"
    using bud heavy_sorted [of "ObjInts d" s d] lo by (simp add: load_budget_def irq_load_def)
  ultimately obtain st' where st': "for_each move_candidate_irqs (interrupts (objs ?s d)) (info', ?s) = Some st'"
    "taken_within ?s d (unat (min_load info)) st'"
    using candidates_within [OF c'] room lo(1) by metis
  have "taken_within s d (unat (min_load info)) st'"
    using st'(2) sets(1) lo heavy_sorted [of "ObjInts d" s d]
    by (auto simp: taken_within_def Let_def taken_def irq_load_def [abs_def] sort_irq_list_eff(1))
  moreover have "migrate_overloaded_irqs d (info, s) = Some st'"
    using st'(1) go sets(2) by (auto simp: migrate_overloaded_irqs_def Let_def mn for_each_irq_def info'_def)
  ultimately show ?thesis by blast
qed

section \<open>The statistics\<close>

definition gathered :: "gstate \<Rightarrow> oref list \<Rightarrow> load_balance_info \<Rightarrow> load_balance_info" where
  "gathered s ds info = info\<lparr>
     min_load := fold (\<lambda>d m. if m = 0 \<or> load (objs s d) < m then load (objs s d) else m) ds (min_load info),
     total_load := total_load info + (\<Sum>d \<leftarrow> ds. load (objs s d)),
     load_sources := load_sources info + int (length ds)\<rparr>"

lemma gather_loop:
  "for_each_object ds gather_load_stats (info, s) = Some (gathered s ds info, s)"
  unfolding for_each_object_def
proof (induction ds arbitrary: info)
  case (Cons d ds)
  then show ?case
    by (simp add: gather_load_stats_def gathered_def Let_def add.assoc)
qed (simp add: gathered_def)

lemma min_fold_nonzero:
  assumes "m \<noteq> 0" "\<forall>d \<in> set ds. f d \<noteq> (0 :: u64)"
  shows "fold (\<lambda>d m. if m = 0 \<or> f d < m then f d else m) ds m \<in> insert m (f ` set ds)
    \<and> (\<forall>x \<in> insert m (f ` set ds). fold (\<lambda>d m. if m = 0 \<or> f d < m then f d else m) ds m \<le> x)"
  using assms
proof (induction ds arbitrary: m)
  case (Cons d ds)
  let ?m = "if m = 0 \<or> f d < m then f d else m"
  let ?r = "fold (\<lambda>d m. if m = 0 \<or> f d < m then f d else m) ds ?m"
  have m: "?m \<noteq> 0" "?m \<le> m" "?m \<le> f d" "?m = m \<or> ?m = f d" using Cons.prems by auto
  have "?r \<in> insert ?m (f ` set ds) \<and> (\<forall>x \<in> insert ?m (f ` set ds). ?r \<le> x)"
    using Cons.IH [OF m(1)] Cons.prems(2) by simp
  with m show ?case by (auto intro: order_trans)
qed simp

section \<open>Properties\<close>

text \<open>
  C4: \<open>update_migration_status\<close> on consistent interrupt lists never follows a NULL pointer,
  always returns, and keeps them consistent: each interrupt stays where it was or is moved to
  \<open>rebalance_irq_list\<close>, none is lost and none is in two lists. An object that enters power save
  mode has no interrupt left.
\<close>

theorem update_migration_status_safe:
  assumes "irqs_consistent s"
  shows "\<exists>s'. update_migration_status s = Some s' \<and> irqs_consistent s'
    \<and> (\<forall>i. place_of s' i = place_of s i \<or> place_of s' i = Pending)
    \<and> (\<forall>i. place_of s' i = Nowhere \<longleftrightarrow> place_of s i = Nowhere)
    \<and> (\<forall>d. powersave_mode (objs s' d) \<and> \<not> powersave_mode (objs s d) \<longrightarrow> interrupts (objs s' d) = [])"
  using update_migration_status_evicts [OF assms] irq_steps_conserve
  unfolding evicted_from_def powersave_empty_def by metis

text \<open>
  C20: \<open>migrate_overloaded_irqs\<close> on an object whose movable interrupts add up to at most its load:
  \<open>adjustment_load\<close> never wraps below zero; it ends as the load less the loads taken, \<open>min_load\<close>
  as its old value plus them. When something was taken the object still has more load than the
  least loaded one would have; it keeps at least one interrupt, and only interrupts with a load
  above 1 and a level other than \<open>BALANCE_NONE\<close> are taken.
\<close>

theorem migrate_overloaded_bounds:
  assumes "irqs_consistent s" "load_budget s d"
    and "unat (min_load info) + unat (load (objs s d)) < 2 ^ 64"
    and "min_load info < load (objs s d)" "1 < length (interrupts (objs s d))"
  shows "\<exists>info' s'. migrate_overloaded_irqs d (info, s) = Some (info', s')
    \<and> unat (adjustment_load info') + sum (irq_load s) (taken s s' d) = unat (load (objs s d))
    \<and> unat (min_load info') = unat (min_load info) + sum (irq_load s) (taken s s' d)
    \<and> (taken s s' d \<noteq> {} \<longrightarrow> min_load info' < adjustment_load info')
    \<and> interrupts (objs s' d) \<noteq> []
    \<and> (\<forall>i \<in> taken s s' d. 1 < iload (irqs s i) \<and> level (irqs s i) \<noteq> BALANCE_NONE)"
  using migrate_overloaded_within [OF assms(1-3,4,5)]
  by (fastforce simp: taken_within_def Let_def heavy_irqs_def word_less_nat_alt)

definition sample_obj :: "obj_type \<Rightarrow> u64 \<Rightarrow> iref list \<Rightarrow> topo_obj" where
  "sample_obj ty l is = \<lparr>load = l, last_load = 0, obj_type = ty, number = 0, powersave_mode = False,
     mask = CPU_MASK_ALL, interrupts = is, parent = None, children = []\<rparr>"

definition sample_irq :: "int \<Rightarrow> u64 \<Rightarrow> oref option \<Rightarrow> irq_info" where
  "sample_irq n l a = \<lparr>irq = n, iclass = 0, itype = 0, level = BALANCE_CORE, flags = 0, numa_node = None,
     icpumask = CPU_MASK_ALL, affinity_hint = CPU_MASK_NONE, hint_policy = HINT_POLICY_IGNORE,
     irq_count = 0, last_irq_count = 0, iload = l, moved = False, assigned_obj = a\<rparr>"

text \<open>Two CPUs: the first has two interrupts of load 3 and 4, the second is idle.\<close>

definition sample_state :: gstate where
  "sample_state = \<lparr>objs = (\<lambda>d. if d = 1 then sample_obj OBJ_TYPE_CPU 9 [1, 2] else sample_obj OBJ_TYPE_CPU 1 []),
     irqs = (\<lambda>i. if i = 1 then sample_irq 1 3 (Some 1)
                 else sample_irq (int i) 4 (if i = 2 then Some 1 else None)),
     interrupts_db = [1, 2], banned_irqs = [], rebalance_irq_list = [], numa_nodes = [], packages = [],
     cache_domains = [], cpu_objs = [1, 2], numa_avail = False, banned_cpus = CPU_MASK_NONE,
     unbanned_cpus = CPU_MASK_ALL, power_thresh = ULONG_MAX, cycle_count = 1\<rparr>"

lemma sample_state_consistent: "irqs_consistent sample_state"
  by (auto simp: irqs_consistent_def sample_state_def sample_obj_def sample_irq_def)

theorem update_migration_status_safe_witness:
  "\<exists>s'. update_migration_status sample_state = Some s' \<and> irqs_consistent s'"
  using update_migration_status_safe [OF sample_state_consistent] by blast

theorem migrate_overloaded_bounds_witness:
  "\<exists>info' s'. migrate_overloaded_irqs 1 (empty_info\<lparr>min_load := 1\<rparr>, sample_state) = Some (info', s')
    \<and> unat (adjustment_load info') + sum (irq_load sample_state) (taken sample_state s' 1) = 9"
proof -
  have "heavy_irqs sample_state 1 = {1, 2}"
    by (auto simp: heavy_irqs_def sample_state_def sample_obj_def sample_irq_def)
  then have "load_budget sample_state 1"
    by (simp add: load_budget_def irq_load_def sample_state_def sample_obj_def sample_irq_def)
  from migrate_overloaded_bounds [OF sample_state_consistent this, of "empty_info\<lparr>min_load := 1\<rparr>"]
  show ?thesis by (simp add: sample_state_def sample_obj_def) blast
qed

text \<open>
  C32: \<open>gather_load_stats\<close> over a list of objects adds up their loads, counts them, and, when none
  of the loads is 0, leaves the least load in \<open>min_load\<close>.
\<close>

theorem gather_load_stats_result:
  assumes "ds \<noteq> []" "\<forall>d \<in> set ds. load (objs s d) \<noteq> 0"
  shows "\<exists>info. for_each_object ds gather_load_stats (empty_info, s) = Some (info, s)
    \<and> total_load info = (\<Sum>d \<leftarrow> ds. load (objs s d)) \<and> load_sources info = int (length ds)
    \<and> (\<exists>d \<in> set ds. min_load info = load (objs s d))
    \<and> (\<forall>d \<in> set ds. min_load info \<le> load (objs s d))"
proof -
  obtain d ds' where ds: "ds = d # ds'" using assms(1) by (cases ds) auto
  show ?thesis
    unfolding gather_loop
    using min_fold_nonzero [of "load (objs s d)" ds' "\<lambda>d. load (objs s d)"] assms(2)
    by (auto simp: gathered_def empty_info_def ds)
qed

theorem gather_load_stats_result_witness:
  "\<exists>info. for_each_object [1, 2] gather_load_stats (empty_info, sample_state) = Some (info, sample_state)
    \<and> total_load info = (\<Sum>d \<leftarrow> [1, 2]. load (objs sample_state d))"
  using gather_load_stats_result [of "[1, 2]" sample_state]
  by (auto simp: sample_state_def sample_obj_def)

definition three_objs :: "gstate" where
  "three_objs = sample_state\<lparr>objs := (\<lambda>d. sample_obj OBJ_TYPE_CPU (if d = 1 then 5 else if d = 2 then 0 else 9) [])\<rparr>"

text \<open>
  An idle object in the middle of the list is forgotten: \<open>min_load = 0\<close> also stands for
  "not yet set", so with the loads 5, 0, 9 \<open>gather_load_stats\<close> ends with \<open>min_load\<close> 9, more than
  the load of two of the three objects.
\<close>

lemma min_load_forgets_idle:
  "map_option (min_load \<circ> fst) (for_each_object [1, 2, 3] gather_load_stats (empty_info, three_objs)) = Some 9"
  by (simp add: gather_loop gathered_def three_objs_def sample_obj_def empty_info_def)


end
