(* ===== verification/Placement.thy ===== *)
theory Placement
  imports Irqlist
begin

text \<open>
  placement.c: giving the interrupts in \<open>rebalance_irq_list\<close> to NUMA nodes and pushing them
  down the tree to packages, cache domains and CPUs.

  A read through a NULL pointer (an interrupt without a NUMA node, \<open>best->best\<close> before any
  object was chosen) is the result \<open>None\<close>.
\<close>

record obj_placement =
  best :: "oref option"
  least_irqs :: "oref option"
  best_cost :: u64

definition no_placement :: obj_placement where
  "no_placement = \<lparr>best = None, least_irqs = None, best_cost = - 1\<rparr>"

text \<open>The early returns of \<open>find_best_object\<close>, in its order.\<close>

definition skip_object :: "gstate \<Rightarrow> iref \<Rightarrow> oref \<Rightarrow> bool" where
  "skip_object s i d =
    (let ob = objs s d; ii = irqs s i in
     if numa_avail s \<and> obj_type ob = OBJ_TYPE_NODE \<and> number ob = - 1 then True
     else if obj_type ob = OBJ_TYPE_NODE \<and> \<not> cpus_intersects (mask ob) (unbanned_cpus s) then True
     else if hint_policy ii = HINT_POLICY_SUBSET \<and> \<not> cpus_empty (affinity_hint ii)
         \<and> cpus_empty (cpus_and (affinity_hint ii) (mask ob)) then True
     else powersave_mode ob)"

definition find_best_object :: "gstate \<Rightarrow> iref \<Rightarrow> oref \<Rightarrow> obj_placement \<Rightarrow> obj_placement option" where
  "find_best_object s i d pl =
    (if skip_object s i d then Some pl
     else let newload = load (objs s d);
              pl = (if newload < best_cost pl
                    then \<lparr>best = Some d, least_irqs = None, best_cost = newload\<rparr> else pl)
       in if newload = best_cost pl then
            (case best pl of
               None \<Rightarrow> None
             | Some b \<Rightarrow>
                 if length (interrupts (objs s d)) < length (interrupts (objs s b))
                 then Some (pl\<lparr>least_irqs := Some d\<rparr>) else Some pl)
          else Some pl)"

text \<open>\<open>asign = place.least_irqs ? place.least_irqs : place.best\<close> after the loop over the candidates.\<close>

definition choose_object :: "gstate \<Rightarrow> iref \<Rightarrow> oref list \<Rightarrow> oref option option" where
  "choose_object s i ds =
    map_option (\<lambda>pl. case least_irqs pl of Some d \<Rightarrow> Some d | None \<Rightarrow> best pl)
      (for_each_object ds (find_best_object s i) no_placement)"

text \<open>The \<open>switch\<close>: interrupts that have reached their balance level stay.\<close>

definition level_stops :: "obj_type \<Rightarrow> int \<Rightarrow> bool" where
  "level_stops ty lv =
    (case ty of
       OBJ_TYPE_NODE \<Rightarrow> lv = BALANCE_NONE
     | OBJ_TYPE_PACKAGE \<Rightarrow> lv = BALANCE_PACKAGE
     | OBJ_TYPE_CACHE \<Rightarrow> lv = BALANCE_CACHE
     | OBJ_TYPE_CPU \<Rightarrow> lv = BALANCE_CORE)"

definition add_load :: "oref \<Rightarrow> u64 \<Rightarrow> gstate \<Rightarrow> gstate" where
  "add_load d l s = upd_obj d (\<lambda>ob. ob\<lparr>load := load ob + l\<rparr>) s"

definition find_best_object_for_irq :: "oref \<Rightarrow> iref \<Rightarrow> gstate \<Rightarrow> gstate option" where
  "find_best_object_for_irq d i s =
    (if \<not> moved (irqs s i) then Some s
     else if level_stops (obj_type (objs s d)) (level (irqs s i)) then Some s
     else case choose_object s i (children (objs s d)) of
       None \<Rightarrow> None
     | Some None \<Rightarrow> Some s
     | Some (Some a) \<Rightarrow>
         Some (add_load a (iload (irqs s i))
           (set_assigned (Some a) i (migrate_irq (ObjInts d) (ObjInts a) i s))))"

definition place_irq_in_object :: "oref \<Rightarrow> gstate \<Rightarrow> gstate option" where
  "place_irq_in_object d s =
    (if length (interrupts (objs s d)) > 0
     then for_each_irq s (interrupts (objs s d)) (find_best_object_for_irq d) s else Some s)"

definition place_irq_in_node :: "iref \<Rightarrow> gstate \<Rightarrow> gstate option" where
  "place_irq_in_node i s =
    (if level (irqs s i) = BALANCE_NONE \<and> cpus_empty (banned_cpus s) then Some s
     else case numa_node (irqs s i) of
       None \<Rightarrow> None
     | Some nd \<Rightarrow>
         if number (objs s nd) \<noteq> - 1 \<and> cpus_intersects (mask (objs s nd)) (unbanned_cpus s) then
           Some (add_load nd (iload (irqs s i) + 1)
             (set_assigned (Some nd) i (migrate_irq Rebalance (ObjInts nd) i s)))
         else case choose_object s i (numa_nodes s) of
           None \<Rightarrow> None
         | Some None \<Rightarrow> Some s
         | Some (Some a) \<Rightarrow>
             Some (add_load a (iload (irqs s i))
               (set_assigned (Some a) i (migrate_irq Rebalance (ObjInts a) i s))))"

text \<open>
  The validation only logs; here it gives the pairs of an interrupt and an object that it
  would log.
\<close>

definition validate_irq :: "gstate \<Rightarrow> oref \<Rightarrow> iref \<Rightarrow> (iref \<times> oref) list \<Rightarrow> (iref \<times> oref) list option" where
  "validate_irq s d i lg =
    Some (if assigned_obj (irqs s i) \<noteq> Some d then lg @ [(i, d)] else lg)"

definition validate_object :: "gstate \<Rightarrow> oref \<Rightarrow> (iref \<times> oref) list \<Rightarrow> (iref \<times> oref) list option" where
  "validate_object s d lg =
    (if length (interrupts (objs s d)) > 0
     then for_each_irq s (interrupts (objs s d)) (validate_irq s d) lg else Some lg)"

definition validate_object_tree_placement :: "gstate \<Rightarrow> (iref \<times> oref) list option" where
  "validate_object_tree_placement s = do {
     lg \<leftarrow> for_each_object (packages s) (validate_object s) [];
     lg \<leftarrow> for_each_object (cache_domains s) (validate_object s) lg;
     for_each_object (cpu_objs s) (validate_object s) lg
   }"

definition calculate_placement :: "gstate \<Rightarrow> gstate option" where
  "calculate_placement s = do {
     let s = sort_irq_list Rebalance s;
     if length (rebalance_irq_list s) > 0 then do {
       s \<leftarrow> for_each_irq s (rebalance_irq_list s) place_irq_in_node s;
       s \<leftarrow> for_each_object (numa_nodes s) place_irq_in_object s;
       s \<leftarrow> for_each_object (packages s) place_irq_in_object s;
       for_each_object (cache_domains s) place_irq_in_object s
     } else Some s
   }"

section \<open>The choice among candidates\<close>

definition eligible :: "gstate \<Rightarrow> iref \<Rightarrow> oref list \<Rightarrow> oref set" where
  "eligible s i ds = {d \<in> set ds. \<not> skip_object s i d}"

definition best_so_far :: "gstate \<Rightarrow> oref set \<Rightarrow> obj_placement \<Rightarrow> bool" where
  "best_so_far s E pl \<longleftrightarrow>
    (if E = {} then pl = no_placement
     else (\<exists>b \<in> E. best pl = Some b \<and> best_cost pl = load (objs s b)
       \<and> (\<forall>e \<in> E. load (objs s b) \<le> load (objs s e))
       \<and> (case least_irqs pl of None \<Rightarrow> True
          | Some l \<Rightarrow> l \<in> E \<and> load (objs s l) = load (objs s b)
              \<and> length (interrupts (objs s l)) < length (interrupts (objs s b)))))"

lemma find_best_object_step:
  assumes "best_so_far s E pl" "load (objs s d) \<noteq> - 1"
  shows "\<exists>pl'. find_best_object s i d pl = Some pl'
    \<and> best_so_far s (E \<union> (if skip_object s i d then {} else {d})) pl'"
proof (cases "skip_object s i d")
  case True
  then show ?thesis using assms by (simp add: find_best_object_def)
next
  case ok: False
  have lt: "load (objs s d) < - 1" using assms(2) by (metis word_order.not_eq_extremum)
  show ?thesis
  proof (cases "E = {}")
    case True
    then show ?thesis using assms ok lt
      by (auto simp: best_so_far_def find_best_object_def no_placement_def Let_def)
  next
    case False
    then obtain b where b: "b \<in> E" "best pl = Some b" "best_cost pl = load (objs s b)"
      "\<forall>e \<in> E. load (objs s b) \<le> load (objs s e)"
      "case least_irqs pl of None \<Rightarrow> True
          | Some l \<Rightarrow> l \<in> E \<and> load (objs s l) = load (objs s b)
              \<and> length (interrupts (objs s l)) < length (interrupts (objs s b))"
      using assms(1) by (auto simp: best_so_far_def)
    consider "load (objs s d) < load (objs s b)" | "load (objs s d) = load (objs s b)"
      | "load (objs s b) < load (objs s d)" by force
    then show ?thesis
    proof cases
      case 1
      then show ?thesis using b ok False
        by (auto simp: best_so_far_def find_best_object_def Let_def intro: less_imp_le less_le_trans)
    next
      case 2
      then show ?thesis using b ok False
        by (auto simp: best_so_far_def find_best_object_def Let_def split: option.splits)
    next
      case 3
      then show ?thesis using b ok False
        by (auto simp: best_so_far_def find_best_object_def Let_def less_imp_le split: option.splits)
    qed
  qed
qed

lemma choose_loop:
  assumes "\<forall>d \<in> set ds. load (objs s d) \<noteq> - 1" "best_so_far s E pl"
  shows "\<exists>pl'. for_each_object ds (find_best_object s i) pl = Some pl'
    \<and> best_so_far s (E \<union> eligible s i ds) pl'"
  using assms unfolding for_each_object_def
proof (induction ds arbitrary: E pl)
  case Nil
  then show ?case by (simp add: eligible_def)
next
  case (Cons d ds)
  let ?E = "E \<union> (if skip_object s i d then {} else {d})"
  obtain pl1 where pl1: "find_best_object s i d pl = Some pl1" "best_so_far s ?E pl1"
    using find_best_object_step [OF Cons.prems(2)] Cons.prems(1) by force
  have "?E \<union> eligible s i ds = E \<union> eligible s i (d # ds)" by (auto simp: eligible_def)
  with Cons.IH [OF _ pl1(2)] Cons.prems(1) pl1(1) show ?case by simp
qed

lemma choose_object_result:
  assumes "\<forall>d \<in> set ds. load (objs s d) \<noteq> - 1"
  shows "\<exists>r. choose_object s i ds = Some r
    \<and> (case r of None \<Rightarrow> eligible s i ds = {}
       | Some a \<Rightarrow> a \<in> eligible s i ds \<and> (\<forall>e \<in> eligible s i ds. load (objs s a) \<le> load (objs s e)))"
proof -
  have "best_so_far s {} no_placement" by (simp add: best_so_far_def)
  from choose_loop [OF assms this] obtain pl where
    pl: "for_each_object ds (find_best_object s i) no_placement = Some pl"
      "best_so_far s (eligible s i ds) pl" by auto
  then show ?thesis
    by (cases "eligible s i ds = {}")
      (auto simp: choose_object_def best_so_far_def no_placement_def split: option.splits)
qed

section \<open>What placing leaves alone\<close>

definition strip_load :: "gstate \<Rightarrow> gstate" where
  "strip_load s = (strip s)\<lparr>objs := \<lambda>d. (objs (strip s) d)\<lparr>load := 0\<rparr>\<rparr>"

definition same_tree :: "gstate \<Rightarrow> gstate \<Rightarrow> bool" where
  "same_tree s s' \<longleftrightarrow> strip_load s' = strip_load s"

lemma same_tree_refl [simp]: "same_tree s s"
  by (simp add: same_tree_def)

lemma same_tree_trans: "same_tree s t \<Longrightarrow> same_tree t u \<Longrightarrow> same_tree s u"
  by (simp add: same_tree_def)

lemma same_tree_lists_only: "lists_only s s' \<Longrightarrow> same_tree s s'"
  by (simp add: same_tree_def lists_only_def strip_load_def)

lemma same_tree_add_load: "same_tree s (add_load d l s)"
  by (simp add: same_tree_def strip_load_def strip_def add_load_def upd_obj_def fun_eq_iff)

lemma same_tree_fields:
  assumes "same_tree s s'"
  shows "children (objs s' d) = children (objs s d)" "mask (objs s' d) = mask (objs s d)"
    "obj_type (objs s' d) = obj_type (objs s d)" "number (objs s' d) = number (objs s d)"
    "powersave_mode (objs s' d) = powersave_mode (objs s d)"
    "iload (irqs s' i) = iload (irqs s i)" "level (irqs s' i) = level (irqs s i)"
    "hint_policy (irqs s' i) = hint_policy (irqs s i)" "numa_node (irqs s' i) = numa_node (irqs s i)"
    "affinity_hint (irqs s' i) = affinity_hint (irqs s i)"
    "interrupts_db s' = interrupts_db s" "numa_avail s' = numa_avail s"
    "banned_cpus s' = banned_cpus s" "unbanned_cpus s' = unbanned_cpus s"
    "cpu_objs s' = cpu_objs s" "packages s' = packages s" "cache_domains s' = cache_domains s"
    "numa_nodes s' = numa_nodes s"
proof -
  have eq: "strip_load s' = strip_load s" using assms by (simp add: same_tree_def)
  have d: "objs (strip_load s') d = objs (strip_load s) d" and i: "irqs (strip_load s') i = irqs (strip_load s) i"
    using eq by simp_all
  note defs = strip_load_def strip_def
  show "children (objs s' d) = children (objs s d)" "mask (objs s' d) = mask (objs s d)"
    "obj_type (objs s' d) = obj_type (objs s d)" "number (objs s' d) = number (objs s d)"
    "powersave_mode (objs s' d) = powersave_mode (objs s d)"
    using arg_cong [OF d, of children] arg_cong [OF d, of mask] arg_cong [OF d, of obj_type]
      arg_cong [OF d, of number] arg_cong [OF d, of powersave_mode] by (simp_all add: defs)
  show "iload (irqs s' i) = iload (irqs s i)" "level (irqs s' i) = level (irqs s i)"
    "hint_policy (irqs s' i) = hint_policy (irqs s i)" "numa_node (irqs s' i) = numa_node (irqs s i)"
    "affinity_hint (irqs s' i) = affinity_hint (irqs s i)"
    using arg_cong [OF i, of iload] arg_cong [OF i, of level] arg_cong [OF i, of hint_policy]
      arg_cong [OF i, of numa_node] arg_cong [OF i, of affinity_hint] by (simp_all add: defs)
  show "interrupts_db s' = interrupts_db s" "numa_avail s' = numa_avail s"
    "banned_cpus s' = banned_cpus s" "unbanned_cpus s' = unbanned_cpus s"
    "cpu_objs s' = cpu_objs s" "packages s' = packages s" "cache_domains s' = cache_domains s"
    "numa_nodes s' = numa_nodes s"
    using arg_cong [OF eq, of interrupts_db] arg_cong [OF eq, of numa_avail]
      arg_cong [OF eq, of banned_cpus] arg_cong [OF eq, of unbanned_cpus] arg_cong [OF eq, of cpu_objs]
      arg_cong [OF eq, of packages] arg_cong [OF eq, of cache_domains] arg_cong [OF eq, of numa_nodes]
    by (simp_all add: defs)
qed

lemma skip_object_same: "same_tree s s' \<Longrightarrow> skip_object s' i d = skip_object s i d"
  unfolding skip_object_def Let_def by (simp add: same_tree_fields [of s s'])

lemma eligible_same: "same_tree s s' \<Longrightarrow> eligible s' i ds = eligible s i ds"
  by (simp add: eligible_def skip_object_same)

section \<open>One placement\<close>

text \<open>No load can reach \<open>ULLONG_MAX\<close> while \<open>k\<close> more is added.\<close>

definition headroom :: "nat \<Rightarrow> gstate \<Rightarrow> bool" where
  "headroom k s \<longleftrightarrow> (\<forall>d. unat (load (objs s d)) + k < 2 ^ 64 - 1)"

lemma headroom_mono: "headroom k s \<Longrightarrow> j \<le> k \<Longrightarrow> headroom j s"
  unfolding headroom_def by (meson add_left_mono le_less_trans)

lemma headroom_load: "headroom k s \<Longrightarrow> load (objs s d) \<noteq> - 1"
proof
  assume "headroom k s" "load (objs s d) = - 1"
  then have "unat (- 1 :: u64) + k < 2 ^ 64 - 1" by (metis headroom_def)
  moreover have "unat (- 1 :: u64) = 2 ^ 64 - 1" by (simp add: unsigned_minus_1_eq_mask mask_eq_exp_minus_1)
  ultimately show False by simp
qed

lemma headroom_add_load:
  assumes "headroom (c + k) s" "unat l \<le> c"
  shows "headroom k (add_load d l s)"
  unfolding headroom_def
proof
  fix e
  have h: "unat (load (objs s e)) + (c + k) < 2 ^ 64 - 1" using assms(1) by (simp only: headroom_def)
  have "unat (load (objs s e) + l) \<le> unat (load (objs s e)) + unat l"
    by (metis mod_less_eq_dividend unat_word_ariths(1))
  with h assms(2) show "unat (load (objs (add_load d l s) e)) + k < 2 ^ 64 - 1"
    by (auto simp: add_load_def)
qed

definition irq_cost :: "gstate \<Rightarrow> iref \<Rightarrow> nat" where
  "irq_cost s i = unat (iload (irqs s i)) + 1"

definition list_cost :: "gstate \<Rightarrow> iref list \<Rightarrow> nat" where
  "list_cost s is = sum_list (map (irq_cost s) is)"

lemma list_cost_simps [simp]: "list_cost s [] = 0" "list_cost s (i # is) = irq_cost s i + list_cost s is"
  by (simp_all add: list_cost_def)

lemma list_cost_le:
  assumes "distinct is" "set is \<subseteq> set ks"
  shows "list_cost s is \<le> list_cost s ks"
proof -
  have "list_cost s is = sum (irq_cost s) (set is)"
    using assms(1) by (simp add: list_cost_def sum_list_distinct_conv_sum_set)
  also have "\<dots> \<le> sum (irq_cost s) (set ks)" using assms(2) by (intro sum_mono2) auto
  also have "\<dots> \<le> list_cost s ks" 
    unfolding list_cost_def by (induction ks) (auto simp: sum.insert_if)
  finally show ?thesis .
qed

lemma list_cost_same: "same_tree s s' \<Longrightarrow> list_cost s' is = list_cost s is"
  by (simp add: list_cost_def irq_cost_def [abs_def] same_tree_fields(6) cong: map_cong)

text \<open>The invariant of the whole of \<open>calculate_placement\<close>.\<close>

definition placing :: "gstate \<Rightarrow> nat \<Rightarrow> gstate \<Rightarrow> bool" where
  "placing s0 k s \<longleftrightarrow> irqs_consistent s \<and> same_tree s0 s \<and> headroom k s
    \<and> irq_steps (place_of s0) (place_of s)
    \<and> (\<forall>i d. place_of s0 i = At d \<longrightarrow> (\<exists>d'. place_of s i = At d'))"

lemma placing_mono: "placing s0 k s \<Longrightarrow> j \<le> k \<Longrightarrow> placing s0 j s"
  by (auto simp: placing_def intro: headroom_mono)

lemma place_of_add_load [simp]: "place_of (add_load d l s) = place_of s"
  by (auto simp: place_of_def add_load_def fun_eq_iff split: option.splits)

lemma irqs_consistent_add_load [simp]: "irqs_consistent (add_load d l s) = irqs_consistent s"
  by (auto simp: irqs_consistent_def add_load_def)

text \<open>Interrupt \<open>i\<close> goes from \<open>src\<close> to the object \<open>a\<close>, which gets \<open>l\<close> more load.\<close>

definition put_irq :: "list_ref \<Rightarrow> oref \<Rightarrow> u64 \<Rightarrow> iref \<Rightarrow> gstate \<Rightarrow> gstate" where
  "put_irq src a l i s = add_load a l (set_assigned (Some a) i (migrate_irq src (ObjInts a) i s))"

lemma put_irq_placing:
  assumes "placing s0 (c + k) s" "i \<in> set (get_list s src)" "src \<noteq> ObjInts a" "unat l \<le> c"
  shows "placing s0 k (put_irq src a l i s)" and "place_of (put_irq src a l i s) = (place_of s)(i := At a)"
    and "moved (irqs (put_irq src a l i s) i)" "j \<noteq> i \<Longrightarrow> irqs (put_irq src a l i s) j = irqs s j"
proof -
  have c: "irqs_consistent s" using assms(1) by (simp add: placing_def)
  have put: "put_irq src a l i s = add_load a l (moved_irq src (ObjInts a) i s)"
    by (simp add: put_irq_def moved_irq_def)
  note eff = moved_irq_eff [OF c assms(2,3)]
  show pl: "place_of (put_irq src a l i s) = (place_of s)(i := At a)"
    using place_moved_irq [OF c assms(2,3)] by (simp add: put)
  have "place_of s i \<noteq> Nowhere"
    using in_list_iff [OF c, of i src] assms(2) by (cases src) auto
  then have "irq_step (place_of s) (place_of (put_irq src a l i s))" unfolding pl by (rule settle_step)
  then have steps: "irq_steps (place_of s0) (place_of (put_irq src a l i s))"
    using assms(1) unfolding placing_def by (meson rtranclp.rtrancl_into_rtrancl)
  have "lists_only s (moved_irq src (ObjInts a) i s)" by (rule lists_only_moved_irq)
  then have tree: "same_tree s0 (put_irq src a l i s)"
    using assms(1) unfolding placing_def put
    by (meson same_tree_lists_only same_tree_add_load same_tree_trans)
  have "headroom (c + k) (moved_irq src (ObjInts a) i s)"
    using assms(1) lists_only_fields(1) [OF lists_only_moved_irq [of s src "ObjInts a" i]]
    by (simp add: placing_def headroom_def)
  then have "headroom k (put_irq src a l i s)" unfolding put by (rule headroom_add_load [OF _ assms(4)])
  then show "placing s0 k (put_irq src a l i s)"
    using moved_irq_consistent [OF c assms(2,3)] steps tree assms(1) pl
    unfolding placing_def put by auto
  show "moved (irqs (put_irq src a l i s) i)" by (simp add: put add_load_def eff)
  show "j \<noteq> i \<Longrightarrow> irqs (put_irq src a l i s) j = irqs s j" by (simp add: put add_load_def eff)
qed

section \<open>Placing in a node\<close>

definition own_node_usable :: "gstate \<Rightarrow> iref \<Rightarrow> bool" where
  "own_node_usable s i =
    (case numa_node (irqs s i) of
       None \<Rightarrow> False
     | Some nd \<Rightarrow> number (objs s nd) \<noteq> - 1 \<and> cpus_intersects (mask (objs s nd)) (unbanned_cpus s))"

definition placeable :: "gstate \<Rightarrow> iref \<Rightarrow> bool" where
  "placeable s i \<longleftrightarrow> \<not> (level (irqs s i) = BALANCE_NONE \<and> cpus_empty (banned_cpus s))
    \<and> (own_node_usable s i \<or> eligible s i (numa_nodes s) \<noteq> {})"

lemma placeable_same: "same_tree s s' \<Longrightarrow> placeable s' i = placeable s i"
  by (simp add: placeable_def own_node_usable_def same_tree_fields [of s s'] eligible_same
      split: option.splits)

lemma own_node_cost: "unat (l + 1 :: u64) \<le> unat l + 1"
  by (metis mod_less_eq_dividend unat_1 unat_word_ariths(1))

lemma place_irq_in_node_step:
  assumes p: "placing s0 (irq_cost s0 i + k) s" and i: "place_of s i = Pending"
    and nn: "numa_node (irqs s0 i) \<noteq> None"
  shows "\<exists>s'. place_irq_in_node i s = Some s' \<and> placing s0 k s'
    \<and> (if placeable s0 i then \<exists>d. place_of s' = (place_of s)(i := At d) else s' = s)"
proof -
  have c: "irqs_consistent s" and tr: "same_tree s0 s" and hd: "headroom (irq_cost s0 i + k) s"
    using p by (auto simp: placing_def)
  have inl: "i \<in> set (get_list s Rebalance)" using in_list_iff [OF c, of i Rebalance] i by simp
  obtain nd where nd: "numa_node (irqs s i) = Some nd" using nn same_tree_fields [OF tr] by auto
  have cost: "unat (iload (irqs s i)) \<le> irq_cost s0 i" "unat (iload (irqs s i) + 1) \<le> irq_cost s0 i"
    using own_node_cost [of "iload (irqs s i)"] by (simp_all add: irq_cost_def same_tree_fields [OF tr])
  have low: "placing s0 k s" using p by (rule placing_mono) simp
  have put: "placing s0 k (put_irq Rebalance a l i s)
      \<and> place_of (put_irq Rebalance a l i s) = (place_of s)(i := At a)"
    if "unat l \<le> irq_cost s0 i" for a l
    using put_irq_placing [OF p inl, of a l] that by simp
  obtain r where r: "choose_object s i (numa_nodes s) = Some r"
    "case r of None \<Rightarrow> eligible s i (numa_nodes s) = {} | Some a \<Rightarrow> a \<in> eligible s i (numa_nodes s)"
    using choose_object_result [of "numa_nodes s" s i] headroom_load [OF hd]
    by (fastforce split: option.splits)
  have "(level (irqs s i) = BALANCE_NONE \<and> cpus_empty (banned_cpus s)) \<or> own_node_usable s i
      \<or> \<not> own_node_usable s i" by blast
  then have "\<exists>s'. place_irq_in_node i s = Some s' \<and> placing s0 k s'
    \<and> (if placeable s i then \<exists>d. place_of s' = (place_of s)(i := At d) else s' = s)"
    using r put [OF cost(1)] put [OF cost(2)] low nd
    by (cases r) (auto simp: place_irq_in_node_def placeable_def own_node_usable_def put_irq_def)
  then show ?thesis unfolding placeable_same [OF tr] .
qed

definition node_loop :: "gstate \<Rightarrow> nat \<Rightarrow> iref list \<Rightarrow> gstate \<Rightarrow> bool" where
  "node_loop s0 k xs s \<longleftrightarrow> placing s0 (list_cost s0 xs + k) s \<and> distinct xs
    \<and> (\<forall>i \<in> set xs. place_of s i = Pending \<and> numa_node (irqs s0 i) \<noteq> None)
    \<and> (\<forall>i. place_of s i = Pending \<longrightarrow> i \<in> set xs \<or> place_of s0 i = Pending \<and> \<not> placeable s0 i)
    \<and> (\<forall>i. place_of s0 i = Pending \<and> \<not> placeable s0 i \<longrightarrow> place_of s i = Pending)"

lemma node_loop_step:
  assumes "node_loop s0 k (i # xs) s" "place_of s0 i = Pending"
  shows "\<exists>s'. place_irq_in_node i s = Some s' \<and> node_loop s0 k xs s'"
proof -
  from assms(1) have p: "placing s0 (irq_cost s0 i + (list_cost s0 xs + k)) s"
    and i: "place_of s i = Pending" "numa_node (irqs s0 i) \<noteq> None"
    by (simp_all add: node_loop_def add.assoc)
  from place_irq_in_node_step [OF p i] obtain s' where s': "place_irq_in_node i s = Some s'"
    "placing s0 (list_cost s0 xs + k) s'"
    "if placeable s0 i then \<exists>d. place_of s' = (place_of s)(i := At d) else s' = s" by blast
  then have "node_loop s0 k xs s'"
    using assms unfolding node_loop_def by (auto split: if_splits)
  with s'(1) show ?thesis by blast
qed

section \<open>Placing in the children\<close>

text \<open>Whether an interrupt in the list of \<open>d\<close> goes on to a child.\<close>

definition descends :: "gstate \<Rightarrow> oref \<Rightarrow> iref \<Rightarrow> bool" where
  "descends s d i \<longleftrightarrow> moved (irqs s i) \<and> \<not> level_stops (obj_type (objs s d)) (level (irqs s i))
    \<and> eligible s i (children (objs s d)) \<noteq> {}"

lemma find_best_object_for_irq_step:
  assumes p: "placing s0 (irq_cost s0 i + k) s" and i: "place_of s i = At d"
    and ch: "d \<notin> set (children (objs s0 d))"
  shows "\<exists>s'. find_best_object_for_irq d i s = Some s' \<and> placing s0 k s'
    \<and> (\<forall>j. j \<noteq> i \<longrightarrow> irqs s' j = irqs s j)
    \<and> (if descends s d i
       then \<exists>a \<in> eligible s0 i (children (objs s0 d)). place_of s' = (place_of s)(i := At a) else s' = s)"
proof -
  have c: "irqs_consistent s" and tr: "same_tree s0 s" and hd: "headroom (irq_cost s0 i + k) s"
    using p by (auto simp: placing_def)
  have inl: "i \<in> set (get_list s (ObjInts d))" using in_list_iff [OF c, of i "ObjInts d"] i by simp
  have cost: "unat (iload (irqs s i)) \<le> irq_cost s0 i"
    by (simp add: irq_cost_def same_tree_fields [OF tr])
  have low: "placing s0 k s" using p by (rule placing_mono) simp
  have put: "placing s0 k (put_irq (ObjInts d) a (iload (irqs s i)) i s)
      \<and> place_of (put_irq (ObjInts d) a (iload (irqs s i)) i s) = (place_of s)(i := At a)
      \<and> (\<forall>j. j \<noteq> i \<longrightarrow> irqs (put_irq (ObjInts d) a (iload (irqs s i)) i s) j = irqs s j)"
    if "a \<in> set (children (objs s0 d))" for a
    using put_irq_placing [OF p inl _ cost, of a] that ch by auto
  obtain r where r: "choose_object s i (children (objs s d)) = Some r"
    "case r of None \<Rightarrow> eligible s i (children (objs s d)) = {}
      | Some a \<Rightarrow> a \<in> eligible s i (children (objs s d))"
    using choose_object_result [of "children (objs s d)" s i] headroom_load [OF hd]
    by (fastforce split: option.splits)
  have el: "eligible s i (children (objs s d)) = eligible s0 i (children (objs s0 d))"
    by (simp add: eligible_same [OF tr] same_tree_fields [OF tr])
  have sub: "eligible s0 i (children (objs s0 d)) \<subseteq> set (children (objs s0 d))"
    by (auto simp: eligible_def)
  show ?thesis
  proof (cases r)
    case None
    then show ?thesis using r low by (auto simp: find_best_object_for_irq_def descends_def)
  next
    case (Some a)
    then have a: "a \<in> eligible s0 i (children (objs s0 d))" using r el by simp
    with sub have "a \<in> set (children (objs s0 d))" by blast
    from put [OF this] a r Some low el show ?thesis
      by (auto simp: find_best_object_for_irq_def descends_def put_irq_def)
  qed
qed

lemma descends_same:
  "same_tree s s' \<Longrightarrow> irqs s' i = irqs s i \<Longrightarrow> descends s' d i = descends s d i"
  by (simp add: descends_def same_tree_fields(1,3) eligible_same)

definition descended :: "gstate \<Rightarrow> oref \<Rightarrow> iref set \<Rightarrow> gstate \<Rightarrow> bool" where
  "descended s d D s' \<longleftrightarrow>
    (\<forall>i. if i \<in> D \<and> descends s d i
         then \<exists>a \<in> eligible s i (children (objs s d)). place_of s' i = At a
         else place_of s' i = place_of s i)"

definition object_loop :: "gstate \<Rightarrow> nat \<Rightarrow> gstate \<Rightarrow> oref \<Rightarrow> iref list \<Rightarrow> gstate \<Rightarrow> bool" where
  "object_loop s0 k s1 d xs s \<longleftrightarrow> placing s0 (list_cost s0 xs + k) s \<and> distinct xs
    \<and> set xs \<subseteq> set (interrupts (objs s1 d)) \<and> (\<forall>i \<in> set xs. irqs s i = irqs s1 i)
    \<and> descended s1 d (set (interrupts (objs s1 d)) - set xs) s"

lemma object_loop_step:
  assumes l: "object_loop s0 k s1 d (i # xs) s" and s1: "same_tree s0 s1" "irqs_consistent s1"
    and ch: "d \<notin> set (children (objs s0 d))"
  shows "\<exists>s'. find_best_object_for_irq d i s = Some s' \<and> object_loop s0 k s1 d xs s'"
proof -
  let ?D = "set (interrupts (objs s1 d))"
  from l have p: "placing s0 (irq_cost s0 i + (list_cost s0 xs + k)) s"
    and i: "i \<in> ?D" "irqs s i = irqs s1 i" "distinct (i # xs)"
    and de: "descended s1 d (?D - set (i # xs)) s"
    by (simp_all add: object_loop_def add.assoc)
  have at1: "place_of s1 i = At d" using in_list_iff [OF s1(2), of i "ObjInts d"] i(1) by simp
  then have at: "place_of s i = At d" using de by (simp add: descended_def)
  have tr: "same_tree s1 s" using p s1(1) by (simp add: placing_def same_tree_def)
  have eq: "descends s d i = descends s1 d i" using tr i(2) by (rule descends_same)
  have el: "eligible s0 i (children (objs s0 d)) = eligible s1 i (children (objs s1 d))"
    by (simp add: eligible_same [OF s1(1)] same_tree_fields(1) [OF s1(1)])
  from find_best_object_for_irq_step [OF p at ch] obtain s' where s':
    "find_best_object_for_irq d i s = Some s'" "placing s0 (list_cost s0 xs + k) s'"
    "\<forall>j. j \<noteq> i \<longrightarrow> irqs s' j = irqs s j"
    "if descends s1 d i
     then \<exists>a \<in> eligible s1 i (children (objs s1 d)). place_of s' = (place_of s)(i := At a) else s' = s"
    unfolding eq el by blast
  have "descended s1 d (?D - set xs) s'"
    unfolding descended_def
  proof
    fix j
    show "if j \<in> ?D - set xs \<and> descends s1 d j
        then \<exists>a \<in> eligible s1 j (children (objs s1 d)). place_of s' j = At a
        else place_of s' j = place_of s1 j"
    proof (cases "j = i")
      case True
      then show ?thesis using s'(4) i at at1 by (auto split: if_splits)
    next
      case False
      then have "place_of s' j = place_of s j" using s'(4) by (auto split: if_splits)
      with False de show ?thesis by (auto simp: descended_def)
    qed
  qed
  moreover have "\<forall>j \<in> set xs. irqs s' j = irqs s1 j"
    using l i(3) s'(3) by (auto simp: object_loop_def)
  ultimately show ?thesis using l s' by (auto simp: object_loop_def)
qed

lemma place_irq_in_object_descends:
  assumes p: "placing s0 (list_cost s0 (interrupts_db s0) + k) s"
    and ch: "d \<notin> set (children (objs s0 d))"
  shows "\<exists>s'. place_irq_in_object d s = Some s' \<and> placing s0 k s'
    \<and> descended s d (set (interrupts (objs s d))) s'"
proof (cases "interrupts (objs s d) = []")
  case True
  then show ?thesis using placing_mono [OF p, of k]
    by (simp add: place_irq_in_object_def descended_def)
next
  case False
  let ?is = "interrupts (objs s d)"
  have c: "irqs_consistent s" and tr: "same_tree s0 s" using p by (auto simp: placing_def)
  have "distinct ?is" "set ?is \<subseteq> set (interrupts_db s0)"
    using c same_tree_fields(11) [OF tr] by (auto simp: irqs_consistent_def)
  with list_cost_le [OF this, of s0] have "object_loop s0 k s d ?is s"
    using placing_mono [OF p, of "list_cost s0 ?is + k"] by (simp add: object_loop_def descended_def)
  from for_each_total [where P = "object_loop s0 k s d" and cb = "find_best_object_for_irq d",
      OF this object_loop_step [OF _ tr c ch]]
  obtain s' where "for_each (find_best_object_for_irq d) ?is s = Some s'" "object_loop s0 k s d [] s'"
    by blast
  then show ?thesis using False
    by (auto simp: place_irq_in_object_def for_each_irq_def object_loop_def)
qed

lemma descended_pending:
  assumes "descended s d (set (interrupts (objs s d))) s'" "irqs_consistent s"
  shows "place_of s' i = Pending \<longleftrightarrow> place_of s i = Pending"
proof (cases "i \<in> set (interrupts (objs s d)) \<and> descends s d i")
  case True
  then have "place_of s i = At d" using in_list_iff [OF assms(2), of i "ObjInts d"] by simp
  moreover have "\<exists>a. place_of s' i = At a"
    using assms(1) True unfolding descended_def by (metis (no_types, lifting))
  ultimately show ?thesis by auto
next
  case False
  then have "place_of s' i = place_of s i"
    using assms(1) unfolding descended_def by (metis (no_types, lifting))
  then show ?thesis by simp
qed

definition objects_loop :: "gstate \<Rightarrow> nat \<Rightarrow> gstate \<Rightarrow> oref list \<Rightarrow> gstate \<Rightarrow> bool" where
  "objects_loop s0 k s1 ds s \<longleftrightarrow> placing s0 (length ds * list_cost s0 (interrupts_db s0) + k) s
    \<and> (\<forall>i. place_of s i = Pending \<longleftrightarrow> place_of s1 i = Pending)"

lemma place_objects:
  assumes "placing s0 (length ds * list_cost s0 (interrupts_db s0) + k) s"
    and ch: "\<And>d. d \<notin> set (children (objs s0 d))"
  shows "\<exists>s'. for_each_object ds place_irq_in_object s = Some s' \<and> placing s0 k s'
    \<and> (\<forall>i. place_of s' i = Pending \<longleftrightarrow> place_of s i = Pending)"
proof -
  have step: "\<exists>t'. place_irq_in_object d t = Some t' \<and> objects_loop s0 k s ds t'"
    if "objects_loop s0 k s (d # ds) t" for d ds t
  proof -
    have p: "placing s0 (list_cost s0 (interrupts_db s0)
        + (length ds * list_cost s0 (interrupts_db s0) + k)) t"
      using that by (simp add: objects_loop_def add.assoc)
    then have "irqs_consistent t" by (simp add: placing_def)
    with place_irq_in_object_descends [OF p ch] descended_pending that show ?thesis
      unfolding objects_loop_def by (metis (no_types, lifting))
  qed
  have "objects_loop s0 k s ds s" using assms(1) by (simp add: objects_loop_def)
  from for_each_total [where P = "objects_loop s0 k s" and cb = place_irq_in_object, OF this step]
  show ?thesis by (auto simp: for_each_object_def objects_loop_def)
qed

section \<open>All of the placement\<close>

text \<open>What \<open>calculate_placement\<close> relies on.\<close>

definition placement_pre :: "gstate \<Rightarrow> bool" where
  "placement_pre s \<longleftrightarrow> irqs_consistent s
    \<and> (\<forall>i \<in> set (rebalance_irq_list s). numa_node (irqs s i) \<noteq> None)
    \<and> headroom ((1 + length (numa_nodes s) + length (packages s) + length (cache_domains s))
        * list_cost s (interrupts_db s)) s
    \<and> (\<forall>d. d \<notin> set (children (objs s d)))"

definition placement_post :: "gstate \<Rightarrow> gstate \<Rightarrow> bool" where
  "placement_post s s' \<longleftrightarrow> irqs_consistent s' \<and> same_tree s s' \<and> irq_steps (place_of s) (place_of s')
    \<and> (\<forall>i d. place_of s i = At d \<longrightarrow> (\<exists>d'. place_of s' i = At d'))
    \<and> (\<forall>i. place_of s' i = Pending \<longleftrightarrow> place_of s i = Pending \<and> \<not> placeable s i)"

lemma calculate_placement_post:
  assumes pre: "placement_pre s"
  shows "\<exists>s'. calculate_placement s = Some s' \<and> placement_post s s'"
proof -
  let ?s = "sort_irq_list Rebalance s" and ?M = "list_cost s (interrupts_db s)"
  let ?k = "length (cache_domains s) * ?M"
  let ?k' = "length (packages s) * ?M + ?k"
  let ?k'' = "length (numa_nodes s) * ?M + ?k'"
  have c: "irqs_consistent s" using pre by (simp add: placement_pre_def)
  have tree: "same_tree s ?s" by (rule same_tree_lists_only [OF lists_only_sort])
  note srt = sort_irq_list_consistent [of Rebalance s]
  have "(1 + length (numa_nodes s) + length (packages s) + length (cache_domains s)) * ?M = ?M + ?k''"
    by (simp add: algebra_simps)
  then have "headroom (?M + ?k'') ?s"
    using pre by (simp add: placement_pre_def headroom_def lists_only_fields(1) [OF lists_only_sort])
  with tree c have pl: "placing s (?M + ?k'') ?s" by (simp add: placing_def srt)
  show ?thesis
  proof (cases "rebalance_irq_list ?s = []")
    case True
    then have "rebalance_irq_list s = []" using sort_irq_list_eff(3) [of Rebalance s Rebalance] by simp
    then have "place_of s i \<noteq> Pending" for i by (simp add: place_of_def split: option.splits)
    with pl True show ?thesis
      by (auto simp: calculate_placement_def placement_post_def placing_def srt)
  next
    case False
    let ?xs = "rebalance_irq_list ?s"
    have c': "irqs_consistent ?s" using c by (simp add: srt)
    have xs: "distinct ?xs" "set ?xs = set (rebalance_irq_list s)"
      "set ?xs \<subseteq> set (interrupts_db s)"
      using c' sort_irq_list_eff(3) [of Rebalance s Rebalance] same_tree_fields(11) [OF tree]
      by (auto simp: irqs_consistent_def)
    have pend: "i \<in> set ?xs \<longleftrightarrow> place_of s i = Pending" for i
      using in_list_iff [OF c', of i Rebalance] by (simp add: srt)
    have "placing s (list_cost s ?xs + ?k'') ?s"
      using list_cost_le [OF xs(1,3), of s] by (intro placing_mono [OF pl]) simp
    then have "node_loop s ?k'' ?xs ?s"
      using xs pend pre by (auto simp: node_loop_def srt placement_pre_def)
    moreover have "\<exists>t'. place_irq_in_node x t = Some t' \<and> node_loop s ?k'' ys t' \<and> set ys \<subseteq> set ?xs"
      if "node_loop s ?k'' (x # ys) t \<and> set (x # ys) \<subseteq> set ?xs" for x ys t
    proof -
      have "place_of s x = Pending" using that pend [of x] by simp
      with node_loop_step [of s ?k'' x ys t] that show ?thesis by auto
    qed
    ultimately obtain s1 where s1: "for_each place_irq_in_node ?xs ?s = Some s1" "node_loop s ?k'' [] s1"
      using for_each_total [where P = "\<lambda>xs t. node_loop s ?k'' xs t \<and> set xs \<subseteq> set ?xs"
        and cb = place_irq_in_node and xs = ?xs and s = ?s] by blast
    have p1: "placing s ?k'' s1" using s1(2) by (simp add: node_loop_def)
    have ch: "\<And>d. d \<notin> set (children (objs s d))" using pre by (simp add: placement_pre_def)
    obtain s2 where s2: "for_each_object (numa_nodes s) place_irq_in_object s1 = Some s2"
      "placing s ?k' s2" "\<forall>i. place_of s2 i = Pending \<longleftrightarrow> place_of s1 i = Pending"
      using place_objects [OF p1 ch] by blast
    obtain s3 where s3: "for_each_object (packages s) place_irq_in_object s2 = Some s3"
      "placing s ?k s3" "\<forall>i. place_of s3 i = Pending \<longleftrightarrow> place_of s2 i = Pending"
      using place_objects [OF s2(2) ch] by blast
    have "placing s (length (cache_domains s) * list_cost s (interrupts_db s) + 0) s3"
      using s3(2) by simp
    from place_objects [OF this ch] obtain s4 where
      s4: "for_each_object (cache_domains s) place_irq_in_object s3 = Some s4"
      "placing s 0 s4" "\<forall>i. place_of s4 i = Pending \<longleftrightarrow> place_of s3 i = Pending" by blast
    have nodes: "numa_nodes s1 = numa_nodes s" "packages s2 = packages s" "cache_domains s3 = cache_domains s"
      using p1 s2(2) s3(2) by (auto simp: placing_def same_tree_fields)
    have "calculate_placement s = Some s4"
      using False s1(1) s2(1) s3(1) s4(1) by (simp add: calculate_placement_def for_each_irq_def nodes)
    moreover have "place_of s4 i = Pending \<longleftrightarrow> place_of s i = Pending \<and> \<not> placeable s i" for i
    proof -
      have "place_of s4 i = Pending \<longleftrightarrow> place_of s1 i = Pending" using s4(3) s3(3) s2(3) by simp
      then show ?thesis using s1(2) unfolding node_loop_def by (metis empty_iff list.set(1))
    qed
    ultimately show ?thesis using s4(2) unfolding placement_post_def placing_def by blast
  qed
qed

section \<open>The validation\<close>

lemma validate_object_consistent:
  assumes "irqs_consistent s"
  shows "validate_object s d lg = Some lg"
proof -
  have "for_each (validate_irq s d) is lg = Some lg"
    if "\<forall>i \<in> set is. assigned_obj (irqs s i) = Some d" for "is"
    using that by (induction "is") (auto simp: validate_irq_def)
  then show ?thesis using assms
    by (auto simp: validate_object_def for_each_irq_def irqs_consistent_def)
qed

lemma validate_consistent:
  assumes "irqs_consistent s"
  shows "validate_object_tree_placement s = Some []"
proof -
  have "for_each (validate_object s) ds lg = Some lg" for ds lg
    by (induction ds) (simp_all add: validate_object_consistent [OF assms])
  then show ?thesis by (simp add: validate_object_tree_placement_def for_each_object_def)
qed

lemma not_skipped:
  assumes "\<not> skip_object s i a"
  shows "\<not> powersave_mode (objs s a)"
    and "hint_policy (irqs s i) = HINT_POLICY_SUBSET \<Longrightarrow> cpus_of (affinity_hint (irqs s i)) \<noteq> {}
      \<Longrightarrow> cpus_of (affinity_hint (irqs s i)) \<inter> cpus_of (mask (objs s a)) \<noteq> {}"
    and "obj_type (objs s a) = OBJ_TYPE_NODE \<Longrightarrow> cpus_of (mask (objs s a)) \<inter> cpus_of (unbanned_cpus s) \<noteq> {}"
  using assms by (simp_all add: skip_object_def Let_def cpus_simps split: if_splits)

lemma eligible_bex: "(\<exists>a \<in> eligible s i ds. P a) \<longleftrightarrow> (\<exists>a \<in> set ds. \<not> skip_object s i a \<and> P a)"
  by (auto simp: eligible_def)

lemma eligible_nonempty: "eligible s i ds \<noteq> {} \<longleftrightarrow> (\<exists>a \<in> set ds. \<not> skip_object s i a)"
  by (auto simp: eligible_def)

section \<open>Properties\<close>

text \<open>
  C5: calculate_placement finishes without reading through a NULL pointer, keeps the lists
  consistent, changes only loads, lists and assignments, and loses no interrupt: assigned ones
  stay assigned to some object, and of the pending ones exactly those stay pending that no
  usable node exists for. The validation pass then has nothing to report. It relies on a NUMA
  node for every pending interrupt and on loads far enough from ULLONG_MAX.\<close>

theorem calculate_placement_safe:
  assumes "placement_pre s"
  shows "\<exists>s'. calculate_placement s = Some s' \<and> placement_post s s'
    \<and> validate_object_tree_placement s' = Some []"
  using calculate_placement_post [OF assms] validate_consistent
  by (auto simp: placement_post_def)

text \<open>
  C23: The object chosen for an interrupt has the least load of all candidates that are not
  passed over; it is not in power save, a node chosen has a CPU that is not banned, and the
  object meets a subset hint. Nothing is chosen exactly when every candidate is passed over.\<close>

theorem choose_object_least_load:
  assumes "\<forall>d \<in> set ds. load (objs s d) \<noteq> - 1"
  shows "\<exists>r. choose_object s i ds = Some r
    \<and> (case r of
         None \<Rightarrow> \<forall>d \<in> set ds. skip_object s i d
       | Some a \<Rightarrow> a \<in> set ds \<and> (\<forall>e \<in> set ds. skip_object s i e \<or> load (objs s a) \<le> load (objs s e))
           \<and> \<not> powersave_mode (objs s a)
           \<and> (obj_type (objs s a) = OBJ_TYPE_NODE \<longrightarrow> cpus_of (mask (objs s a)) \<inter> cpus_of (unbanned_cpus s) \<noteq> {})
           \<and> (hint_policy (irqs s i) = HINT_POLICY_SUBSET \<longrightarrow> cpus_of (affinity_hint (irqs s i)) \<noteq> {}
               \<longrightarrow> cpus_of (affinity_hint (irqs s i)) \<inter> cpus_of (mask (objs s a)) \<noteq> {}))"
proof -
  obtain r where "choose_object s i ds = Some r"
    "case r of None \<Rightarrow> eligible s i ds = {}
       | Some a \<Rightarrow> a \<in> eligible s i ds \<and> (\<forall>e \<in> eligible s i ds. load (objs s a) \<le> load (objs s e))"
    using choose_object_result [OF assms] by blast
  then show ?thesis by (cases r) (auto simp: eligible_def dest: not_skipped)
qed

text \<open>
  C24: place_irq_in_object sends down exactly the moved interrupts of the object that have not
  reached their balance level and that some child accepts, each to a child that accepts it, and
  leaves every other interrupt where it is.\<close>

theorem place_irq_in_object_pushes_down:
  assumes "irqs_consistent s" "d \<notin> set (children (objs s d))"
    and "headroom (list_cost s (interrupts_db s)) s"
  shows "\<exists>s'. place_irq_in_object d s = Some s' \<and> irqs_consistent s' \<and> same_tree s s'
    \<and> (\<forall>i. if i \<in> set (interrupts (objs s d)) \<and> moved (irqs s i)
           \<and> \<not> level_stops (obj_type (objs s d)) (level (irqs s i))
           \<and> (\<exists>a \<in> set (children (objs s d)). \<not> skip_object s i a)
         then \<exists>a \<in> set (children (objs s d)). \<not> skip_object s i a \<and> place_of s' i = At a
         else place_of s' i = place_of s i)"
proof -
  have "placing s (list_cost s (interrupts_db s) + 0) s" using assms by (simp add: placing_def)
  from place_irq_in_object_descends [OF this assms(2)] obtain s' where
    "place_irq_in_object d s = Some s'" "placing s 0 s'" "descended s d (set (interrupts (objs s d))) s'"
    by blast
  then show ?thesis
    unfolding descended_def descends_def eligible_bex eligible_nonempty placing_def by blast
qed

text \<open>
  A node with two CPUs; two pending interrupts of loads 5 and 2.\<close>

definition sample_tree :: gstate where
  "sample_tree = sample_state\<lparr>
     objs := (\<lambda>d. if d = 1 then (sample_obj OBJ_TYPE_NODE 0 [])\<lparr>children := [2]\<rparr>
                  else if d = 2 then (sample_obj OBJ_TYPE_PACKAGE 0 [])\<lparr>children := [3]\<rparr>
                  else if d = 3 then (sample_obj OBJ_TYPE_CACHE 0 [])\<lparr>children := [4, 5]\<rparr>
                  else sample_obj OBJ_TYPE_CPU 0 []),
     irqs := (\<lambda>i. (sample_irq (int i) (if i = 1 then 5 else 2) None)\<lparr>numa_node := Some 1\<rparr>),
     interrupts_db := [1, 2], rebalance_irq_list := [2, 1],
     numa_nodes := [1], packages := [2], cache_domains := [3], cpu_objs := [4, 5]\<rparr>"

lemmas sample_defs = sample_tree_def sample_state_def sample_obj_def sample_irq_def

lemma sample_tree_pre: "placement_pre sample_tree"
  by (auto simp: placement_pre_def irqs_consistent_def headroom_def list_cost_def irq_cost_def
      sample_tree_def sample_state_def sample_obj_def sample_irq_def)

theorem calculate_placement_safe_witness:
  "\<exists>s'. calculate_placement sample_tree = Some s' \<and> validate_object_tree_placement s' = Some []
    \<and> place_of s' 1 \<noteq> Pending"
proof -
  have "placeable sample_tree 1"
    by (simp add: placeable_def own_node_usable_def cpus_simps cpu_mask_all_set cpus_of_inter_all sample_defs balance_levels)
  with calculate_placement_safe [OF sample_tree_pre] show ?thesis by (auto simp: placement_post_def)
qed

theorem choose_object_least_load_witness:
  "choose_object (sample_tree\<lparr>objs := (objs sample_tree)(4 := sample_obj OBJ_TYPE_CPU 3 [])\<rparr>) 1 [4, 5] = Some (Some 5)"
proof -
  define s where "s = sample_tree\<lparr>objs := (objs sample_tree)(4 := sample_obj OBJ_TYPE_CPU 3 [])\<rparr>"
  have f: "\<forall>d \<in> set [4, 5]. load (objs s d) \<noteq> - 1" "\<not> skip_object s 1 5" "\<not> load (objs s 4) \<le> load (objs s 5)"
    by (simp_all add: s_def sample_defs skip_object_def)
  from choose_object_least_load [OF f(1), of 1] obtain r where r: "choose_object s 1 [4, 5] = Some r"
    "case r of None \<Rightarrow> skip_object s 1 5
     | Some a \<Rightarrow> a \<in> {4, 5} \<and> (skip_object s 1 5 \<or> load (objs s a) \<le> load (objs s 5))"
    by (auto split: option.splits)
  with f have "r = Some 5" by (cases r) auto
  with r show ?thesis by (simp add: s_def)
qed

definition sample_settled :: gstate where
  "sample_settled = sample_state\<lparr>objs := (\<lambda>d. if d = 3 then (sample_obj OBJ_TYPE_CACHE 0 [1])\<lparr>children := [4, 5]\<rparr>
       else sample_obj OBJ_TYPE_CPU 0 []),
     irqs := (\<lambda>i. (sample_irq (int i) 5 (Some 3))\<lparr>moved := True\<rparr>), interrupts_db := [1]\<rparr>"

theorem place_irq_in_object_pushes_down_witness:
  "\<exists>s' a. place_irq_in_object 3 sample_settled = Some s' \<and> place_of s' 1 = At a \<and> a \<in> {4, 5}"
proof -
  have "irqs_consistent sample_settled"
    by (auto simp: irqs_consistent_def sample_settled_def sample_state_def sample_obj_def sample_irq_def)
  moreover have "3 \<notin> set (children (objs sample_settled 3))"
    by (simp add: sample_settled_def sample_defs)
  moreover have "headroom (list_cost sample_settled (interrupts_db sample_settled)) sample_settled"
    by (simp add: headroom_def list_cost_def irq_cost_def sample_settled_def sample_obj_def sample_irq_def)
  moreover have "1 \<in> set (interrupts (objs sample_settled 3))" "moved (irqs sample_settled 1)"
    "\<not> level_stops (obj_type (objs sample_settled 3)) (level (irqs sample_settled 1))"
    "\<not> skip_object sample_settled 1 4" "children (objs sample_settled 3) = [4, 5]"
    by (simp_all add: sample_settled_def sample_defs skip_object_def level_stops_def balance_levels)
  ultimately obtain s' a where "place_irq_in_object 3 sample_settled = Some s'" "place_of s' 1 = At a" "a \<in> set [4, 5]"
    using place_irq_in_object_pushes_down [of sample_settled 3] by (metis list.set_intros(1))
  then show ?thesis by auto
qed

text \<open>
  The object with the least interrupts is not always found. Three CPUs with the same load
  and five, one and three interrupts: the third is chosen, since least_irqs is compared with
  best and not with the last value of least_irqs.\<close>

lemma least_irqs_not_least:
  "let s = sample_tree\<lparr>objs := (\<lambda>d. sample_obj OBJ_TYPE_CPU 7
             (if d = 0 then [1, 2, 3, 4, 5] else if d = 1 then [6] else [7, 8, 9]))\<rparr>
   in choose_object s 10 [0, 1, 2] = Some (Some 2)
      \<and> length (interrupts (objs s 1)) < length (interrupts (objs s 2))"
  by (simp add: choose_object_def for_each_object_def find_best_object_def skip_object_def
      no_placement_def sample_defs)

text \<open>
  An interrupt that comes from its own NUMA node is put there even when its subset hint has
  no CPU of the node: the hint is looked at only where the node is searched for.\<close>

lemma own_node_ignores_hint:
  assumes "own_node_usable s i" "numa_node (irqs s i) = Some nd"
    "\<not> (level (irqs s i) = BALANCE_NONE \<and> cpus_empty (banned_cpus s))"
    "irqs_consistent s" "place_of s i = Pending"
  shows "\<exists>s'. place_irq_in_node i s = Some s' \<and> place_of s' i = At nd"
proof -
  have i: "i \<in> set (get_list s Rebalance)" using in_list_iff [OF assms(4), of i Rebalance] assms(5) by simp
  have "place_of (put_irq Rebalance nd (iload (irqs s i) + 1) i s) i = At nd"
    using place_moved_irq [OF assms(4) i, of "ObjInts nd"] by (simp add: put_irq_def moved_irq_def)
  then show ?thesis using assms(1-3) by (auto simp: place_irq_in_node_def own_node_usable_def put_irq_def)
qed

lemma cpus_of_two: "cpus_of (cpu_set 2 CPU_MASK_NONE) = {2}"
proof -
  have "2 < NR_CPUS" by (simp add: NR_CPUS_def)
  from cpu_set_set [OF _ this, of CPU_MASK_NONE] show ?thesis by simp
qed

lemma own_node_ignores_hint_witness:
  "\<exists>s'. place_irq_in_node 1 (sample_tree\<lparr>irqs := (\<lambda>i. (irqs sample_tree i)\<lparr>hint_policy := HINT_POLICY_SUBSET,
       affinity_hint := cpu_set 5 CPU_MASK_NONE\<rparr>), objs := (\<lambda>d. (objs sample_tree d)\<lparr>mask := cpu_set 2 CPU_MASK_NONE\<rparr>)\<rparr>) = Some s'
     \<and> place_of s' 1 = At 1"
  (is "\<exists>s'. place_irq_in_node 1 ?s = Some s' \<and> _")
proof (rule own_node_ignores_hint)
  show "own_node_usable ?s 1" "numa_node (irqs ?s 1) = Some 1"
    "\<not> (level (irqs ?s 1) = BALANCE_NONE \<and> cpus_empty (banned_cpus ?s))" "place_of ?s 1 = Pending"
    by (simp_all add: own_node_usable_def sample_defs cpus_simps cpu_mask_all_set cpus_of_inter_all
        balance_levels place_of_def cpus_of_two) (simp add: NR_CPUS_def)?
  show "irqs_consistent ?s"
    using sample_tree_pre by (simp add: placement_pre_def irqs_consistent_def [of sample_tree] irqs_consistent_def [of ?s])
qed

end
