(* ===== verification/Cstrings.thy ===== *)
theory Cstrings
  imports Bitmap_Text
begin

text \<open>
  The C library functions on text that the daemon reads files with: \<open>strchr\<close>, \<open>strstr\<close>,
  \<open>strtoul\<close>/\<open>strtoull\<close> in base 10 and the \<open>while (!feof(f))\<close> loop over \<open>getline\<close>.

  A C string is the list of its characters before the NUL; a pointer into it is the suffix it
  points to. \<open>unsigned long\<close> and \<open>unsigned long long\<close> both have 64 bits.
\<close>

definition isblank :: "char \<Rightarrow> bool" where
  "isblank c \<longleftrightarrow> c = CHR '' '' \<or> c = CHR 0x09"

definition strchr :: "string \<Rightarrow> char \<Rightarrow> string option" where
  "strchr s c = (if c \<in> set s then Some (dropWhile (\<lambda>x. x \<noteq> c) s) else None)"

fun strstr :: "string \<Rightarrow> string \<Rightarrow> bool" where
  "strstr [] sub = (sub = [])"
| "strstr (c # s) sub = (take (length sub) (c # s) = sub \<or> strstr s sub)"

definition digits_val :: "string \<Rightarrow> nat" where
  "digits_val ds = foldl (\<lambda>a d. 10 * a + (of_char d - 48)) 0 ds"

text \<open>The value, and the pointer \<open>strtoull\<close> stores in \<open>endptr\<close>.\<close>

definition strtoull :: "string \<Rightarrow> u64 \<times> string" where
  "strtoull s =
    (let t = dropWhile isspace s;
         neg = (t \<noteq> [] \<and> hd t = CHR ''-'');
         u = (if t \<noteq> [] \<and> (hd t = CHR ''-'' \<or> hd t = CHR ''+'') then tl t else t);
         ds = takeWhile isdigit u;
         v = digits_val ds
     in if ds = [] then (0, s)
        else (if v \<ge> 2 ^ 64 then - 1 else if neg then - of_nat v else of_nat v, drop (length ds) u))"

definition int_of_ulong :: "u64 \<Rightarrow> int" where
  "int_of_ulong v = sint (ucast v :: u32)"

text \<open>\<open>strtol\<close>, converted to \<open>int\<close>, and \<open>fscanf(f, "%d", ...)\<close>: \<open>None\<close> at the end of the file.\<close>

definition strtol_int :: "string \<Rightarrow> int" where
  "strtol_int s =
    (let t = dropWhile isspace s;
         neg = (t \<noteq> [] \<and> hd t = CHR ''-'');
         u = (if t \<noteq> [] \<and> (hd t = CHR ''-'' \<or> hd t = CHR ''+'') then tl t else t);
         v = int (digits_val (takeWhile isdigit u));
         w = (if neg then max (- v) (- (2 ^ 63)) else min v (2 ^ 63 - 1))
     in sint (of_int w :: u32))"

definition scan_int :: "string \<Rightarrow> int option option" where
  "scan_int s =
    (let t = dropWhile isspace s
     in if t = [] then None
        else Some (if snd (strtoull t) = t then None else Some (strtol_int t)))"

text \<open>\<open>fscanf(f, "%x", ...)\<close> into an \<open>int\<close>, with an optional sign and \<open>0x\<close>.\<close>

definition scan_hex :: "string \<Rightarrow> int option option" where
  "scan_hex s =
    (let t = dropWhile isspace s;
         neg = (t \<noteq> [] \<and> hd t = CHR ''-'');
         u = (if t \<noteq> [] \<and> (hd t = CHR ''-'' \<or> hd t = CHR ''+'') then tl t else t);
         u = (if take 2 u = ''0x'' \<or> take 2 u = ''0X'' then drop 2 u else u);
         ds = takeWhile isxdigit u;
         v = int (foldl (\<lambda>a d. 16 * a + unhex d) 0 ds)
     in if t = [] then None
        else Some (if ds = [] then None else Some (sint (of_int (if neg then - v else v) :: u32))))"

text \<open>\<open>strcasecmp\<close> in the C locale, and the pieces that \<open>fgets(buf, 128, f)\<close> reads.\<close>

definition streq_nocase :: "string \<Rightarrow> string \<Rightarrow> bool" where
  "streq_nocase a b = (map toupper a = map toupper b)"

fun fgets_chunks :: "string \<Rightarrow> string \<Rightarrow> string list" where
  "fgets_chunks acc [] = (if acc = [] then [] else [acc])"
| "fgets_chunks acc (c # s) =
    (if c = CHR 0x0A \<or> length acc = 126 then (acc @ [c]) # fgets_chunks [] s else fgets_chunks (acc @ [c]) s)"

section \<open>Reading a file line by line\<close>

text \<open>
  \<open>while (!feof(f)) { getline(&line, ...); ... }\<close>. The loops compare the result of \<open>getline\<close> with 0,
  which it never returns: at the end of the file it returns -1, and the body runs once more on
  the buffer as the last pass left it. The body gives whether the loop goes on, the buffer and
  the new state; lines hold their newline.
\<close>

definition ends_nl :: "string \<Rightarrow> bool" where
  "ends_nl l \<longleftrightarrow> l \<noteq> [] \<and> last l = CHR 0x0A"

fun file_loop :: "(string \<Rightarrow> 's \<Rightarrow> bool \<times> string \<times> 's) \<Rightarrow> string list \<Rightarrow> string \<Rightarrow> 's \<Rightarrow> 's" where
  "file_loop body [] buf s = snd (snd (body buf s))"
| "file_loop body (l # ls) buf s =
    (case body l s of
       (go, buf', s') \<Rightarrow>
         if \<not> go \<or> (ls = [] \<and> \<not> ends_nl l) then s' else file_loop body ls buf' s')"

text \<open>The first line is read and thrown away.\<close>

definition skip_header :: "(string \<Rightarrow> 's \<Rightarrow> bool \<times> string \<times> 's) \<Rightarrow> string list \<Rightarrow> 's \<Rightarrow> 's" where
  "skip_header body file s =
    (case file of
       [] \<Rightarrow> s
     | l # ls \<Rightarrow> if ls = [] \<and> \<not> ends_nl l then s else file_loop body ls l s)"

section \<open>Decimal numbers\<close>

text \<open>What \<open>%u\<close> prints.\<close>

fun dec_of_nat :: "nat \<Rightarrow> string" where
  "dec_of_nat n = (if n < 10 then [char_of (48 + n)] else dec_of_nat (n div 10) @ [char_of (48 + n mod 10)])"

declare dec_of_nat.simps [simp del]

lemma isdigit_dec_digit: "d < 10 \<Longrightarrow> isdigit (char_of (48 + d)) \<and> (of_char (char_of (48 + d) :: char) :: nat) - 48 = d"
  by (simp add: isdigit_def)

lemma digits_val_append: "digits_val (ds @ [c]) = 10 * digits_val ds + (of_char c - 48)"
  by (simp add: digits_val_def)

lemma dec_of_nat_digits:
  "list_all isdigit (dec_of_nat n) \<and> digits_val (dec_of_nat n) = n \<and> dec_of_nat n \<noteq> []"
proof (induction n rule: dec_of_nat.induct)
  case (1 n)
  show ?case
  proof (cases "n < 10")
    case True
    then show ?thesis using isdigit_dec_digit [of n]
      by (simp add: dec_of_nat.simps [of n] digits_val_def)
  next
    case False
    then have IH: "list_all isdigit (dec_of_nat (n div 10))" "digits_val (dec_of_nat (n div 10)) = n div 10"
      using 1 by simp_all
    have "n mod 10 < 10" by simp
    from isdigit_dec_digit [OF this] IH False show ?thesis
      by (simp add: dec_of_nat.simps [of n] digits_val_append)
  qed
qed

lemma digit_not_space: "isdigit c \<Longrightarrow> \<not> isspace c \<and> c \<noteq> CHR ''-'' \<and> c \<noteq> CHR ''+'' \<and> c \<noteq> CHR '':'' \<and> \<not> isblank c"
  by (auto simp: isdigit_def isspace_def isblank_def)

lemma split_at_char:
  "c \<notin> set xs \<Longrightarrow> dropWhile (\<lambda>x. x \<noteq> c) (xs @ c # ys) = c # ys \<and> takeWhile (\<lambda>x. x \<noteq> c) (xs @ c # ys) = xs"
  by (induction xs) auto

lemma takeWhile_digits:
  assumes "list_all isdigit ds" "rest = [] \<or> \<not> isdigit (hd rest)"
  shows "takeWhile isdigit (ds @ rest) = ds"
proof -
  have "takeWhile isdigit (ds @ rest) = ds @ takeWhile isdigit rest"
    using assms(1) by (intro takeWhile_append2) (auto simp: list_all_iff)
  also have "takeWhile isdigit rest = []" using assms(2) by (cases rest) auto
  finally show ?thesis by simp
qed

text \<open>A printed number is read back, and reading stops behind it.\<close>

lemma strtoull_dec:
  assumes "list_all isspace ws" "n < 2 ^ 64" "rest = [] \<or> \<not> isdigit (hd rest)"
  shows "strtoull (ws @ dec_of_nat n @ rest) = (of_nat n, rest)"
proof -
  let ?ds = "dec_of_nat n"
  note ds = dec_of_nat_digits [of n]
  obtain c cs where c: "?ds = c # cs" using ds by (cases ?ds) auto
  with ds have "isdigit c" by simp
  note nsp = digit_not_space [OF this]
  have "dropWhile isspace (ws @ ?ds @ rest) = dropWhile isspace (?ds @ rest)"
    using assms(1) by (intro dropWhile_append2) (auto simp: list_all_iff)
  also have "\<dots> = ?ds @ rest" using c nsp by simp
  finally have t: "dropWhile isspace (ws @ ?ds @ rest) = ?ds @ rest" .
  have tw: "takeWhile isdigit (?ds @ rest) = ?ds"
    using takeWhile_digits [OF _ assms(3)] ds by blast
  have hd: "hd (?ds @ rest) = c" using c by simp
  show ?thesis
    unfolding strtoull_def Let_def t hd
    using nsp ds assms(2) by (simp add: tw)
qed

lemma strtoull_none:
  assumes "t = dropWhile isspace s" "t = [] \<or> \<not> isdigit (hd t) \<and> hd t \<noteq> CHR ''-'' \<and> hd t \<noteq> CHR ''+''"
  shows "strtoull s = (0, s)"
  unfolding strtoull_def Let_def assms(1) [symmetric] using assms(2) by (cases t) auto

lemma strtoull_suffix: "strtoull s = (v, r) \<Longrightarrow> r \<noteq> s \<Longrightarrow> length r < length s"
proof -
  assume a: "strtoull s = (v, r)" "r \<noteq> s"
  obtain t where t: "t = dropWhile isspace s" by simp
  obtain u where u: "u = (if t \<noteq> [] \<and> (hd t = CHR ''-'' \<or> hd t = CHR ''+'') then tl t else t)" by simp
  have r: "r = drop (length (takeWhile isdigit u)) u" "takeWhile isdigit u \<noteq> []"
    using a unfolding strtoull_def Let_def t [symmetric] u [symmetric] by (auto split: if_splits)
  have "u \<noteq> []" using r(2) by auto
  then have "length r < length u" using r by simp
  also have "length u \<le> length t" by (simp add: u)
  also have "length t \<le> length s" by (simp add: t length_dropWhile_le)
  finally show ?thesis .
qed

lemma int_of_ulong_small: "n < 2 ^ 31 \<Longrightarrow> int_of_ulong (of_nat n) = int n"
proof -
  assume n: "n < 2 ^ 31"
  have "(ucast (of_nat n :: u64) :: u32) = of_nat n"
    using n by (simp add: unsigned_of_nat take_bit_nat_eq_self)
  then show ?thesis
    using n by (simp add: int_of_ulong_def signed_of_nat signed_take_bit_int_eq_self)
qed

lemma file_loop_keeps:
  assumes "P s" "\<And>l s go buf s'. P s \<Longrightarrow> body l s = (go, buf, s') \<Longrightarrow> P s'"
  shows "P (file_loop body ls buf s)"
  using assms(1)
proof (induction ls arbitrary: buf s)
  case Nil
  then show ?case using assms(2) [OF Nil] by (metis file_loop.simps(1) prod.collapse)
next
  case (Cons l ls)
  obtain go buf' s' where b: "body l s = (go, buf', s')" by (metis prod.collapse)
  then show ?case using assms(2) [OF Cons.prems b] Cons.IH by auto
qed

lemma skip_header_keeps:
  assumes "P s" "\<And>l s go buf s'. P s \<Longrightarrow> body l s = (go, buf, s') \<Longrightarrow> P s'"
  shows "P (skip_header body file s)"
proof (cases "file")
  case (Cons l ls)
  have "P (file_loop body ls l s)"
    by (rule file_loop_keeps [where P = P]) (use assms in blast)+
  with Cons assms(1) show ?thesis by (simp add: skip_header_def)
qed (use assms(1) in \<open>simp add: skip_header_def\<close>)

text \<open>Lines that the body takes one after the other, up to one at which it stops.\<close>

lemma file_loop_steps:
  assumes "\<And>l s. l \<in> set ls \<Longrightarrow> \<exists>buf. body l s = (True, buf, f l s)" "\<exists>buf s'. body t s1 = (False, buf, s1)"
    "fold f ls s = s1"
  shows "file_loop body (ls @ t # ts) buf s = s1"
  using assms(1,3)
proof (induction ls arbitrary: buf s)
  case Nil
  then show ?case using assms(2) by auto
next
  case (Cons l ls)
  obtain b where "body l s = (True, b, f l s)" using Cons.prems(1) [of l s] by auto
  then show ?case using Cons by simp
qed

end
