(* ===== verification/Daemon.thy ===== *)
theory Daemon
  imports Cstrings Irqlist
begin

text \<open>
  The remaining global variables of the daemon (irqbalance.c, cputree.c, classify.c,
  procinterrupts.c) around the balancer state of \<open>Topo\<close>, and allocation. \<open>calloc\<close> gives the next
  unused address and does not fail.
\<close>

definition IRQ_OTHER :: int where "IRQ_OTHER = 0"
definition IRQ_LEGACY :: int where "IRQ_LEGACY = 1"
definition IRQ_SCSI :: int where "IRQ_SCSI = 2"
definition IRQ_VIDEO :: int where "IRQ_VIDEO = 3"
definition IRQ_ETH :: int where "IRQ_ETH = 4"
definition IRQ_GBETH :: int where "IRQ_GBETH = 5"
definition IRQ_10GBETH :: int where "IRQ_10GBETH = 6"
definition IRQ_VIRT_EVENT :: int where "IRQ_VIRT_EVENT = 7"

lemmas irq_classes = IRQ_OTHER_def IRQ_LEGACY_def IRQ_SCSI_def IRQ_VIDEO_def IRQ_ETH_def
  IRQ_GBETH_def IRQ_10GBETH_def IRQ_VIRT_EVENT_def

definition IRQ_TYPE_LEGACY :: int where "IRQ_TYPE_LEGACY = 0"
definition IRQ_TYPE_MSI :: int where "IRQ_TYPE_MSI = 1"
definition IRQ_TYPE_MSIX :: int where "IRQ_TYPE_MSIX = 2"
definition IRQ_TYPE_VIRT_EVENT :: int where "IRQ_TYPE_VIRT_EVENT = 3"

lemmas irq_types = IRQ_TYPE_LEGACY_def IRQ_TYPE_MSI_def IRQ_TYPE_MSIX_def IRQ_TYPE_VIRT_EVENT_def

definition IRQ_FLAG_BANNED :: int where "IRQ_FLAG_BANNED = 1"

record daemon =
  gs :: gstate
  cl_banned_irqs :: "iref list"
  next_irq :: iref
  next_obj :: oref
  keep_going :: bool
  one_shot_mode :: bool
  need_rescan :: bool
  core_count :: int
  package_count :: int
  cache_domain_count :: int
  cpu_possible_map :: cpumask
  proc_int_has_msi :: bool
  msi_found_in_sysfs :: bool
  global_hint_policy :: hint_policy
  deepest_cache :: u64
  HZ :: int

definition upd_gs :: "(gstate \<Rightarrow> gstate) \<Rightarrow> daemon \<Rightarrow> daemon" where
  "upd_gs f dm = dm\<lparr>gs := f (gs dm)\<rparr>"

text \<open>What \<open>calloc\<close> gives.\<close>

definition zero_irq :: irq_info where
  "zero_irq = \<lparr>irq = 0, iclass = 0, itype = 0, level = 0, flags = 0, numa_node = None,
     icpumask = CPU_MASK_NONE, affinity_hint = CPU_MASK_NONE, hint_policy = HINT_POLICY_IGNORE,
     irq_count = 0, last_irq_count = 0, iload = 0, moved = False, assigned_obj = None\<rparr>"

definition zero_obj :: topo_obj where
  "zero_obj = \<lparr>load = 0, last_load = 0, obj_type = OBJ_TYPE_CPU, number = 0, powersave_mode = False,
     mask = CPU_MASK_NONE, interrupts = [], parent = None, children = []\<rparr>"

definition alloc_irq :: "irq_info \<Rightarrow> daemon \<Rightarrow> iref \<times> daemon" where
  "alloc_irq ii dm =
    (next_irq dm, dm\<lparr>gs := upd_irq (next_irq dm) (\<lambda>_. ii) (gs dm), next_irq := Suc (next_irq dm)\<rparr>)"

definition alloc_obj :: "topo_obj \<Rightarrow> daemon \<Rightarrow> oref \<times> daemon" where
  "alloc_obj ob dm =
    (next_obj dm, dm\<lparr>gs := upd_obj (next_obj dm) (\<lambda>_. ob) (gs dm), next_obj := Suc (next_obj dm)\<rparr>)"

end
