(* ===== verification/Activate.thy ===== *)
theory Activate
  imports Daemon
begin

text \<open>
  activate.c: writing the CPU mask of every moved interrupt to \<open>/proc/irq/N/smp_affinity\<close>.

  \<open>proc_irq\<close> is what the function sees of these files: the text that can be read, whether a file
  can be opened for writing, and what the stack holds in the uninitialised mask and buffer. The
  result is the new state and the list of writes.
\<close>

record proc_irq =
  smp_affinity :: "int \<Rightarrow> string option"
  writable :: "int \<Rightarrow> bool"
  stack_mask :: cpumask
  stack_buf :: string

definition PATH_MAX :: u32 where "PATH_MAX = 4096"

type_synonym act_state = "gstate \<times> (int \<times> string) list"

definition check_affinity :: "proc_irq \<Rightarrow> gstate \<Rightarrow> iref \<Rightarrow> cpumask \<Rightarrow> bool" where
  "check_affinity fs s i applied_mask =
    (case smp_affinity fs (irq (irqs s i)) of
       None \<Rightarrow> True
     | Some line \<Rightarrow>
         let (_, current_mask) = cpumask_parse_user line (stack_mask fs)
         in cpus_equal applied_mask current_mask)"

text \<open>The mask to apply, \<open>None\<close> when \<open>valid_mask\<close> stays 0.\<close>

definition mask_to_apply :: "gstate \<Rightarrow> iref \<Rightarrow> cpumask option" where
  "mask_to_apply s i =
    (let info = irqs s i in
     if hint_policy info = HINT_POLICY_EXACT \<and> \<not> cpus_empty (affinity_hint info) then
       (if cpus_intersects (affinity_hint info) (banned_cpus s) then None else Some (affinity_hint info))
     else case assigned_obj info of
       None \<Rightarrow> None
     | Some d \<Rightarrow>
         let applied_mask = mask (objs s d) in
         if hint_policy info = HINT_POLICY_SUBSET \<and> \<not> cpus_empty (affinity_hint info) then
           (let applied_mask = cpus_and applied_mask (affinity_hint info)
            in if \<not> cpus_intersects applied_mask (unbanned_cpus s) then None else Some applied_mask)
         else Some applied_mask)"

definition activate_mapping :: "proc_irq \<Rightarrow> iref \<Rightarrow> act_state \<Rightarrow> act_state option" where
  "activate_mapping fs i = (\<lambda>(s, out).
    if \<not> moved (irqs s i) then Some (s, out)
    else case mask_to_apply s i of
      None \<Rightarrow> Some (s, out)
    | Some applied_mask \<Rightarrow>
        if check_affinity fs s i applied_mask then Some (s, out)
        else if assigned_obj (irqs s i) = None then Some (s, out)
        else if \<not> writable fs (irq (irqs s i)) then Some (s, out)
        else case cpumask_scnprintf (stack_buf fs) PATH_MAX applied_mask of
          None \<Rightarrow> None
        | Some (len, buf) \<Rightarrow>
            Some (upd_irq i (\<lambda>ii. ii\<lparr>moved := False\<rparr>) s,
                  out @ [(irq (irqs s i), takeWhile (\<lambda>c. c \<noteq> CHR 0x00) buf)]))"

definition activate_mappings :: "proc_irq \<Rightarrow> gstate \<Rightarrow> act_state option" where
  "activate_mappings fs s = for_each_irq s [] (activate_mapping fs) (s, [])"

section \<open>The text of a mask\<close>

definition mask_text :: "cpumask \<Rightarrow> string" where
  "mask_text m = join (printed False m 128)"

lemma hex_chunk_no_nul: "hex_chunk ds \<Longrightarrow> CHR 0x00 \<notin> set ds"
  by (auto simp: hex_chunk_def list_all_iff dest: isxdigit_props(2))

lemma join_no_nul: "\<forall>ds \<in> set css. hex_chunk ds \<Longrightarrow> CHR 0x00 \<notin> set (join css)"
  by (induction css rule: join.induct) (auto simp: hex_chunk_no_nul)

lemma mask_text_no_nul: "CHR 0x00 \<notin> set (mask_text m)"
  unfolding mask_text_def using printed_props by (intro join_no_nul) blast

lemma scnprintf_mask_text:
  assumes "length buf = 4096"
  shows "\<exists>len buf'. cpumask_scnprintf buf PATH_MAX m = Some (len, buf')
    \<and> takeWhile (\<lambda>c. c \<noteq> CHR 0x00) buf' = mask_text m"
proof -
  obtain buf' where b: "cpumask_scnprintf buf PATH_MAX m = Some (length (mask_text m), buf')"
    "take (length (mask_text m)) buf' = mask_text m" "length (mask_text m) < length buf'"
    "buf' ! length (mask_text m) = CHR 0x00"
    using cpumask_scnprintf_text [of PATH_MAX buf m] assms by (auto simp: PATH_MAX_def mask_text_def)
  have "buf' = mask_text m @ CHR 0x00 # drop (Suc (length (mask_text m))) buf'"
    using b by (metis append_take_drop_id Cons_nth_drop_Suc)
  then have "takeWhile (\<lambda>c. c \<noteq> CHR 0x00) buf' = mask_text m"
    using split_at_char [OF mask_text_no_nul] by metis
  with b(1) show ?thesis by blast
qed

section \<open>What is written\<close>

definition due :: "proc_irq \<Rightarrow> gstate \<Rightarrow> iref \<Rightarrow> cpumask \<Rightarrow> bool" where
  "due fs s i m \<longleftrightarrow> moved (irqs s i) \<and> mask_to_apply s i = Some m \<and> \<not> check_affinity fs s i m
    \<and> assigned_obj (irqs s i) \<noteq> None \<and> writable fs (irq (irqs s i))"

definition act_inv :: "proc_irq \<Rightarrow> gstate \<Rightarrow> iref list \<Rightarrow> act_state \<Rightarrow> bool" where
  "act_inv fs s0 xs = (\<lambda>(s, out).
     (\<exists>I. I \<subseteq> set (interrupts_db s0) - set xs
        \<and> (\<forall>i \<in> set (interrupts_db s0) - set xs. i \<in> I \<longleftrightarrow> (\<exists>m. due fs s0 i m))
        \<and> s = s0\<lparr>irqs := \<lambda>i. if i \<in> I then (irqs s0 i)\<lparr>moved := False\<rparr> else irqs s0 i\<rparr>
        \<and> set out = {(irq (irqs s0 i), mask_text m) |i m. i \<in> I \<and> due fs s0 i m}) \<and> distinct xs)"

lemma act_step:
  assumes inv: "act_inv fs s0 (x # xs) st" and x: "x \<in> set (interrupts_db s0)"
    and b: "length (stack_buf fs) = 4096"
  shows "\<exists>st'. activate_mapping fs x st = Some st' \<and> act_inv fs s0 xs st'"
proof -
  obtain s out where st: "st = (s, out)" by (cases st)
  from inv obtain I where I: "I \<subseteq> set (interrupts_db s0) - set (x # xs)"
    "\<forall>i \<in> set (interrupts_db s0) - set (x # xs). i \<in> I \<longleftrightarrow> (\<exists>m. due fs s0 i m)"
    "s = s0\<lparr>irqs := \<lambda>i. if i \<in> I then (irqs s0 i)\<lparr>moved := False\<rparr> else irqs s0 i\<rparr>"
    "set out = {(irq (irqs s0 i), mask_text m) |i m. i \<in> I \<and> due fs s0 i m}" "distinct (x # xs)"
    by (auto simp: act_inv_def st)
  have xI: "x \<notin> I" using I(1) by auto
  then have same: "irqs s x = irqs s0 x" "mask_to_apply s x = mask_to_apply s0 x"
    "check_affinity fs s x = check_affinity fs s0 x"
    using xI unfolding I(3) mask_to_apply_def check_affinity_def Let_def fun_eq_iff
    by (simp_all split: option.split)
  show ?thesis
  proof (cases "\<exists>m. due fs s0 x m")
    case False
    then have "activate_mapping fs x st = Some st"
      by (auto simp: activate_mapping_def st same due_def split: option.splits)
    moreover have "act_inv fs s0 xs st"
      unfolding act_inv_def st split
      by (intro conjI exI [of _ I]) (use I False in auto)
    ultimately show ?thesis by blast
  next
    case True
    then obtain m where m: "due fs s0 x m" by blast
    then have m1: "m' = m" if "due fs s0 x m'" for m' using that by (simp add: due_def)
    obtain len buf' where "cpumask_scnprintf (stack_buf fs) PATH_MAX m = Some (len, buf')"
      "takeWhile (\<lambda>c. c \<noteq> CHR 0x00) buf' = mask_text m"
      using scnprintf_mask_text [OF b] by blast
    then have "activate_mapping fs x st =
        Some (upd_irq x (\<lambda>ii. ii\<lparr>moved := False\<rparr>) s, out @ [(irq (irqs s0 x), mask_text m)])"
      using m by (auto simp: activate_mapping_def st same due_def)
    moreover have "act_inv fs s0 xs (upd_irq x (\<lambda>ii. ii\<lparr>moved := False\<rparr>) s, out @ [(irq (irqs s0 x), mask_text m)])"
      unfolding act_inv_def split
    proof (intro conjI exI [of _ "insert x I"])
      show "insert x I \<subseteq> set (interrupts_db s0) - set xs" using I(1,5) x by auto
      show "\<forall>i \<in> set (interrupts_db s0) - set xs. i \<in> insert x I \<longleftrightarrow> (\<exists>m. due fs s0 i m)"
        using I(2) True by auto
      show "upd_irq x (\<lambda>ii. ii\<lparr>moved := False\<rparr>) s =
          s0\<lparr>irqs := \<lambda>i. if i \<in> insert x I then (irqs s0 i)\<lparr>moved := False\<rparr> else irqs s0 i\<rparr>"
        using xI by (simp add: upd_irq_def I(3) fun_eq_iff)
      show "set (out @ [(irq (irqs s0 x), mask_text m)]) =
          {(irq (irqs s0 i), mask_text m) |i m. i \<in> insert x I \<and> due fs s0 i m}"
      proof -
        have "{(irq (irqs s0 i), mask_text m) |i m. i \<in> insert x I \<and> due fs s0 i m} =
            {(irq (irqs s0 x), mask_text m') |m'. due fs s0 x m'}
            \<union> {(irq (irqs s0 i), mask_text m) |i m. i \<in> I \<and> due fs s0 i m}" by blast
        also have "{(irq (irqs s0 x), mask_text m') |m'. due fs s0 x m'} = {(irq (irqs s0 x), mask_text m)}"
          using m m1 by blast
        finally show ?thesis by (simp add: I(4))
      qed
    qed (use I(5) in simp)
    ultimately show ?thesis by blast
  qed
qed

lemma activate_mappings_inv:
  assumes "distinct (interrupts_db s)" "length (stack_buf fs) = 4096"
  shows "\<exists>st. activate_mappings fs s = Some st \<and> act_inv fs s [] st"
proof -
  have "act_inv fs s (interrupts_db s) (s, []) \<and> set (interrupts_db s) \<subseteq> set (interrupts_db s)"
    using assms(1) by (auto simp: act_inv_def)
  from for_each_total [where P = "\<lambda>xs st. act_inv fs s xs st \<and> set xs \<subseteq> set (interrupts_db s)"
      and cb = "activate_mapping fs", OF this] act_step [OF _ _ assms(2)]
  show ?thesis unfolding activate_mappings_def for_each_irq_def by auto
qed

text \<open>What the mask of an interrupt may be.\<close>

definition mask_allowed :: "gstate \<Rightarrow> iref \<Rightarrow> cpumask \<Rightarrow> bool" where
  "mask_allowed s i m \<longleftrightarrow>
    (let hint = cpus_of (affinity_hint (irqs s i)) in
     if hint_policy (irqs s i) = HINT_POLICY_EXACT \<and> hint \<noteq> {}
     then cpus_of m = hint \<and> hint \<inter> cpus_of (banned_cpus s) = {}
     else (\<exists>d. assigned_obj (irqs s i) = Some d \<and>
       (if hint_policy (irqs s i) = HINT_POLICY_SUBSET \<and> hint \<noteq> {}
        then cpus_of m = cpus_of (mask (objs s d)) \<inter> hint \<and> cpus_of m \<inter> cpus_of (unbanned_cpus s) \<noteq> {}
        else m = mask (objs s d))))"

lemma mask_to_apply_allowed: "mask_to_apply s i = Some m \<Longrightarrow> mask_allowed s i m"
  by (auto simp: mask_to_apply_def mask_allowed_def Let_def cpus_simps split: if_splits option.splits)

definition masks_ok :: "gstate \<Rightarrow> bool" where
  "masks_ok s \<longleftrightarrow> (\<forall>d. wf_mask (mask (objs s d))) \<and> (\<forall>i. wf_mask (affinity_hint (irqs s i)))"

lemma mask_to_apply_wf: "masks_ok s \<Longrightarrow> mask_to_apply s i = Some m \<Longrightarrow> wf_mask m"
  by (auto simp: mask_to_apply_def masks_ok_def Let_def cpus_simps split: if_splits option.splits)

section \<open>Properties\<close>

text \<open>
  C11: activate_mappings writes one text for each interrupt that was moved, is assigned, has a
  valid mask that differs from the one in force and a file that can be opened; the text reads
  back as exactly that mask. An exact hint that is applied has no banned CPU, a subset hint
  gives its common part with the object's mask, with a CPU that is not banned. Only these
  interrupts lose their moved flag; nothing else changes.
\<close>

theorem activate_mappings_result:
  assumes "irqs_consistent s" "masks_ok s" "length (stack_buf fs) = 4096"
  shows "\<exists>s' out. activate_mappings fs s = Some (s', out) \<and> irqs_consistent s' \<and> place_of s' = place_of s
    \<and> (\<forall>(n, t) \<in> set out. \<exists>i \<in> set (interrupts_db s). \<exists>m. irq (irqs s i) = n \<and> due fs s i m
          \<and> mask_allowed s i m \<and> (\<forall>d. wf_mask d \<longrightarrow> cpumask_parse_user t d = (0, m)))
    \<and> (\<forall>i \<in> set (interrupts_db s). \<forall>m. due fs s i m \<longrightarrow> (irq (irqs s i), mask_text m) \<in> set out)
    \<and> (\<forall>i \<in> set (interrupts_db s). moved (irqs s' i) \<longleftrightarrow> moved (irqs s i) \<and> (\<nexists>m. due fs s i m))"
proof -
  have "distinct (interrupts_db s)" using assms(1) by (simp add: irqs_consistent_def)
  from activate_mappings_inv [OF this assms(3)] obtain s' out I where
    r: "activate_mappings fs s = Some (s', out)" "I \<subseteq> set (interrupts_db s)"
    "\<forall>i \<in> set (interrupts_db s). i \<in> I \<longleftrightarrow> (\<exists>m. due fs s i m)"
    "s' = s\<lparr>irqs := \<lambda>i. if i \<in> I then (irqs s i)\<lparr>moved := False\<rparr> else irqs s i\<rparr>"
    "set out = {(irq (irqs s i), mask_text m) |i m. i \<in> I \<and> due fs s i m}"
    by (auto simp: act_inv_def)
  have fields: "irq (irqs s' i) = irq (irqs s i)" "assigned_obj (irqs s' i) = assigned_obj (irqs s i)" for i
    by (simp_all add: r(4))
  have "irqs_consistent s' = irqs_consistent s"
    unfolding irqs_consistent_def fields by (simp add: r(4))
  moreover have "place_of s' = place_of s" by (simp add: fun_eq_iff place_of_def fields) (simp add: r(4))
  moreover have "moved (irqs s' i) \<longleftrightarrow> moved (irqs s i) \<and> (\<nexists>m. due fs s i m)"
    if "i \<in> set (interrupts_db s)" for i using r(3) that by (auto simp: r(4))
  moreover have "mask_allowed s i m \<and> (\<forall>d. wf_mask d \<longrightarrow> cpumask_parse_user (mask_text m) d = (0, m))"
    if "due fs s i m" for i m
    using that mask_to_apply_allowed mask_to_apply_wf [OF assms(2)] printed_parses
    by (auto simp: due_def mask_text_def)
  moreover have "(irq (irqs s i), mask_text m) \<in> set out" if "i \<in> set (interrupts_db s)" "due fs s i m" for i m
    using that r(3) by (auto simp: r(5))
  ultimately show ?thesis using r(1,2,5) assms(1) by (intro exI [of _ s'] exI [of _ out]) fastforce
qed

text \<open>One moved interrupt; its file holds another mask and can be written.\<close>

definition sample_fs :: proc_irq where
  "sample_fs = \<lparr>smp_affinity = (\<lambda>_. Some (mask_text CPU_MASK_NONE)), writable = (\<lambda>_. True), stack_mask = CPU_MASK_NONE,
     stack_buf = replicate 4096 CHR ''x''\<rparr>"

definition sample_moved :: gstate where
  "sample_moved = sample_state\<lparr>irqs := (\<lambda>i. (irqs sample_state i)\<lparr>moved := True\<rparr>)\<rparr>"

lemma sample_moved_pre: "irqs_consistent sample_moved" "masks_ok sample_moved"
proof -
  show "irqs_consistent sample_moved"
    by (auto simp: irqs_consistent_def sample_moved_def sample_state_def sample_obj_def sample_irq_def)
  show "masks_ok sample_moved"
    by (simp add: masks_ok_def sample_moved_def sample_state_def sample_obj_def sample_irq_def wf_mask_def CPU_MASK_ALL_def)
qed

theorem activate_mappings_result_witness:
  "\<exists>s' out. activate_mappings sample_fs sample_moved = Some (s', out) \<and> \<not> moved (irqs s' 1)
    \<and> (1, mask_text CPU_MASK_ALL) \<in> set out"
proof -
  have par: "cpumask_parse_user (mask_text CPU_MASK_NONE) CPU_MASK_NONE = (0, CPU_MASK_NONE)"
    unfolding mask_text_def by (rule printed_parses) simp_all
  have "{..<NR_CPUS} \<noteq> {}" using NR_CPUS_facts(1) by (metis empty_iff lessThan_iff)
  then have "\<not> check_affinity sample_fs sample_moved 1 CPU_MASK_ALL"
    by (simp add: check_affinity_def sample_fs_def par cpus_simps cpu_mask_all_set)
  then have due1: "due sample_fs sample_moved 1 CPU_MASK_ALL"
    by (simp add: due_def mask_to_apply_def sample_moved_def sample_state_def sample_irq_def sample_obj_def sample_fs_def)
  have "length (stack_buf sample_fs) = 4096" by (simp add: sample_fs_def)
  from activate_mappings_result [OF sample_moved_pre this] obtain s' out where
    "activate_mappings sample_fs sample_moved = Some (s', out)"
    "\<forall>i \<in> set (interrupts_db sample_moved). \<forall>m. due sample_fs sample_moved i m
       \<longrightarrow> (irq (irqs sample_moved i), mask_text m) \<in> set out"
    "\<forall>i \<in> set (interrupts_db sample_moved). moved (irqs s' i) \<longleftrightarrow>
       moved (irqs sample_moved i) \<and> (\<nexists>m. due sample_fs sample_moved i m)" by blast
  moreover have "1 \<in> set (interrupts_db sample_moved)" "irq (irqs sample_moved 1) = 1"
    by (simp_all add: sample_moved_def sample_state_def sample_irq_def)
  ultimately show ?thesis using due1 by metis
qed



end
