(* ===== verification/Numa.thy ===== *)
theory Numa
  imports Daemon
begin

text \<open>
  numa.c: the list of NUMA nodes. The static \<open>unspecified_node\<close> has address 0, below every
  address that \<open>calloc\<close> gives. A file is its first line, \<open>None\<close> when it cannot be opened, and
  empty when \<open>getline\<close> reads nothing. Freed objects are reset.
\<close>

definition unspecified_node :: oref where "unspecified_node = 0"

definition unspecified_node_template :: topo_obj where
  "unspecified_node_template = \<lparr>load = 0, last_load = 0, obj_type = OBJ_TYPE_NODE, number = - 1,
     powersave_mode = False, mask = CPU_MASK_ALL, interrupts = [], parent = None, children = []\<rparr>"

text \<open>\<open>mask\<close> is the mask before the call, which the parser clears first.\<close>

definition read_mask :: "string option \<Rightarrow> cpumask \<Rightarrow> cpumask \<Rightarrow> cpumask" where
  "read_mask file dflt m =
    (case file of
       None \<Rightarrow> dflt
     | Some [] \<Rightarrow> dflt
     | Some l \<Rightarrow> snd (cpumask_parse_user l m))"

text \<open>\<open>g_list_append\<close> to the list that the type of the object names.\<close>

fun append_obj :: "obj_type \<Rightarrow> oref \<Rightarrow> gstate \<Rightarrow> gstate" where
  "append_obj OBJ_TYPE_CPU d s = s\<lparr>cpu_objs := cpu_objs s @ [d]\<rparr>"
| "append_obj OBJ_TYPE_CACHE d s = s\<lparr>cache_domains := cache_domains s @ [d]\<rparr>"
| "append_obj OBJ_TYPE_PACKAGE d s = s\<lparr>packages := packages s @ [d]\<rparr>"
| "append_obj OBJ_TYPE_NODE d s = s\<lparr>numa_nodes := numa_nodes s @ [d]\<rparr>"

definition add_one_node :: "string \<Rightarrow> string option \<Rightarrow> daemon \<Rightarrow> daemon" where
  "add_one_node nodename cpumap dm =
    (case cpumap of
       None \<Rightarrow> dm
     | Some l \<Rightarrow>
         let new = zero_obj\<lparr>mask := read_mask cpumap cpus_clear CPU_MASK_NONE,
               obj_type := OBJ_TYPE_NODE,
               number := int_of_ulong (fst (strtoull (drop 4 nodename)))\<rparr>;
             (r, dm) = alloc_obj new dm
         in upd_gs (append_obj OBJ_TYPE_NODE r) dm)"

text \<open>A directory entry: its name, whether it is a directory, and its cpumap file.\<close>

type_synonym node_entry = "string \<times> bool \<times> string option"

definition build_numa_node_list :: "node_entry list option \<Rightarrow> daemon \<Rightarrow> daemon" where
  "build_numa_node_list dir dm =
    (let dm = upd_gs (upd_obj unspecified_node (\<lambda>_. unspecified_node_template)) dm;
         dm = upd_gs (append_obj OBJ_TYPE_NODE unspecified_node) dm
     in if \<not> numa_avail (gs dm) then dm
        else case dir of
          None \<Rightarrow> dm
        | Some es \<Rightarrow>
            fold (\<lambda>(name, is_dir, cpumap) dm.
                if is_dir \<and> strstr name ''node'' then add_one_node name cpumap dm else dm) es dm)"

definition free_numa_node :: "oref \<Rightarrow> daemon \<Rightarrow> daemon" where
  "free_numa_node d dm =
    (if d \<noteq> unspecified_node then upd_gs (upd_obj d (\<lambda>_. zero_obj)) dm
     else upd_gs (upd_obj d (\<lambda>ob. ob\<lparr>children := [], interrupts := []\<rparr>)) dm)"

definition free_numa_node_list :: "daemon \<Rightarrow> daemon" where
  "free_numa_node_list dm =
    upd_gs (\<lambda>s. s\<lparr>numa_nodes := []\<rparr>) (fold free_numa_node (numa_nodes (gs dm)) dm)"

definition compare_node :: "gstate \<Rightarrow> oref \<Rightarrow> int \<Rightarrow> int" where
  "compare_node s d n = (if number (objs s d) = n then 0 else 1)"

definition get_numa_node :: "gstate \<Rightarrow> int \<Rightarrow> oref option" where
  "get_numa_node s nodeid =
    (if \<not> numa_avail s then Some unspecified_node
     else if nodeid = - 1 then Some unspecified_node
     else List.find (\<lambda>d. compare_node s d nodeid = 0) (numa_nodes s))"

text \<open>\<open>p->children = g_list_append(p->children, c); c->parent = p\<close>.\<close>

definition adopt :: "oref \<Rightarrow> oref \<Rightarrow> gstate \<Rightarrow> gstate" where
  "adopt p c s =
    upd_obj c (\<lambda>ob. ob\<lparr>parent := Some p\<rparr>) (upd_obj p (\<lambda>ob. ob\<lparr>children := children ob @ [c]\<rparr>) s)"

definition add_package_to_node :: "oref \<Rightarrow> int \<Rightarrow> daemon \<Rightarrow> daemon" where
  "add_package_to_node p nodeid dm =
    (case get_numa_node (gs dm) nodeid of
       None \<Rightarrow> dm
     | Some node \<Rightarrow>
         if parent (objs (gs dm) p) = None then upd_gs (adopt node p) dm else dm)"

end
