(* ===== verification/Cputree.thy ===== *)
theory Cputree
  imports Numa
begin

text \<open>
  cputree.c: building the tree of packages, cache domains and CPUs from sysfs, and clearing the
  statistics. \<open>cpu_dir\<close> is what \<open>do_one_cpu\<close> reads under the directory of one CPU; its files, when
  they can be opened, hold at least one line, and the directory can be listed.
\<close>

definition add_cache_domain_to_package :: "oref \<Rightarrow> int \<Rightarrow> cpumask \<Rightarrow> daemon \<Rightarrow> oref \<times> daemon" where
  "add_cache_domain_to_package cache packageid package_mask dm =
    (let (package, dm) =
       (case List.find (\<lambda>d. cpus_equal package_mask (mask (objs (gs dm) d))) (packages (gs dm)) of
          Some p \<Rightarrow> (p, dm)
        | None \<Rightarrow>
            let (p, dm) = alloc_obj (zero_obj\<lparr>mask := package_mask, obj_type := OBJ_TYPE_PACKAGE,
                                        number := packageid\<rparr>) dm;
                dm = upd_gs (append_obj OBJ_TYPE_PACKAGE p) dm
            in (p, dm\<lparr>package_count := package_count dm + 1\<rparr>))
     in if cache \<in> set (children (objs (gs dm) package)) then (package, dm)
        else (package, upd_gs (adopt package cache) dm))"

definition add_cpu_to_cache_domain :: "oref \<Rightarrow> cpumask \<Rightarrow> daemon \<Rightarrow> oref \<times> daemon" where
  "add_cpu_to_cache_domain cpu cache_mask dm =
    (let (cache, dm) =
       (case List.find (\<lambda>d. cpus_equal cache_mask (mask (objs (gs dm) d))) (cache_domains (gs dm)) of
          Some c \<Rightarrow> (c, dm)
        | None \<Rightarrow>
            let (c, dm) = alloc_obj (zero_obj\<lparr>obj_type := OBJ_TYPE_CACHE, mask := cache_mask,
                                        number := cache_domain_count dm\<rparr>) dm;
                dm = upd_gs (append_obj OBJ_TYPE_CACHE c) dm
            in (c, dm\<lparr>cache_domain_count := cache_domain_count dm + 1\<rparr>))
     in if cpu \<in> set (children (objs (gs dm) cache)) then (cache, dm)
        else (cache, upd_gs (adopt cache cpu) dm))"

text \<open>The CPU goes into its cache, that into the package, that into the node, and the CPU into \<open>cpus\<close>.\<close>

definition insert_cpu :: "oref \<Rightarrow> cpumask \<Rightarrow> cpumask \<Rightarrow> int \<Rightarrow> int \<Rightarrow> daemon \<Rightarrow> daemon" where
  "insert_cpu cpu cache_mask package_mask packageid nodeid dm =
    (let (cache, dm) = add_cpu_to_cache_domain cpu cache_mask dm;
         (package, dm) = add_cache_domain_to_package cache packageid package_mask dm
     in upd_gs (append_obj OBJ_TYPE_CPU cpu) (add_package_to_node package nodeid dm))"

text \<open>
  \<open>shared_cpu_maps\<close> are the maps of cache index 1, 2, ... as far as they exist;
  \<open>package_stack\<close> is what the stack holds in \<open>package_mask\<close>, which is not initialised.
\<close>

record cpu_dir =
  online :: "string option"
  core_siblings :: "string option"
  physical_package_id :: "string option"
  shared_cpu_maps :: "string list"
  dir_entries :: "string list"
  package_stack :: cpumask

fun max_cache_index :: "u64 \<Rightarrow> string list \<Rightarrow> nat \<Rightarrow> nat" where
  "max_cache_index deepest [] k = k"
| "max_cache_index deepest (m # ms) k =
    (if of_nat (Suc k) = deepest then Suc k else max_cache_index deepest ms (Suc k))"

definition node_of_cpu :: "bool \<Rightarrow> string list \<Rightarrow> int" where
  "node_of_cpu avail es =
    (if avail then
       (case List.find (\<lambda>e. strstr e ''node'') es of
          None \<Rightarrow> - 1
        | Some e \<Rightarrow> int_of_ulong (fst (strtoull (drop 4 e))))
     else - 1)"

definition is_offline :: "cpu_dir \<Rightarrow> bool" where
  "is_offline cd = (case online cd of Some (c # _) \<Rightarrow> c = CHR ''0'' | _ \<Rightarrow> False)"

text \<open>A CPU number outside the masks is an index out of range, \<open>None\<close>.\<close>

definition do_one_cpu :: "string \<Rightarrow> cpu_dir \<Rightarrow> daemon \<Rightarrow> daemon option" where
  "do_one_cpu path cd dm =
    (if is_offline cd then Some dm
     else
       let n = int_of_ulong (fst (strtoull (drop 27 path))) in
       if n < 0 \<or> int NR_CPUS \<le> n then None
       else
         let cpu_mask = cpu_set (nat n) CPU_MASK_NONE;
             (cpu, dm) = alloc_obj (zero_obj\<lparr>obj_type := OBJ_TYPE_CPU, number := n, mask := cpu_mask\<rparr>) dm;
             dm = dm\<lparr>cpu_possible_map := cpu_set (nat n) (cpu_possible_map dm)\<rparr>;
             cache_mask = cpu_set (nat n) cpus_clear
         in if cpus_intersects cpu_mask (banned_cpus (gs dm)) then
              Some (upd_gs (upd_obj cpu (\<lambda>_. zero_obj)) (dm\<lparr>core_count := core_count dm + 1\<rparr>))
            else
              let package_mask = read_mask (core_siblings cd) (cpu_set (nat n) (package_stack cd))
                    (cpu_set (nat n) (package_stack cd));
                  packageid = (case physical_package_id cd of
                      None \<Rightarrow> 0 | Some l \<Rightarrow> int_of_ulong (fst (strtoull l)));
                  cache_mask = cpu_set (nat n) cache_mask;
                  k = max_cache_index (deepest_cache dm) (shared_cpu_maps cd) 0;
                  cache_mask = (if k > 0
                    then read_mask (Some (shared_cpu_maps cd ! (k - 1))) cache_mask cache_mask else cache_mask);
                  nodeid = node_of_cpu (numa_avail (gs dm)) (dir_entries cd);
                  cache_mask = cpus_and cache_mask (unbanned_cpus (gs dm));
                  package_mask = cpus_and package_mask (unbanned_cpus (gs dm));
                  dm = insert_cpu cpu cache_mask package_mask packageid nodeid dm
              in Some (dm\<lparr>core_count := core_count dm + 1\<rparr>))"

text \<open>\<open>sscanf(name, "cpu%d%c", ...) == 1\<close> and no blank: \<open>cpu\<close>, a number, and nothing else.\<close>

definition is_cpu_name :: "string \<Rightarrow> bool" where
  "is_cpu_name name \<longleftrightarrow>
    (let (v, r) = strtoull (drop 3 name)
     in take 3 name = ''cpu'' \<and> r \<noteq> drop 3 name \<and> r = [] \<and> CHR '' '' \<notin> set name)"

definition cpu_path :: "string \<Rightarrow> string" where
  "cpu_path name = ''/sys/devices/system/cpu/'' @ name"

definition parse_cpu_tree :: "(string \<times> cpu_dir) list option \<Rightarrow> daemon \<Rightarrow> daemon option" where
  "parse_cpu_tree dir dm =
    (let dm = upd_gs (\<lambda>s. s\<lparr>unbanned_cpus := cpus_complement (banned_cpus s)\<rparr>) dm
     in case dir of
       None \<Rightarrow> Some dm
     | Some es \<Rightarrow>
         for_each (\<lambda>(name, cd) dm.
           if is_cpu_name name then do_one_cpu (cpu_path name) cd dm else Some dm) es dm)"

definition free_objs :: "oref list \<Rightarrow> daemon \<Rightarrow> daemon" where
  "free_objs ds dm = fold (\<lambda>d. upd_gs (upd_obj d (\<lambda>_. zero_obj))) ds dm"

definition clear_cpu_tree :: "daemon \<Rightarrow> daemon" where
  "clear_cpu_tree dm =
    (let dm = upd_gs (\<lambda>s. s\<lparr>packages := []\<rparr>) (free_objs (packages (gs dm)) dm);
         dm = dm\<lparr>package_count := 0\<rparr>;
         dm = upd_gs (\<lambda>s. s\<lparr>cache_domains := []\<rparr>) (free_objs (cache_domains (gs dm)) dm);
         dm = dm\<lparr>cache_domain_count := 0\<rparr>;
         dm = upd_gs (\<lambda>s. s\<lparr>cpu_objs := []\<rparr>) (free_objs (cpu_objs (gs dm)) dm)
     in dm\<lparr>core_count := 0\<rparr>)"

section \<open>Clearing the statistics\<close>

definition clear_irq_stats :: "iref \<Rightarrow> gstate \<Rightarrow> gstate option" where
  "clear_irq_stats i s = Some (upd_irq i (\<lambda>ii. ii\<lparr>iload := 0\<rparr>) s)"

text \<open>
  The recursion goes down the children. It is cut off at a depth, \<open>None\<close> below it; four levels
  are enough for a tree of nodes, packages, caches and CPUs (\<open>clear_obj_stats_total\<close>).
\<close>

fun clear_obj_stats :: "nat \<Rightarrow> oref \<Rightarrow> gstate \<Rightarrow> gstate option" where
  "clear_obj_stats 0 d s = None"
| "clear_obj_stats (Suc k) d s =
    (case for_each_object (children (objs s d)) (clear_obj_stats k) s of
       None \<Rightarrow> None
     | Some s \<Rightarrow> for_each_irq s (interrupts (objs s d)) clear_irq_stats s)"

definition clear_work_stats :: "gstate \<Rightarrow> gstate option" where
  "clear_work_stats s = for_each_object (numa_nodes s) (clear_obj_stats 4) s"

end
