(* ===== verification/Procinterrupts.thy ===== *)
theory Procinterrupts
  imports Daemon
begin

text \<open>
  procinterrupts.c: reading \<open>/proc/interrupts\<close> and \<open>/proc/stat\<close>, and sharing the load of each
  object among its interrupts.

  A file is the list of its lines, or \<open>None\<close> when it cannot be opened. A result \<open>None\<close> is
  undefined behaviour of the C code: an index outside a mask or buffer, a division by zero, or
  a load that does not fit its type.
\<close>

section \<open>/proc/interrupts\<close>

text \<open>The loop over the counters of one line; it ends at the first thing that is no number.\<close>

function sum_counts :: "string \<Rightarrow> u64 \<Rightarrow> int \<Rightarrow> u64 \<times> int" where
  "sum_counts c cnt cpunr =
    (let (C, c2) = strtoull c
     in if c2 = c then (cnt, cpunr) else sum_counts c2 (cnt + C) (cpunr + 1))"
  by pat_completeness auto

termination
  by (relation "measure (\<lambda>(c, _, _). length c)") (auto dest: strtoull_suffix [OF sym])

declare sum_counts.simps [simp del]

definition has_irq_number :: "string \<Rightarrow> bool" where
  "has_irq_number line = (let c = dropWhile isblank line in c \<noteq> [] \<and> isdigit (hd c))"

definition note_msi_text :: "string \<Rightarrow> daemon \<Rightarrow> daemon" where
  "note_msi_text line dm =
    (if \<not> proc_int_has_msi dm \<and> strstr line ''MSI'' then dm\<lparr>proc_int_has_msi := True\<rparr> else dm)"

text \<open>The body of the loop for one line.\<close>

definition proc_irq_line :: "string \<Rightarrow> daemon \<Rightarrow> bool \<times> string \<times> daemon" where
  "proc_irq_line line dm =
    (let dm = note_msi_text line dm in
     if \<not> has_irq_number line then (False, line, dm)
     else case strchr line CHR '':'' of
       None \<Rightarrow> (True, line, dm)
     | Some c \<Rightarrow>
         let line = takeWhile (\<lambda>x. x \<noteq> CHR '':'') line;
             number = int_of_ulong (fst (strtoull line))
         in case get_irq_info (gs dm) number of
              None \<Rightarrow> (False, line, dm\<lparr>need_rescan := True\<rparr>)
            | Some i \<Rightarrow>
                let (cnt, cpunr) = sum_counts (tl c) 0 0 in
                if cpunr \<noteq> core_count dm then (False, line, dm\<lparr>need_rescan := True\<rparr>)
                else if cnt < irq_count (irqs (gs dm) i) then (False, line, dm\<lparr>need_rescan := True\<rparr>)
                else
                  let dm = upd_gs (upd_irq i (\<lambda>ii. ii\<lparr>last_irq_count := irq_count ii, irq_count := cnt\<rparr>)) dm;
                      ty = itype (irqs (gs dm) i)
                  in (True, line,
                      if ty = IRQ_TYPE_MSI \<or> ty = IRQ_TYPE_MSIX then dm\<lparr>msi_found_in_sysfs := True\<rparr> else dm))"

definition parse_proc_interrupts :: "string list option \<Rightarrow> daemon \<Rightarrow> daemon" where
  "parse_proc_interrupts file dm =
    (case file of
       None \<Rightarrow> dm
     | Some ls \<Rightarrow>
         let dm = skip_header proc_irq_line ls dm in
         if proc_int_has_msi dm \<and> \<not> msi_found_in_sysfs dm \<and> \<not> need_rescan dm
         then dm\<lparr>msi_found_in_sysfs := True\<rparr> else dm)"

text \<open>
  \<open>collect_full_irq_list\<close> looks for the name of the interrupt: the token before the last one.
  \<open>strncpy\<close> into 1024 bytes leaves a longer line without a NUL, and \<open>strtok_r\<close> then reads on
  behind the buffer.
\<close>

fun tokens :: "string \<Rightarrow> string \<Rightarrow> string list" where
  "tokens acc [] = (if acc = [] then [] else [acc])"
| "tokens acc (c # s) =
    (if c = CHR '' '' then (if acc = [] then tokens [] s else acc # tokens [] s) else tokens (acc @ [c]) s)"

definition irq_name :: "string \<Rightarrow> string option" where
  "irq_name line =
    (if length line \<ge> 1024 then None
     else let ts = tokens [] line in
       if ts = [] then None else if length ts \<le> 2 then Some (hd ts) else Some (ts ! (length ts - 2)))"

type_synonym irq_list_state = "(iref list \<times> daemon) option"

definition collect_line :: "string \<Rightarrow> irq_list_state \<Rightarrow> bool \<times> string \<times> irq_list_state" where
  "collect_line line st =
    (case st of
       None \<Rightarrow> (False, line, None)
     | Some (tmp, dm) \<Rightarrow>
         if \<not> has_irq_number line then (False, line, st)
         else if CHR '':'' \<notin> set line then (True, line, st)
         else case irq_name line of
           None \<Rightarrow> (False, line, None)
         | Some name \<Rightarrow>
             let line = takeWhile (\<lambda>x. x \<noteq> CHR '':'') line;
                 virt = strstr name ''xen-dyn-event'';
                 info = zero_irq\<lparr>irq := int_of_ulong (fst (strtoull line)),
                   itype := (if virt then IRQ_TYPE_VIRT_EVENT else IRQ_TYPE_LEGACY),
                   iclass := (if virt then IRQ_VIRT_EVENT else IRQ_OTHER),
                   hint_policy := global_hint_policy dm\<rparr>;
                 (r, dm) = alloc_irq info dm
             in (True, line, Some (tmp @ [r], dm)))"

definition collect_full_irq_list :: "string list option \<Rightarrow> daemon \<Rightarrow> irq_list_state" where
  "collect_full_irq_list file dm =
    (case file of
       None \<Rightarrow> Some ([], dm)
     | Some ls \<Rightarrow> skip_header collect_line ls (Some ([], dm)))"

section \<open>Sharing the load\<close>

definition irq_delta :: "gstate \<Rightarrow> iref \<Rightarrow> u64" where
  "irq_delta s i = irq_count (irqs s i) - last_irq_count (irqs s i)"

definition accumulate_irq_count :: "gstate \<Rightarrow> iref \<Rightarrow> u64 \<Rightarrow> u64 option" where
  "accumulate_irq_count s i acc = Some (acc + irq_delta s i)"

definition assign_load_slice :: "u64 \<Rightarrow> iref \<Rightarrow> gstate \<Rightarrow> gstate option" where
  "assign_load_slice load_slice i s =
    (let l = irq_delta s i * load_slice
     in Some (upd_irq i (\<lambda>ii. ii\<lparr>iload := (if l = 0 then 1 else l)\<rparr>) s))"

text \<open>A cycle of \<open>parent\<close> pointers is a recursion without end, also \<open>None\<close>.\<close>

partial_function (option) get_parent_branch_irq_count_share :: "gstate \<Rightarrow> oref \<Rightarrow> u64 option" where
  "get_parent_branch_irq_count_share s d =
    Option.bind
      (case parent (objs s d) of
         None \<Rightarrow> Some 0
       | Some p \<Rightarrow> Option.bind (get_parent_branch_irq_count_share s p) (\<lambda>t.
           if children (objs s p) = [] then None
           else Some (t div of_nat (length (children (objs s p))))))
      (\<lambda>total_irq_count.
        if length (interrupts (objs s d)) > 0
        then for_each_irq s (interrupts (objs s d)) (accumulate_irq_count s) total_irq_count
        else Some total_irq_count)"

definition compute_irq_branch_load_share :: "oref \<Rightarrow> gstate \<Rightarrow> gstate option" where
  "compute_irq_branch_load_share d s = do {
     let load_divisor = length (children (objs s d));
     let s = upd_obj d (\<lambda>ob. ob\<lparr>load := load ob div (if load_divisor \<noteq> 0 then of_nat load_divisor else 1)\<rparr>) s;
     s \<leftarrow> (if length (interrupts (objs s d)) > 0 then do {
         local_irq_counts \<leftarrow> get_parent_branch_irq_count_share s d;
         let load_slice = (if local_irq_counts \<noteq> 0 then load (objs s d) div local_irq_counts else 1);
         for_each_irq s (interrupts (objs s d)) (assign_load_slice load_slice) s
       } else Some s);
     Some (case parent (objs s d) of
         None \<Rightarrow> s
       | Some p \<Rightarrow> upd_obj p (\<lambda>ob. ob\<lparr>load := load ob + load (objs s d)\<rparr>) s)
   }"

partial_function (option) reset_load :: "oref \<Rightarrow> gstate \<Rightarrow> gstate option" where
  "reset_load d s =
    Option.bind
      (case parent (objs s d) of None \<Rightarrow> Some s | Some p \<Rightarrow> reset_load p s)
      (\<lambda>s. Some (upd_obj d (\<lambda>ob. ob\<lparr>load := 0\<rparr>) s))"

section \<open>/proc/stat\<close>

fun scan_numbers :: "nat \<Rightarrow> string \<Rightarrow> u64 list" where
  "scan_numbers 0 s = []"
| "scan_numbers (Suc n) s = (let (v, r) = strtoull s in if r = s then [] else v # scan_numbers n r)"

text \<open>\<open>sscanf(line, "%*s %*u %*u %*u %*u %*u %llu %llu", ...)\<close>, \<open>None\<close> when fewer than two are read.\<close>

definition scan_cpu_times :: "string \<Rightarrow> (u64 \<times> u64) option" where
  "scan_cpu_times line =
    (let t = dropWhile isspace line;
         ns = scan_numbers 7 (dropWhile (\<lambda>c. \<not> isspace c) t)
     in if t = [] \<or> length ns < 7 then None else Some (ns ! 5, ns ! 6))"

text \<open>
  \<open>load *= NSEC_PER_SEC/HZ\<close> is a floating point product. The model takes the exact product and
  cuts it off to an integer; the rounding of the floating point numbers is not modelled.
\<close>

definition load_to_ns :: "u64 \<Rightarrow> int \<Rightarrow> u64 option" where
  "load_to_ns l hz =
    (let v = unat l * 10 ^ 9 div nat hz in if hz \<le> 0 \<or> v \<ge> 2 ^ 64 then None else Some (of_nat v))"

definition find_cpu_core :: "gstate \<Rightarrow> int \<Rightarrow> oref option" where
  "find_cpu_core s cpunr = List.find (\<lambda>c. number (objs s c) - cpunr = 0) (cpu_objs s)"

definition get_cpu_count :: "gstate \<Rightarrow> nat" where
  "get_cpu_count s = length (cpu_objs s)"

type_synonym stat_state = "(nat \<times> gstate) option"

definition proc_stat_line :: "int \<Rightarrow> string \<Rightarrow> stat_state \<Rightarrow> bool \<times> string \<times> stat_state" where
  "proc_stat_line hz line st =
    (case st of
       None \<Rightarrow> (False, line, None)
     | Some (cpucount, s) \<Rightarrow>
         if \<not> strstr line ''cpu'' then (False, line, st)
         else
           let cpunr = int_of_ulong (fst (strtoull (drop 3 line))) in
           if cpunr < 0 \<or> int NR_CPUS \<le> cpunr then (False, line, None)
           else if cpu_isset (nat cpunr) (banned_cpus s) then (True, line, st)
           else case scan_cpu_times line of
             None \<Rightarrow> (False, line, st)
           | Some (hard, soft) \<Rightarrow>
               (case find_cpu_core s cpunr of
                  None \<Rightarrow> (False, line, st)
                | Some c \<Rightarrow>
                    let busy = hard + soft in
                    if cycle_count s = 0 then
                      (True, line, Some (cpucount + 1, upd_obj c (\<lambda>ob. ob\<lparr>last_load := busy\<rparr>) s))
                    else case load_to_ns (busy - last_load (objs s c)) hz of
                      None \<Rightarrow> (False, line, None)
                    | Some l \<Rightarrow>
                        (True, line,
                         Some (cpucount + 1, upd_obj c (\<lambda>ob. ob\<lparr>load := l, last_load := busy\<rparr>) s))))"

definition share_loads :: "gstate \<Rightarrow> gstate option" where
  "share_loads s = do {
     s \<leftarrow> for_each_object (cache_domains s) reset_load s;
     s \<leftarrow> for_each_object (cpu_objs s) compute_irq_branch_load_share s;
     s \<leftarrow> for_each_object (cache_domains s) compute_irq_branch_load_share s;
     s \<leftarrow> for_each_object (packages s) compute_irq_branch_load_share s;
     for_each_object (numa_nodes s) compute_irq_branch_load_share s
   }"

definition parse_proc_stat :: "int \<Rightarrow> string list option \<Rightarrow> gstate \<Rightarrow> gstate option" where
  "parse_proc_stat hz file s =
    (case file of
       None \<Rightarrow> Some s
     | Some ls \<Rightarrow> do {
         (cpucount, s) \<leftarrow> skip_header (proc_stat_line hz) ls (Some (0, s));
         if cpucount \<noteq> get_cpu_count s then Some s else share_loads s
       })"

section \<open>The load of an object and of its interrupts\<close>

text \<open>A state without the loads.\<close>

definition strip_loads :: "gstate \<Rightarrow> gstate" where
  "strip_loads s = s\<lparr>objs := \<lambda>d. (objs s d)\<lparr>load := 0\<rparr>, irqs := \<lambda>i. (irqs s i)\<lparr>iload := 0\<rparr>\<rparr>"

definition loads_only :: "gstate \<Rightarrow> gstate \<Rightarrow> bool" where
  "loads_only s s' \<longleftrightarrow> strip_loads s' = strip_loads s"

lemma loads_only_refl [simp]: "loads_only s s"
  by (simp add: loads_only_def)

lemma loads_only_trans: "loads_only s t \<Longrightarrow> loads_only t u \<Longrightarrow> loads_only s u"
  by (simp add: loads_only_def)

lemma loads_only_upd:
  "loads_only s (upd_obj d (\<lambda>ob. ob\<lparr>load := f ob\<rparr>) s)" "loads_only s (upd_irq i (\<lambda>ii. ii\<lparr>iload := g ii\<rparr>) s)"
  by (simp_all add: loads_only_def strip_loads_def upd_obj_def upd_irq_def fun_eq_iff)

lemma loads_only_fields:
  assumes "loads_only s s'"
  shows "interrupts (objs s' d) = interrupts (objs s d)" "parent (objs s' d) = parent (objs s d)"
    "children (objs s' d) = children (objs s d)" "obj_type (objs s' d) = obj_type (objs s d)"
    "irq_count (irqs s' i) = irq_count (irqs s i)" "last_irq_count (irqs s' i) = last_irq_count (irqs s i)"
    "assigned_obj (irqs s' i) = assigned_obj (irqs s i)" "irq (irqs s' i) = irq (irqs s i)"
    "interrupts_db s' = interrupts_db s" "rebalance_irq_list s' = rebalance_irq_list s"
    "cpu_objs s' = cpu_objs s" "packages s' = packages s" "cache_domains s' = cache_domains s"
    "numa_nodes s' = numa_nodes s"
proof -
  have eq: "strip_loads s' = strip_loads s" using assms by (simp add: loads_only_def)
  have d: "objs (strip_loads s') d = objs (strip_loads s) d" and i: "irqs (strip_loads s') i = irqs (strip_loads s) i"
    using eq by simp_all
  show "interrupts (objs s' d) = interrupts (objs s d)" "parent (objs s' d) = parent (objs s d)"
    "children (objs s' d) = children (objs s d)" "obj_type (objs s' d) = obj_type (objs s d)"
    using arg_cong [OF d, of interrupts] arg_cong [OF d, of parent] arg_cong [OF d, of children]
      arg_cong [OF d, of obj_type] by (simp_all add: strip_loads_def)
  show "irq_count (irqs s' i) = irq_count (irqs s i)" "last_irq_count (irqs s' i) = last_irq_count (irqs s i)"
    "assigned_obj (irqs s' i) = assigned_obj (irqs s i)" "irq (irqs s' i) = irq (irqs s i)"
    using arg_cong [OF i, of irq_count] arg_cong [OF i, of last_irq_count] arg_cong [OF i, of assigned_obj]
      arg_cong [OF i, of irq] by (simp_all add: strip_loads_def)
  show "interrupts_db s' = interrupts_db s" "rebalance_irq_list s' = rebalance_irq_list s"
    "cpu_objs s' = cpu_objs s" "packages s' = packages s" "cache_domains s' = cache_domains s"
    "numa_nodes s' = numa_nodes s"
    using arg_cong [OF eq, of interrupts_db] arg_cong [OF eq, of rebalance_irq_list]
      arg_cong [OF eq, of cpu_objs] arg_cong [OF eq, of packages] arg_cong [OF eq, of cache_domains]
      arg_cong [OF eq, of numa_nodes] by (simp_all add: strip_loads_def)
qed

lemma irq_delta_loads_only: "loads_only s s' \<Longrightarrow> irq_delta s' = irq_delta s"
  by (simp add: irq_delta_def fun_eq_iff loads_only_fields [of s s'])

lemma consistent_loads_only: "loads_only s s' \<Longrightarrow> irqs_consistent s' = irqs_consistent s"
  unfolding irqs_consistent_def by (simp only: loads_only_fields [of s s'])

fun obj_rank :: "obj_type \<Rightarrow> nat" where
  "obj_rank OBJ_TYPE_NODE = 0"
| "obj_rank OBJ_TYPE_PACKAGE = 1"
| "obj_rank OBJ_TYPE_CACHE = 2"
| "obj_rank OBJ_TYPE_CPU = 3"

definition parents_ok :: "gstate \<Rightarrow> bool" where
  "parents_ok s \<longleftrightarrow> (\<forall>d p. parent (objs s d) = Some p \<longrightarrow>
     obj_rank (obj_type (objs s p)) < obj_rank (obj_type (objs s d)) \<and> d \<in> set (children (objs s p)))"

lemma parents_ok_loads_only: "loads_only s s' \<Longrightarrow> parents_ok s' = parents_ok s"
  unfolding parents_ok_def by (simp only: loads_only_fields [of s s'])

text \<open>All the interrupts counted since the last reading.\<close>

definition all_deltas :: "gstate \<Rightarrow> nat" where
  "all_deltas s = (\<Sum>i \<in> set (interrupts_db s). unat (irq_delta s i))"

lemma object_deltas_le:
  assumes "irqs_consistent s"
  shows "(\<Sum>i \<in> set (interrupts (objs s d)). unat (irq_delta s i)) \<le> all_deltas s"
  unfolding all_deltas_def using assms by (intro sum_mono2) (auto simp: irqs_consistent_def)

lemma unat_add_small: "unat a + unat b < 2 ^ 64 \<Longrightarrow> unat (a + b :: u64) = unat a + unat b"
  by (simp add: unat_word_ariths(1))

lemma accumulate_loop:
  assumes "distinct xs" "unat acc + (\<Sum>i \<in> set xs. unat (irq_delta s i)) < 2 ^ 64"
  shows "\<exists>v. for_each (accumulate_irq_count s) xs acc = Some v
    \<and> unat v = unat acc + (\<Sum>i \<in> set xs. unat (irq_delta s i))"
  using assms
proof (induction xs arbitrary: acc)
  case (Cons x xs)
  then have "unat (acc + irq_delta s x) = unat acc + unat (irq_delta s x)"
    by (intro unat_add_small) simp
  with Cons.IH [of "acc + irq_delta s x"] Cons.prems show ?case
    by (simp add: accumulate_irq_count_def add.assoc)
qed simp

lemma branch_share:
  assumes c: "irqs_consistent s" and p: "parents_ok s" and small: "4 * all_deltas s < 2 ^ 64"
  shows "\<exists>v. get_parent_branch_irq_count_share s d = Some v
    \<and> unat v \<le> (obj_rank (obj_type (objs s d)) + 1) * all_deltas s
    \<and> (\<Sum>i \<in> set (interrupts (objs s d)). unat (irq_delta s i)) \<le> unat v"
proof (induction "obj_rank (obj_type (objs s d))" arbitrary: d rule: less_induct)
  case less
  let ?r = "obj_rank (obj_type (objs s d))" and ?T = "all_deltas s"
  have r3: "?r \<le> 3" by (cases "obj_type (objs s d)") auto
  have bound: "(?r + 1) * ?T < 2 ^ 64"
  proof -
    have "(?r + 1) * ?T \<le> 4 * ?T" by (rule mult_le_mono1) (use r3 in simp)
    then show ?thesis using small by (rule le_less_trans)
  qed
  obtain t where t: "(case parent (objs s d) of
         None \<Rightarrow> Some 0
       | Some p \<Rightarrow> Option.bind (get_parent_branch_irq_count_share s p) (\<lambda>t.
           if children (objs s p) = [] then None
           else Some (t div of_nat (length (children (objs s p)))))) = Some t"
    "unat t \<le> ?r * ?T"
  proof (cases "parent (objs s d)")
    case (Some q)
    then have q: "obj_rank (obj_type (objs s q)) < ?r" "d \<in> set (children (objs s q))"
      using p by (auto simp: parents_ok_def)
    obtain v where v: "get_parent_branch_irq_count_share s q = Some v"
      "unat v \<le> (obj_rank (obj_type (objs s q)) + 1) * ?T"
      using less [OF q(1)] by blast
    have "unat (v div of_nat (length (children (objs s q)))) \<le> unat v"
      by (simp add: unat_div div_le_dividend)
    also have "\<dots> \<le> (obj_rank (obj_type (objs s q)) + 1) * ?T" by (rule v(2))
    also have "\<dots> \<le> ?r * ?T" by (rule mult_le_mono1) (use q(1) in simp)
    finally have le: "unat (v div of_nat (length (children (objs s q)))) \<le> ?r * ?T" .
    have "children (objs s q) \<noteq> []" using q(2) by auto
    with Some v(1) le show thesis using that [of "v div of_nat (length (children (objs s q)))"] by simp
  qed (use that in auto)
  have d: "distinct (interrupts (objs s d))" using c by (simp add: irqs_consistent_def)
  have le: "unat t + (\<Sum>i \<in> set (interrupts (objs s d)). unat (irq_delta s i)) \<le> (?r + 1) * ?T"
    using t(2) object_deltas_le [OF c, of d] by simp
  then obtain v where v: "for_each (accumulate_irq_count s) (interrupts (objs s d)) t = Some v"
    "unat v = unat t + (\<Sum>i \<in> set (interrupts (objs s d)). unat (irq_delta s i))"
    using accumulate_loop [OF d, of t s] bound by auto
  have "get_parent_branch_irq_count_share s d = Some v"
    by (subst get_parent_branch_irq_count_share.simps, subst t(1)) (use v(1) in \<open>auto simp: for_each_irq_def\<close>)
  with v(2) le show ?case by auto
qed

lemma assign_loop:
  assumes "distinct xs"
  shows "\<exists>s'. for_each (assign_load_slice sl) xs s = Some s' \<and> loads_only s s' \<and> objs s' = objs s
    \<and> (\<forall>i. iload (irqs s' i) = (if i \<in> set xs then (let l = irq_delta s i * sl in if l = 0 then 1 else l)
                                 else iload (irqs s i)))"
  using assms
proof (induction xs arbitrary: s)
  case (Cons x xs)
  let ?l = "irq_delta s x * sl"
  let ?s = "upd_irq x (\<lambda>ii. ii\<lparr>iload := if ?l = 0 then 1 else ?l\<rparr>) s"
  have lo: "loads_only s ?s" by (rule loads_only_upd)
  from Cons.IH [of ?s] Cons.prems obtain s' where s': "for_each (assign_load_slice sl) xs ?s = Some s'"
    "loads_only ?s s'" "objs s' = objs ?s"
    "\<And>i. iload (irqs s' i) = (if i \<in> set xs then (let l = irq_delta ?s i * sl in if l = 0 then 1 else l)
                                 else iload (irqs ?s i))" by auto
  have "iload (irqs s' i) = (if i \<in> set (x # xs) then (let l = irq_delta s i * sl in if l = 0 then 1 else l)
                                 else iload (irqs s i))" for i
    unfolding s'(4) irq_delta_loads_only [OF lo] using Cons.prems by auto
  moreover have "for_each (assign_load_slice sl) (x # xs) s = Some s'"
    using s'(1) by (simp add: assign_load_slice_def Let_def)
  moreover have "objs s' = objs s" using s'(3) by simp
  ultimately show ?case using loads_only_trans [OF lo s'(2)] by blast
qed simp

section \<open>The budget\<close>

lemma mult_no_wrap: "unat a * unat b < 2 ^ 64 \<Longrightarrow> unat (a * b :: u64) = unat a * unat b"
  by (simp add: unat_word_ariths(2))

text \<open>\<open>load_slice = load / count\<close>: count times slice is at most the load.\<close>

lemma slices_within:
  assumes l: "\<And>i. i \<in> I \<Longrightarrow> l i = (let x = delta i * (if v \<noteq> 0 then L div v else 1) in if x = 0 then 1 else x)"
    and v: "(\<Sum>i \<in> I. unat (delta i :: u64)) \<le> unat v" and fin: "finite I"
  shows "(\<Sum>i \<in> {i \<in> I. 1 < l i}. unat (l i)) \<le> unat L"
proof (cases "v = 0")
  case True
  then have "\<forall>i \<in> I. delta i = 0" using v fin by (simp add: unat_eq_zero)
  then have "{i \<in> I. 1 < l i} = {}" using l by auto
  then show ?thesis by (simp only: sum.empty)
next
  case False
  let ?s = "L div v"
  have vs: "unat v * unat ?s \<le> unat L" by (simp add: unat_div)
  have each: "unat (delta i) \<le> unat v" if "i \<in> I" for i
    using v member_le_sum [OF that _ fin, of "\<lambda>i. unat (delta i)"] by simp
  have nat_mult: "unat (delta i * ?s) = unat (delta i) * unat ?s" if "i \<in> I" for i
  proof (rule mult_no_wrap)
    have "unat (delta i) * unat ?s \<le> unat L" using mult_le_mono1 [OF each [OF that], of "unat ?s"] vs by linarith
    also have "unat L < 2 ^ 64" using unsigned_less [of L] by simp
    finally show "unat (delta i) * unat ?s < 2 ^ 64" .
  qed
  have "(\<Sum>i \<in> {i \<in> I. 1 < l i}. unat (l i)) = (\<Sum>i \<in> {i \<in> I. 1 < l i}. unat (delta i) * unat ?s)"
    by (rule sum.cong) (use l nat_mult False in \<open>auto simp: Let_def split: if_splits\<close>)
  also have "\<dots> \<le> (\<Sum>i \<in> I. unat (delta i) * unat ?s)" using fin by (intro sum_mono2) auto
  also have "\<dots> = (\<Sum>i \<in> I. unat (delta i)) * unat ?s" by (simp add: sum_distrib_right)
  also have "\<dots> \<le> unat v * unat ?s" using v by (rule mult_le_mono1)
  finally show ?thesis using vs by linarith
qed

lemma load_budget_cong:
  assumes "interrupts (objs s' d) = interrupts (objs s d)" "load (objs s' d) = load (objs s d)"
    "\<And>i. i \<in> set (interrupts (objs s d)) \<Longrightarrow> iload (irqs s' i) = iload (irqs s i)"
  shows "load_budget s' d = load_budget s d"
proof -
  have "heavy_irqs s' d = heavy_irqs s d" using assms by (auto simp: heavy_irqs_def)
  moreover have "(\<Sum>i \<in> heavy_irqs s d. irq_load s' i) = (\<Sum>i \<in> heavy_irqs s d. irq_load s i)"
    using assms(3) by (intro sum.cong) (auto simp: heavy_irqs_def irq_load_def)
  ultimately show ?thesis using assms(2) by (simp add: load_budget_def)
qed

lemma compute_share_step:
  assumes c: "irqs_consistent s" and p: "parents_ok s" and small: "4 * all_deltas s < 2 ^ 64"
  shows "\<exists>s'. compute_irq_branch_load_share d s = Some s' \<and> loads_only s s' \<and> load_budget s' d
    \<and> (\<forall>e. e \<noteq> d \<and> parent (objs s d) \<noteq> Some e \<longrightarrow> load (objs s' e) = load (objs s e))
    \<and> (\<forall>i. i \<notin> set (interrupts (objs s d)) \<longrightarrow> iload (irqs s' i) = iload (irqs s i))
    \<and> (\<forall>i \<in> set (interrupts (objs s d)). 0 < iload (irqs s' i))"
proof -
  define n where "n = length (children (objs s d))"
  define s1 where "s1 = upd_obj d (\<lambda>ob. ob\<lparr>load := load ob div (if n \<noteq> 0 then of_nat n else 1)\<rparr>) s"
  let ?is = "interrupts (objs s d)"
  have l1: "loads_only s s1" unfolding s1_def by (rule loads_only_upd)
  note same = consistent_loads_only [OF l1] parents_ok_loads_only [OF l1] irq_delta_loads_only [OF l1]
    loads_only_fields [OF l1]
  have del: "all_deltas s1 = all_deltas s" by (simp add: all_deltas_def same)
  obtain v where v: "get_parent_branch_irq_count_share s1 d = Some v"
    "(\<Sum>i \<in> set ?is. unat (irq_delta s i)) \<le> unat v"
    using branch_share [of s1 d] c p small by (auto simp: same del)
  define sl where "sl = (if v \<noteq> 0 then load (objs s1 d) div v else 1)"
  have "distinct ?is" using c by (simp add: irqs_consistent_def)
  from assign_loop [OF this, of sl s1] obtain s2 where
    s2: "for_each (assign_load_slice sl) ?is s1 = Some s2" "loads_only s1 s2" "objs s2 = objs s1"
    "\<And>i. iload (irqs s2 i) = (if i \<in> set ?is then (let l = irq_delta s i * sl in if l = 0 then 1 else l)
                                 else iload (irqs s1 i))"
    by (auto simp: same)
  define s3 where "s3 = (case parent (objs s2 d) of None \<Rightarrow> s2
       | Some q \<Rightarrow> upd_obj q (\<lambda>ob. ob\<lparr>load := load ob + load (objs s2 d)\<rparr>) s2)"
  have l3: "loads_only s s3"
    unfolding s3_def using loads_only_trans [OF loads_only_trans [OF l1 s2(2)] loads_only_upd(1)]
      loads_only_trans [OF l1 s2(2)] by (auto split: option.split)
  have run: "compute_irq_branch_load_share d s = Some s3"
  proof (cases "?is = []")
    case True
    then have eq: "s2 = s1" using s2(1) by simp
    from True show ?thesis
      unfolding compute_irq_branch_load_share_def Let_def n_def [symmetric] s1_def [symmetric] s3_def eq
      by (simp add: same)
  next
    case False
    have "for_each (assign_load_slice (if v \<noteq> 0 then load (objs s1 d) div v else 1)) ?is s1 = Some s2"
      using s2(1) by (simp only: sl_def)
    with False v(1) show ?thesis
      unfolding compute_irq_branch_load_share_def Let_def n_def [symmetric] s1_def [symmetric]
      by (simp add: same s3_def for_each_irq_def)
  qed
  have irqs3: "irqs s3 = irqs s2" by (simp add: s3_def split: option.split)
  have np: "parent (objs s d) \<noteq> Some d" using p by (auto simp: parents_ok_def)
  have par: "parent (objs s2 d) = parent (objs s d)" by (simp add: s2(3) same)
  have load3: "load (objs s3 e) = load (objs s1 e)" if "parent (objs s d) \<noteq> Some e" for e
    using that by (auto simp: s3_def same s2(3) split: option.split)
  have "(\<Sum>i \<in> {i \<in> set ?is. 1 < iload (irqs s3 i)}. unat (iload (irqs s3 i))) \<le> unat (load (objs s1 d))"
    by (rule slices_within [where v = v and delta = "irq_delta s"])
      (use v(2) in \<open>auto simp: irqs3 s2(4) sl_def Let_def\<close>)
  then have "load_budget s3 d"
    by (simp add: load_budget_def heavy_irqs_def irq_load_def loads_only_fields [OF l3] load3 [OF np])
  moreover have "load (objs s3 e) = load (objs s e)" if "e \<noteq> d" "parent (objs s d) \<noteq> Some e" for e
    using load3 [OF that(2)] that(1) by (simp add: s1_def)
  moreover have "iload (irqs s3 i) = iload (irqs s i)" if "i \<notin> set ?is" for i
    using that by (simp add: irqs3 s2(4) s1_def)
  moreover have "0 < iload (irqs s3 i)" if "i \<in> set ?is" for i
    using that by (simp add: irqs3 s2(4) Let_def word_neq_0_conv)
  ultimately show ?thesis using run l3 by blast
qed

lemma reset_load_step:
  assumes "parents_ok s"
  shows "\<exists>s'. reset_load d s = Some s' \<and> loads_only s s'"
  using assms
proof (induction "obj_rank (obj_type (objs s d))" arbitrary: d rule: less_induct)
  case less
  show ?case
  proof (cases "parent (objs s d)")
    case None
    then show ?thesis by (subst reset_load.simps) (simp add: loads_only_upd)
  next
    case (Some p)
    then have "obj_rank (obj_type (objs s p)) < obj_rank (obj_type (objs s d))"
      using less.prems by (auto simp: parents_ok_def)
    then obtain t where t: "reset_load p s = Some t" "loads_only s t" using less by blast
    have "loads_only s (upd_obj d (\<lambda>ob. ob\<lparr>load := 0\<rparr>) t)"
      using loads_only_trans [OF t(2) loads_only_upd(1)] .
    then show ?thesis using Some t(1) by (subst reset_load.simps) simp
  qed
qed

definition children_first :: "gstate \<Rightarrow> oref list \<Rightarrow> bool" where
  "children_first s ds \<longleftrightarrow> distinct ds
    \<and> (\<forall>k < length ds. \<forall>p. parent (objs s (ds ! k)) = Some p \<longrightarrow> p \<notin> set (take k ds))"

definition load_order :: "gstate \<Rightarrow> oref list" where
  "load_order s = cpu_objs s @ cache_domains s @ packages s @ numa_nodes s"

definition share_pre :: "gstate \<Rightarrow> bool" where
  "share_pre s \<longleftrightarrow> irqs_consistent s \<and> parents_ok s \<and> 4 * all_deltas s < 2 ^ 64
    \<and> children_first s (load_order s)"

lemma share_pre_loads_only:
  assumes "loads_only s s'" shows "share_pre s' = share_pre s" "load_order s' = load_order s"
  by (simp_all add: share_pre_def consistent_loads_only [OF assms] parents_ok_loads_only [OF assms]
      all_deltas_def irq_delta_loads_only [OF assms] children_first_def load_order_def loads_only_fields [OF assms])

definition shared_upto :: "gstate \<Rightarrow> oref list \<Rightarrow> gstate \<Rightarrow> bool" where
  "shared_upto s0 xs s \<longleftrightarrow> loads_only s0 s
    \<and> (\<exists>ys. load_order s0 = ys @ xs \<and> (\<forall>d \<in> set ys. load_budget s d \<and>
          (\<forall>i \<in> set (interrupts (objs s0 d)). 0 < iload (irqs s i))))"

lemma shared_step:
  assumes pre: "share_pre s0" and inv: "shared_upto s0 (d # xs) s"
  shows "\<exists>s'. compute_irq_branch_load_share d s = Some s' \<and> shared_upto s0 xs s'"
proof -
  obtain ys where lo: "loads_only s0 s" and ys: "load_order s0 = ys @ d # xs"
    and bud: "\<forall>e \<in> set ys. load_budget s e \<and> (\<forall>i \<in> set (interrupts (objs s0 e)). 0 < iload (irqs s i))"
    using inv by (auto simp: shared_upto_def)
  have "share_pre s" using pre share_pre_loads_only [OF lo] by simp
  then have s: "irqs_consistent s" "parents_ok s" "4 * all_deltas s < 2 ^ 64"
    by (simp_all add: share_pre_def)
  have cf: "children_first s0 (ys @ d # xs)" using pre by (simp add: share_pre_def ys)
  have dn: "d \<notin> set ys" using cf by (simp add: children_first_def)
  have pn: "p \<notin> set ys" if "parent (objs s d) = Some p" for p
    using cf that loads_only_fields(2) [OF lo, of d]
    by (auto simp: children_first_def dest: spec [of _ "length ys"])
  obtain s' where s': "compute_irq_branch_load_share d s = Some s'" "loads_only s s'" "load_budget s' d"
    "\<forall>e. e \<noteq> d \<and> parent (objs s d) \<noteq> Some e \<longrightarrow> load (objs s' e) = load (objs s e)"
    "\<forall>i. i \<notin> set (interrupts (objs s d)) \<longrightarrow> iload (irqs s' i) = iload (irqs s i)"
    "\<forall>i \<in> set (interrupts (objs s d)). 0 < iload (irqs s' i)"
    using compute_share_step [OF s] by blast
  have keep: "iload (irqs s' i) = iload (irqs s i)" if "e \<noteq> d" "i \<in> set (interrupts (objs s e))" for e i
    using that s(1) s'(5) by (auto simp: irqs_consistent_def)
  have "load_budget s' e \<and> (\<forall>i \<in> set (interrupts (objs s0 e)). 0 < iload (irqs s' i))"
    if e: "e \<in> set (ys @ [d])" for e
  proof (cases "e = d")
    case True
    then show ?thesis using s'(3,6) loads_only_fields(1) [OF lo] by simp
  next
    case False
    with e have y: "e \<in> set ys" by simp
    then have "parent (objs s d) \<noteq> Some e" using pn by blast
    then have "load (objs s' e) = load (objs s e)" using s'(4) False by blast
    then have "load_budget s' e = load_budget s e"
      using loads_only_fields(1) [OF s'(2)] keep [OF False] by (intro load_budget_cong) auto
    moreover have "\<forall>i \<in> set (interrupts (objs s0 e)). 0 < iload (irqs s' i)"
      using bud y keep [OF False] loads_only_fields(1) [OF lo] by simp
    ultimately show ?thesis using bud y by simp
  qed
  with s'(1) ys loads_only_trans [OF lo s'(2)] show ?thesis
    unfolding shared_upto_def by (intro exI [of _ s'] conjI exI [of _ "ys @ [d]"]) auto
qed

lemma share_loads_all:
  assumes pre: "share_pre s"
  shows "\<exists>s'. share_loads s = Some s' \<and> loads_only s s' \<and> (\<forall>d \<in> set (load_order s).
    load_budget s' d \<and> (\<forall>i \<in> set (interrupts (objs s d)). 0 < iload (irqs s' i)))"
proof -
  have reset: "\<exists>t'. reset_load x t = Some t' \<and> loads_only s t'" if "loads_only s t" for x t
    using reset_load_step [of t x] pre parents_ok_loads_only [OF that] loads_only_trans [OF that]
    by (auto simp: share_pre_def)
  obtain s0 where s0: "for_each_object (cache_domains s) reset_load s = Some s0" "loads_only s s0"
    using for_each_total [where P = "\<lambda>_ t. loads_only s t" and cb = reset_load, OF loads_only_refl reset]
    by (auto simp: for_each_object_def)
  let ?f = "for_each compute_irq_branch_load_share"
  have "shared_upto s (load_order s) s0" using s0(2) by (auto simp: shared_upto_def)
  then obtain s' where s': "?f (load_order s) s0 = Some s'" "shared_upto s [] s'"
    using for_each_total [where P = "shared_upto s" and cb = compute_irq_branch_load_share,
        OF _ shared_step [OF pre]] by blast
  have lists: "loads_only s t \<Longrightarrow> cpu_objs t = cpu_objs s \<and> cache_domains t = cache_domains s
      \<and> packages t = packages s \<and> numa_nodes t = numa_nodes s" for t
    using loads_only_fields(11-14) by auto
  have keeps: "loads_only s t'" if "?f ds t = Some t'" "loads_only s t" "set ds \<subseteq> set (load_order s)" for ds t t'
    using that(1)
  proof (rule for_each_keeps [where P = "loads_only s"])
    fix x t t' assume *: "loads_only s t" "compute_irq_branch_load_share x t = Some t'"
    then have "share_pre t" using share_pre_loads_only pre by simp
    with compute_share_step [of t x] * show "loads_only s t'"
      using loads_only_trans [OF *(1)] by (auto simp: share_pre_def)
  qed (rule that(2))
  obtain s1 s2 s3 where s1: "?f (cpu_objs s) s0 = Some s1" and s2: "?f (cache_domains s) s1 = Some s2"
    and s3: "?f (packages s) s2 = Some s3" and s4: "?f (numa_nodes s) s3 = Some s'"
    using s'(1) unfolding load_order_def for_each_append by (auto split: option.splits)
  have l1: "loads_only s s1" and l2: "loads_only s s2" and l3: "loads_only s s3"
    using keeps [OF s1 s0(2)] keeps [OF s2] keeps [OF s3] by (auto simp: load_order_def)
  have "share_loads s = Some s'"
    unfolding share_loads_def
    using s0(1) s1 s2 s3 s4 lists [OF s0(2)] lists [OF l1] lists [OF l2] lists [OF l3]
    by (simp add: for_each_object_def)
  with s'(2) show ?thesis unfolding shared_upto_def by (intro exI [of _ s']) auto
qed

section \<open>What a line gives\<close>

lemma get_irq_info_irq: "get_irq_info s n = Some i \<Longrightarrow> irq (irqs s i) = n"
  by (auto simp: get_irq_info_def find_irq_def find_Some_iff split: option.splits)

definition counts_ok :: "gstate \<Rightarrow> bool" where
  "counts_ok s \<longleftrightarrow> (\<forall>i. last_irq_count (irqs s i) \<le> irq_count (irqs s i))"

text \<open>A state with other counters only.\<close>

definition counts_only :: "gstate \<Rightarrow> gstate \<Rightarrow> bool" where
  "counts_only s s' \<longleftrightarrow> s'\<lparr>irqs := irqs s\<rparr> = s
    \<and> (\<forall>i. (irqs s' i)\<lparr>irq_count := 0, last_irq_count := 0\<rparr> = (irqs s i)\<lparr>irq_count := 0, last_irq_count := 0\<rparr>)"

lemma counts_only_refl [simp]: "counts_only s s"
  by (simp add: counts_only_def)

lemma counts_only_trans: "counts_only s t \<Longrightarrow> counts_only t u \<Longrightarrow> counts_only s u"
  unfolding counts_only_def by (cases s, cases t, cases u) auto

lemma counts_only_upd:
  "counts_only s (upd_irq i (\<lambda>ii. ii\<lparr>last_irq_count := irq_count ii, irq_count := v\<rparr>) s)"
  by (simp add: counts_only_def upd_irq_def)

lemma counts_only_fields:
  assumes "counts_only s s'"
  shows "objs s' = objs s" "interrupts_db s' = interrupts_db s" "banned_irqs s' = banned_irqs s"
    "rebalance_irq_list s' = rebalance_irq_list s" "irq (irqs s' i) = irq (irqs s i)"
    "assigned_obj (irqs s' i) = assigned_obj (irqs s i)" "itype (irqs s' i) = itype (irqs s i)"
proof -
  have i: "(irqs s' i)\<lparr>irq_count := 0, last_irq_count := 0\<rparr> = (irqs s i)\<lparr>irq_count := 0, last_irq_count := 0\<rparr>"
    using assms by (simp add: counts_only_def)
  show "irq (irqs s' i) = irq (irqs s i)" "assigned_obj (irqs s' i) = assigned_obj (irqs s i)"
    "itype (irqs s' i) = itype (irqs s i)"
    using arg_cong [OF i, of irq] arg_cong [OF i, of assigned_obj] arg_cong [OF i, of itype] by simp_all
  have s: "s'\<lparr>irqs := irqs s\<rparr> = s" using assms by (simp add: counts_only_def)
  show "objs s' = objs s" "interrupts_db s' = interrupts_db s" "banned_irqs s' = banned_irqs s"
    "rebalance_irq_list s' = rebalance_irq_list s"
    using arg_cong [OF s, of objs] arg_cong [OF s, of interrupts_db] arg_cong [OF s, of banned_irqs]
      arg_cong [OF s, of rebalance_irq_list] by simp_all
qed

lemma get_irq_info_counts_only: "counts_only s s' \<Longrightarrow> get_irq_info s' = get_irq_info s"
  unfolding get_irq_info_def find_irq_def fun_eq_iff by (simp only: counts_only_fields [of s s']) simp

lemma consistent_counts_only: "counts_only s s' \<Longrightarrow> irqs_consistent s' = irqs_consistent s"
  unfolding irqs_consistent_def by (simp only: counts_only_fields [of s s'])

definition counted :: "gstate \<Rightarrow> gstate \<Rightarrow> bool" where
  "counted s s' \<longleftrightarrow> counts_only s s' \<and> (counts_ok s \<longrightarrow> counts_ok s')
    \<and> (\<forall>i. irq_count (irqs s i) \<le> irq_count (irqs s' i))"

lemma counted_refl: "counted s s"
  by (simp add: counted_def)

lemma counted_trans: "counted s t \<Longrightarrow> counted t u \<Longrightarrow> counted s u"
  unfolding counted_def by (meson counts_only_trans order_trans)

lemma note_msi_text_gs [simp]:
  "gs (note_msi_text l dm) = gs dm" "core_count (note_msi_text l dm) = core_count dm"
  "need_rescan (note_msi_text l dm) = need_rescan dm"
  by (simp_all add: note_msi_text_def)

lemma proc_irq_line_counted:
  assumes "proc_irq_line l dm = (go, buf, dm')"
  shows "counted (gs dm) (gs dm')"
proof -
  have upd: "counted s (upd_irq i (\<lambda>ii. ii\<lparr>last_irq_count := irq_count ii, irq_count := v\<rparr>) s)"
    if "\<not> v < irq_count (irqs s i)" for s i v
    using that counts_only_upd [of s i v]
    by (auto simp: counted_def counts_ok_def upd_irq_def not_less)
  show ?thesis
    using assms unfolding proc_irq_line_def Let_def
    by (auto simp: upd_gs_def counted_refl upd split: if_splits option.splits prod.splits)
qed

section \<open>Text as the kernel prints it\<close>

type_synonym irq_entry = "string \<times> nat \<times> (nat \<times> nat) list \<times> string"

definition counts_text :: "(nat \<times> nat) list \<Rightarrow> string" where
  "counts_text cs = concat (map (\<lambda>(w, c). replicate (Suc w) CHR '' '' @ dec_of_nat c) cs)"

definition irq_text :: "irq_entry \<Rightarrow> string" where
  "irq_text = (\<lambda>(ws, n, cs, rest). ws @ dec_of_nat n @ '':'' @ counts_text cs @ rest)"

definition no_number :: "string \<Rightarrow> bool" where
  "no_number rest \<longleftrightarrow> (rest = [] \<or> \<not> isdigit (hd rest))
    \<and> (let t = dropWhile isspace rest
       in t = [] \<or> \<not> isdigit (hd t) \<and> hd t \<noteq> CHR ''-'' \<and> hd t \<noteq> CHR ''+'')"

lemma sum_counts_text:
  assumes "\<forall>(w, c) \<in> set cs. c < 2 ^ 64" "no_number rest"
  shows "sum_counts (counts_text cs @ rest) a k
    = (a + of_nat (sum_list (map snd cs)), k + int (length cs))"
  using assms(1)
proof (induction cs arbitrary: a k)
  case Nil
  have "strtoull rest = (0, rest)"
    using assms(2) by (intro strtoull_none [OF refl]) (simp add: no_number_def Let_def)
  then show ?case by (simp add: counts_text_def sum_counts.simps)
next
  case (Cons wc cs)
  obtain w c where wc: "wc = (w, c)" by (cases wc)
  let ?r = "counts_text cs @ rest"
  have r: "?r = [] \<or> \<not> isdigit (hd ?r)"
    using assms(2) by (cases cs) (auto simp: counts_text_def no_number_def isdigit_def)
  have sp: "list_all isspace (replicate (Suc w) CHR '' '')" by (simp add: list_all_iff isspace_def)
  have tx: "counts_text (wc # cs) @ rest = replicate (Suc w) CHR '' '' @ dec_of_nat c @ ?r"
    by (simp add: counts_text_def wc)
  have "c < 2 ^ 64" using Cons.prems wc by auto
  note st = strtoull_dec [OF sp this r]
  have ne: "?r \<noteq> replicate (Suc w) CHR '' '' @ dec_of_nat c @ ?r"
  proof
    assume "?r = replicate (Suc w) CHR '' '' @ dec_of_nat c @ ?r"
    from arg_cong [OF this, of length] show False by simp
  qed
  have "sum_counts (counts_text (wc # cs) @ rest) a k = sum_counts ?r (a + of_nat c) (k + 1)"
    unfolding tx by (subst sum_counts.simps) (simp only: st Let_def split ne if_False)
  also have "\<dots> = (a + of_nat c + of_nat (sum_list (map snd cs)), k + 1 + int (length cs))"
    using Cons.prems by (intro Cons.IH) auto
  finally show ?case by (simp add: wc algebra_simps)
qed

definition entry_ok :: "daemon \<Rightarrow> irq_entry \<Rightarrow> bool" where
  "entry_ok dm = (\<lambda>(ws, n, cs, rest). list_all isblank ws \<and> n < 2 ^ 31 \<and> (\<forall>(w, c) \<in> set cs. c < 2 ^ 64)
    \<and> int (length cs) = core_count dm \<and> no_number rest
    \<and> (\<exists>i. get_irq_info (gs dm) (int n) = Some i
        \<and> irq_count (irqs (gs dm) i) \<le> of_nat (sum_list (map snd cs))))"

lemma blank_is_space: "isblank c \<Longrightarrow> isspace c \<and> c \<noteq> CHR '':''"
  by (auto simp: isblank_def isspace_def)

lemma proc_irq_line_entry:
  assumes ok: "entry_ok dm (ws, n, cs, rest)" and i: "get_irq_info (gs dm) (int n) = Some i"
  shows "\<exists>buf dm'. proc_irq_line (irq_text (ws, n, cs, rest)) dm = (True, buf, dm')
    \<and> gs dm' = upd_irq i (\<lambda>ii. ii\<lparr>last_irq_count := irq_count ii, irq_count := of_nat (sum_list (map snd cs))\<rparr>) (gs dm)
    \<and> core_count dm' = core_count dm \<and> need_rescan dm' = need_rescan dm"
proof -
  let ?l = "irq_text (ws, n, cs, rest)" and ?tail = "counts_text cs @ rest"
  from ok have ws: "list_all isblank ws" and n: "n < 2 ^ 31" and cs: "\<forall>(w, c) \<in> set cs. c < 2 ^ 64"
    and len: "int (length cs) = core_count dm" and nn: "no_number rest"
    and le: "irq_count (irqs (gs dm) i) \<le> of_nat (sum_list (map snd cs))"
    using i by (auto simp: entry_ok_def)
  note dn = dec_of_nat_digits [of n]
  obtain c0 t0 where c0: "dec_of_nat n = c0 # t0" using dn by (cases "dec_of_nat n") auto
  have dig: "isdigit c0" using dn c0 by simp
  have "dropWhile isblank ?l = dropWhile isblank (dec_of_nat n @ '':'' @ ?tail)"
    unfolding irq_text_def split by (rule dropWhile_append2) (use ws in \<open>auto simp: list_all_iff\<close>)
  also have "\<dots> = dec_of_nat n @ '':'' @ ?tail" using digit_not_space [OF dig] c0 by simp
  finally have num: "has_irq_number ?l" using dig c0 by (simp add: has_irq_number_def)
  have nocolon: "CHR '':'' \<notin> set (ws @ dec_of_nat n)"
    using ws dn blank_is_space digit_not_space by (fastforce simp: list_all_iff)
  have l: "?l = (ws @ dec_of_nat n) @ CHR '':'' # ?tail" by (simp add: irq_text_def)
  have dw: "dropWhile (\<lambda>x. x \<noteq> CHR '':'') ?l = CHR '':'' # ?tail"
    and tw: "takeWhile (\<lambda>x. x \<noteq> CHR '':'') ?l = ws @ dec_of_nat n"
    unfolding l using split_at_char [OF nocolon, of ?tail] by blast+
  have chr: "strchr ?l CHR '':'' = Some (CHR '':'' # ?tail)" unfolding strchr_def dw by (simp add: l)
  have "strtoull (ws @ dec_of_nat n @ []) = (of_nat n, [])"
    by (rule strtoull_dec) (use ws n blank_is_space in \<open>auto simp: list_all_iff\<close>)
  then have "int_of_ulong (fst (strtoull (ws @ dec_of_nat n))) = int n"
    using int_of_ulong_small [OF n] by simp
  moreover have "sum_counts ?tail 0 0 = (of_nat (sum_list (map snd cs)), int (length cs))"
    using sum_counts_text [OF cs nn, of 0 0] by simp
  ultimately show ?thesis
    using le len i unfolding proc_irq_line_def Let_def
    by (simp add: num chr tw upd_gs_def not_less)
qed

section \<open>A whole file\<close>

fun entry_irq :: "irq_entry \<Rightarrow> int" where
  "entry_irq (ws, n, cs, rest) = int n"

fun entry_count :: "irq_entry \<Rightarrow> u64" where
  "entry_count (ws, n, cs, rest) = of_nat (sum_list (map snd cs))"

definition file_read :: "daemon \<Rightarrow> irq_entry list \<Rightarrow> daemon \<Rightarrow> bool" where
  "file_read dm es dm' \<longleftrightarrow> need_rescan dm' = need_rescan dm \<and> counts_only (gs dm) (gs dm')
    \<and> (\<forall>e \<in> set es. \<forall>i. get_irq_info (gs dm) (entry_irq e) = Some i \<longrightarrow>
         irq_count (irqs (gs dm') i) = entry_count e
         \<and> last_irq_count (irqs (gs dm') i) = irq_count (irqs (gs dm) i))
    \<and> (\<forall>i. (\<forall>e \<in> set es. get_irq_info (gs dm) (entry_irq e) \<noteq> Some i) \<longrightarrow> irqs (gs dm') i = irqs (gs dm) i)"

lemma file_loop_entries:
  assumes "\<forall>e \<in> set es. entry_ok dm e" "distinct (map entry_irq es)" "\<not> has_irq_number stop"
  shows "file_read dm es (file_loop proc_irq_line (map irq_text es @ stop # ts) buf dm)"
  using assms(1,2)
proof (induction es arbitrary: dm buf)
  case Nil
  have "proc_irq_line stop dm = (False, stop, note_msi_text stop dm)"
    using assms(3) by (simp add: proc_irq_line_def)
  then show ?case by (simp add: file_read_def)
next
  case (Cons e es)
  obtain ws n cs rest where e: "e = (ws, n, cs, rest)" by (metis prod_cases4)
  have ok: "entry_ok dm (ws, n, cs, rest)" using Cons.prems(1) e by simp
  then obtain i where i: "get_irq_info (gs dm) (int n) = Some i" by (auto simp: entry_ok_def)
  from proc_irq_line_entry [OF ok i] obtain b dm1 where
    dm1: "proc_irq_line (irq_text e) dm = (True, b, dm1)"
    "gs dm1 = upd_irq i (\<lambda>ii. ii\<lparr>last_irq_count := irq_count ii, irq_count := entry_count e\<rparr>) (gs dm)"
    "core_count dm1 = core_count dm" "need_rescan dm1 = need_rescan dm"
    by (auto simp: e)
  have co: "counts_only (gs dm) (gs dm1)" unfolding dm1(2) by (rule counts_only_upd)
  note gi = get_irq_info_counts_only [OF co]
  have other: "j \<noteq> i" if "f \<in> set es" "get_irq_info (gs dm) (entry_irq f) = Some j" for f j
  proof
    assume "j = i"
    with that(2) i have "entry_irq f = int n" using get_irq_info_irq by metis
    then show False using Cons.prems(2) that(1) e by force
  qed
  have old: "irqs (gs dm1) j = irqs (gs dm) j" if "j \<noteq> i" for j using that by (simp add: dm1(2))
  have "entry_ok dm1 f" if f: "f \<in> set es" for f
  proof -
    obtain ws' n' cs' rest' where f': "f = (ws', n', cs', rest')" by (metis prod_cases4)
    have "entry_ok dm f" using Cons.prems(1) f by simp
    then obtain j where "get_irq_info (gs dm) (int n') = Some j"
      "irq_count (irqs (gs dm) j) \<le> of_nat (sum_list (map snd cs'))"
      "entry_ok dm (ws', n', cs', rest')"
      by (auto simp: entry_ok_def f')
    moreover from this have "irqs (gs dm1) j = irqs (gs dm) j" using other [OF f] f' old by simp
    ultimately show ?thesis by (auto simp: entry_ok_def f' gi dm1(3))
  qed
  with Cons.IH [of dm1 b] Cons.prems(2)
  have IH: "file_read dm1 es (file_loop proc_irq_line (map irq_text es @ stop # ts) b dm1)" by simp
  let ?dm = "file_loop proc_irq_line (map irq_text es @ stop # ts) b dm1"
  have run: "file_loop proc_irq_line (map irq_text (e # es) @ stop # ts) buf dm = ?dm"
    using dm1(1) by simp
  have new: "irqs (gs ?dm) i = irqs (gs dm1) i"
    using IH other unfolding file_read_def gi by blast
  show ?case
    unfolding run file_read_def
  proof (intro conjI ballI allI impI)
    show "need_rescan ?dm = need_rescan dm" using IH dm1(4) by (simp add: file_read_def)
    show "counts_only (gs dm) (gs ?dm)" using IH co counts_only_trans by (auto simp: file_read_def)
  next
    fix f j assume f: "f \<in> set (e # es)" and j: "get_irq_info (gs dm) (entry_irq f) = Some j"
    have "irq_count (irqs (gs ?dm) j) = entry_count f
        \<and> last_irq_count (irqs (gs ?dm) j) = irq_count (irqs (gs dm) j)"
    proof (cases "f \<in> set es")
      case True
      then show ?thesis using IH j other [OF True j] old [of j] by (simp add: file_read_def gi)
    next
      case False
      then have "f = e" "j = i" using f j i e by auto
      then show ?thesis using new by (simp add: dm1(2))
    qed
    then show "irq_count (irqs (gs ?dm) j) = entry_count f"
      "last_irq_count (irqs (gs ?dm) j) = irq_count (irqs (gs dm) j)" by auto
  next
    fix j assume j: "\<forall>f \<in> set (e # es). get_irq_info (gs dm) (entry_irq f) \<noteq> Some j"
    then have "j \<noteq> i" using i e by auto
    with IH j old show "irqs (gs ?dm) j = irqs (gs dm) j" by (simp add: file_read_def gi)
  qed
qed

lemma parse_proc_interrupts_gs:
  "gs (parse_proc_interrupts (Some ls) dm) = gs (skip_header proc_irq_line ls dm)"
  "need_rescan (parse_proc_interrupts (Some ls) dm) = need_rescan (skip_header proc_irq_line ls dm)"
  by (simp_all add: parse_proc_interrupts_def Let_def)

section \<open>Properties\<close>

text \<open>
  C25: Whatever \<open>/proc/interrupts\<close> holds, reading it never makes a counter fall below its
  last value, so that the difference of the two is the number of interrupts since the last
  reading and never wraps; it changes no other field of an interrupt and leaves the lists
  consistent.
\<close>

theorem parse_proc_interrupts_monotone:
  "let s = gs dm; s' = gs (parse_proc_interrupts file dm)
   in (counts_ok s \<longrightarrow> counts_ok s') \<and> (\<forall>i. irq_count (irqs s i) \<le> irq_count (irqs s' i))
      \<and> counts_only s s' \<and> (irqs_consistent s \<longrightarrow> irqs_consistent s')"
proof (cases "file")
  case None
  then show ?thesis by (simp add: parse_proc_interrupts_def)
next
  case (Some ls)
  have "counted (gs dm) (gs (skip_header proc_irq_line ls dm))"
    by (rule skip_header_keeps [where P = "\<lambda>d. counted (gs dm) (gs d)"])
      (auto intro: counted_refl dest: proc_irq_line_counted elim: counted_trans)
  moreover from this have "irqs_consistent (gs (skip_header proc_irq_line ls dm)) = irqs_consistent (gs dm)"
    by (intro consistent_counts_only) (simp add: counted_def)
  ultimately show ?thesis using Some
    by (simp add: parse_proc_interrupts_gs Let_def counted_def)
qed

text \<open>
  C18: A file as the kernel prints it is read back: a header, one line for each interrupt with
  its number, a colon, one counter for each CPU and a name, and then a line without a number.
  When every number is known, the counters are as many as the CPUs and none has fallen, each
  interrupt gets the sum of its counters, keeps the old count as \<open>last_irq_count\<close>, the others are
  untouched and no rescan is asked for.
\<close>

theorem parse_proc_interrupts_reads_back:
  assumes "\<forall>e \<in> set es. entry_ok dm e" "distinct (map entry_irq es)" "\<not> has_irq_number stop"
  shows "file_read dm es (parse_proc_interrupts (Some (hdr # map irq_text es @ stop # ts)) dm)"
  using file_loop_entries [OF assms, of ts hdr]
  by (simp add: file_read_def parse_proc_interrupts_gs skip_header_def)

definition sample_daemon :: "gstate \<Rightarrow> daemon" where
  "sample_daemon s = \<lparr>gs = s, cl_banned_irqs = [], next_irq = 10, next_obj = 10, keep_going = True,
     one_shot_mode = False, need_rescan = False, core_count = 2, package_count = 1,
     cache_domain_count = 1, cpu_possible_map = CPU_MASK_ALL, proc_int_has_msi = False,
     msi_found_in_sysfs = False, global_hint_policy = HINT_POLICY_IGNORE, deepest_cache = 2, HZ = 100\<rparr>"

theorem parse_proc_interrupts_monotone_witness:
  "irqs_consistent (gs (parse_proc_interrupts (Some [''CPU0'', ''1: 7 9 eth0'']) (sample_daemon sample_state)))"
  using parse_proc_interrupts_monotone [of "sample_daemon sample_state"] sample_state_consistent
  by (simp add: sample_daemon_def Let_def)

text \<open>\<open>  1:  12  5  IO-APIC timer\<close> and the line \<open>NMI:\<close>.\<close>

theorem parse_proc_interrupts_reads_back_witness:
  "file_read (sample_daemon sample_state) [(''  '', 1, [(1, 12), (0, 5)], ''  IO-APIC timer'')]
     (parse_proc_interrupts (Some [''CPU0 CPU1'', irq_text (''  '', 1, [(1, 12), (0, 5)], ''  IO-APIC timer''), ''NMI:''])
        (sample_daemon sample_state))"
proof -
  have "entry_ok (sample_daemon sample_state) (''  '', 1, [(1, 12), (0, 5)], ''  IO-APIC timer'')"
    by (simp add: entry_ok_def sample_daemon_def isblank_def no_number_def isspace_def isdigit_def
        get_irq_info_def find_irq_def sample_state_def sample_irq_def)
  moreover have "\<not> has_irq_number ''NMI:''" by code_simp
  ultimately show ?thesis
    using parse_proc_interrupts_reads_back [of "[(''  '', 1, [(1, 12), (0, 5)], ''  IO-APIC timer'')]"
        "sample_daemon sample_state" "''NMI:''" "''CPU0 CPU1''" "[]"] by simp
qed

text \<open>
  C12: Sharing the load finishes without a division by zero, and afterwards the loads of the
  interrupts of each object that weigh more than 1 add up to at most the load of the object,
  while every interrupt of an object has some load. This needs the parent pointers to go up the
  tree, each object to be listed by its parent, and the lists to name children before parents.
\<close>

theorem share_loads_budget:
  assumes "share_pre s"
  shows "\<exists>s'. share_loads s = Some s' \<and> irqs_consistent s' \<and> place_of s' = place_of s
    \<and> (\<forall>d \<in> set (load_order s). load_budget s' d
        \<and> (\<forall>i \<in> set (interrupts (objs s' d)). 0 < iload (irqs s' i)))"
proof -
  obtain s' where s': "share_loads s = Some s'" "loads_only s s'" "\<forall>d \<in> set (load_order s).
    load_budget s' d \<and> (\<forall>i \<in> set (interrupts (objs s d)). 0 < iload (irqs s' i))"
    using share_loads_all [OF assms] by blast
  have "irqs_consistent s'" using assms consistent_loads_only [OF s'(2)] by (simp add: share_pre_def)
  moreover have "place_of s' = place_of s"
    by (simp add: fun_eq_iff place_of_def loads_only_fields [OF s'(2)])
  ultimately show ?thesis using s' loads_only_fields(1) [OF s'(2)] by auto
qed

lemma sample_share_pre: "share_pre sample_state"
  using sample_state_consistent
  by (simp add: share_pre_def parents_ok_def all_deltas_def irq_delta_def children_first_def load_order_def
      sample_state_def sample_obj_def sample_irq_def)

theorem share_loads_budget_witness:
  "\<exists>s'. share_loads sample_state = Some s' \<and> load_budget s' 1"
  using share_loads_budget [OF sample_share_pre] by (auto simp: load_order_def sample_state_def)

end
