(* ===== verification/Tree_Laws.thy ===== *)
theory Tree_Laws
  imports Cputree Procinterrupts
begin

text \<open>
  The invariant of the tree that numa.c and cputree.c build, what it gives to the statistics
  and to the placement, and clearing the statistics.

  \<open>tree_ok_but X\<close> holds while the objects \<open>X\<close> are being built: allocated, but in no list yet.
\<close>

section \<open>The tree\<close>

abbreviation rank_of :: "gstate \<Rightarrow> oref \<Rightarrow> nat" where
  "rank_of s d \<equiv> obj_rank (obj_type (objs s d))"

text \<open>Links go up the tree and agree in both directions; only live objects have any.\<close>

definition links_ok :: "oref set \<Rightarrow> gstate \<Rightarrow> bool" where
  "links_ok X s \<longleftrightarrow>
    (\<forall>d p. parent (objs s d) = Some p \<longrightarrow> rank_of s p < rank_of s d \<and> d \<in> set (children (objs s p)))
    \<and> (\<forall>p c. c \<in> set (children (objs s p)) \<longrightarrow> rank_of s p < rank_of s c \<and> c \<in> set (load_order s) \<union> X)
    \<and> (\<forall>d. parent (objs s d) \<noteq> None \<or> children (objs s d) \<noteq> [] \<longrightarrow> d \<in> set (load_order s) \<union> X)"

definition typed_lists :: "gstate \<Rightarrow> bool" where
  "typed_lists s \<longleftrightarrow>
    (\<forall>d \<in> set (cpu_objs s). obj_type (objs s d) = OBJ_TYPE_CPU)
    \<and> (\<forall>d \<in> set (cache_domains s). obj_type (objs s d) = OBJ_TYPE_CACHE)
    \<and> (\<forall>d \<in> set (packages s). obj_type (objs s d) = OBJ_TYPE_PACKAGE)
    \<and> (\<forall>d \<in> set (numa_nodes s). obj_type (objs s d) = OBJ_TYPE_NODE)
    \<and> distinct (load_order s)"

text \<open>No CPU, cache or package has a banned CPU.\<close>

definition masks_unbanned :: "gstate \<Rightarrow> bool" where
  "masks_unbanned s \<longleftrightarrow> (\<forall>d. wf_mask (mask (objs s d)))
    \<and> (\<forall>d \<in> set (cpu_objs s) \<union> set (cache_domains s) \<union> set (packages s).
         cpus_of (mask (objs s d)) \<inter> cpus_of (banned_cpus s) = {})"

definition tree_ok_but :: "oref set \<Rightarrow> daemon \<Rightarrow> bool" where
  "tree_ok_but X dm \<longleftrightarrow> links_ok X (gs dm) \<and> typed_lists (gs dm) \<and> masks_unbanned (gs dm)
    \<and> unspecified_node \<in> set (numa_nodes (gs dm)) \<and> X \<inter> set (load_order (gs dm)) = {}
    \<and> (\<forall>d \<in> set (load_order (gs dm)) \<union> X. d < next_obj dm)"

definition tree_ok :: "daemon \<Rightarrow> bool" where
  "tree_ok dm \<longleftrightarrow> tree_ok_but {} dm"

lemma load_order_upd_obj [simp]: "load_order (upd_obj d f s) = load_order s"
  by (simp add: load_order_def)

lemma load_order_set: "set (load_order s) = set (cpu_objs s) \<union> set (cache_domains s) \<union> set (packages s) \<union> set (numa_nodes s)"
  by (auto simp: load_order_def)

text \<open>A new object is live but in no list.\<close>

lemma alloc_tree_ok:
  assumes t: "tree_ok_but X dm" and a: "alloc_obj ob dm = (r, dm')"
    and ob: "parent ob = None" "children ob = []" "wf_mask (mask ob)"
  shows "tree_ok_but (insert r X) dm'" "r \<notin> set (load_order (gs dm)) \<union> X" "objs (gs dm') = (objs (gs dm))(r := ob)"
    "gs dm' = upd_obj r (\<lambda>_. ob) (gs dm)" "tree_ok_but X dm'"
proof -
  let ?s = "gs dm"
  from a have r: "r = next_obj dm" "gs dm' = upd_obj r (\<lambda>_. ob) ?s" "next_obj dm' = Suc r"
    by (auto simp: alloc_obj_def)
  then show "gs dm' = upd_obj r (\<lambda>_. ob) ?s" "objs (gs dm') = (objs ?s)(r := ob)" by simp_all
  from t have live: "\<forall>d \<in> set (load_order ?s) \<union> X. d < next_obj dm"
    and l: "links_ok X ?s" and ty: "typed_lists ?s" and m: "masks_unbanned ?s"
    and u: "unspecified_node \<in> set (numa_nodes ?s)" "X \<inter> set (load_order ?s) = {}"
    by (simp_all add: tree_ok_but_def)
  show fresh: "r \<notin> set (load_order ?s) \<union> X" using live r(1) by auto
  have nor: "parent (objs ?s d) \<noteq> Some r" "r \<notin> set (children (objs ?s d))" for d
  proof -
    show "r \<notin> set (children (objs ?s d))" using l fresh unfolding links_ok_def by blast
    show "parent (objs ?s d) \<noteq> Some r"
    proof
      assume "parent (objs ?s d) = Some r"
      then have "d \<in> set (children (objs ?s r))" using l by (auto simp: links_ok_def)
      then have "r \<in> set (load_order ?s) \<union> X" using l unfolding links_ok_def by force
      with fresh show False by blast
    qed
  qed
  have "links_ok (insert r X) (upd_obj r (\<lambda>_. ob) ?s)"
    using l nor ob(1,2) by (auto simp: links_ok_def)
  moreover have "typed_lists (upd_obj r (\<lambda>_. ob) ?s)" "masks_unbanned (upd_obj r (\<lambda>_. ob) ?s)"
    using ty m fresh ob(3) by (auto simp: typed_lists_def masks_unbanned_def load_order_set)
  moreover have "links_ok X (upd_obj r (\<lambda>_. ob) ?s)"
    using l nor ob(1,2) by (auto simp: links_ok_def)
  ultimately show "tree_ok_but (insert r X) dm'" "tree_ok_but X dm'"
    using u fresh live r by (auto simp: tree_ok_but_def less_Suc_eq)
qed

lemma adopt_tree_ok:
  assumes t: "tree_ok_but X dm" and r: "rank_of (gs dm) p < rank_of (gs dm) c"
    and live: "p \<in> set (load_order (gs dm)) \<union> X" "c \<in> set (load_order (gs dm)) \<union> X"
  shows "tree_ok_but X (upd_gs (adopt p c) dm)"
proof -
  let ?s = "gs dm"
  have ne: "p \<noteq> c" using r by auto
  have rk: "rank_of (adopt p c ?s) d = rank_of ?s d" for d by (simp add: adopt_def)
  have lo: "load_order (adopt p c ?s) = load_order ?s" by (simp add: adopt_def)
  have ch: "children (objs (adopt p c ?s) d) = (if d = p then children (objs ?s p) @ [c] else children (objs ?s d))"
    and pa: "parent (objs (adopt p c ?s) d) = (if d = c then Some p else parent (objs ?s d))"
    and mk: "mask (objs (adopt p c ?s) d) = mask (objs ?s d)"
    and ty: "obj_type (objs (adopt p c ?s) d) = obj_type (objs ?s d)" for d
    using ne by (simp_all add: adopt_def)
  have ls: "cpu_objs (adopt p c ?s) = cpu_objs ?s" "cache_domains (adopt p c ?s) = cache_domains ?s"
    "packages (adopt p c ?s) = packages ?s" "numa_nodes (adopt p c ?s) = numa_nodes ?s"
    "banned_cpus (adopt p c ?s) = banned_cpus ?s" by (simp_all add: adopt_def)
  have "links_ok X (adopt p c ?s)"
    using t r live unfolding tree_ok_but_def links_ok_def rk lo ch pa by auto
  moreover have "typed_lists (adopt p c ?s)" "masks_unbanned (adopt p c ?s)"
    using t unfolding tree_ok_but_def typed_lists_def masks_unbanned_def ty mk ls lo by blast+
  ultimately show ?thesis using t by (simp add: tree_ok_but_def upd_gs_def lo ls)
qed

text \<open>A live object goes to the end of its list.\<close>

lemma append_tree_ok:
  assumes t: "tree_ok_but (insert d X) dm" and d: "d \<notin> X" "obj_type (objs (gs dm) d) = ty"
    and m: "ty \<noteq> OBJ_TYPE_NODE \<Longrightarrow> cpus_of (mask (objs (gs dm) d)) \<inter> cpus_of (banned_cpus (gs dm)) = {}"
  shows "tree_ok_but X (upd_gs (append_obj ty d) dm)"
proof -
  let ?s = "gs dm"
  have eq: "objs (append_obj ty d ?s) = objs ?s" "banned_cpus (append_obj ty d ?s) = banned_cpus ?s"
    "set (load_order (append_obj ty d ?s)) = insert d (set (load_order ?s))"
    by (cases ty; auto simp: load_order_def)+
  have dn: "d \<notin> set (load_order ?s)" using t by (auto simp: tree_ok_but_def)
  have "links_ok X (append_obj ty d ?s)"
    using t unfolding tree_ok_but_def links_ok_def eq by auto
  moreover have "typed_lists (append_obj ty d ?s)"
    using t d(2) dn by (cases ty) (auto simp: tree_ok_but_def typed_lists_def load_order_def)
  moreover have "masks_unbanned (append_obj ty d ?s)"
    using t m by (cases ty) (auto simp: tree_ok_but_def masks_unbanned_def)
  moreover have "unspecified_node \<in> set (numa_nodes (append_obj ty d ?s))"
    using t by (cases ty) (auto simp: tree_ok_but_def)
  ultimately show ?thesis using t d(1) unfolding tree_ok_but_def by (auto simp: upd_gs_def eq)
qed

section \<open>Growing the tree\<close>

definition grows :: "daemon \<Rightarrow> daemon \<Rightarrow> bool" where
  "grows dm dm' \<longleftrightarrow> banned_cpus (gs dm') = banned_cpus (gs dm) \<and> unbanned_cpus (gs dm') = unbanned_cpus (gs dm)
    \<and> numa_avail (gs dm') = numa_avail (gs dm) \<and> next_obj dm \<le> next_obj dm'
    \<and> (\<forall>d < next_obj dm. obj_type (objs (gs dm') d) = obj_type (objs (gs dm) d)
         \<and> mask (objs (gs dm') d) = mask (objs (gs dm) d))
    \<and> set (load_order (gs dm)) \<subseteq> set (load_order (gs dm'))"

lemma grows_refl: "grows dm dm"
  by (simp add: grows_def)

lemma grows_trans: "grows a b \<Longrightarrow> grows b c \<Longrightarrow> grows a c"
  unfolding grows_def by (metis order_trans order_less_le_trans)

lemma grows_alloc: "alloc_obj ob dm = (r, dm') \<Longrightarrow> grows dm dm'"
  by (auto simp: grows_def alloc_obj_def)

lemma grows_adopt: "grows dm (upd_gs (adopt p c) dm)"
  by (auto simp: grows_def upd_gs_def adopt_def)

lemma grows_append: "grows dm (upd_gs (append_obj ty d) dm)"
  by (cases ty) (auto simp: grows_def upd_gs_def load_order_def)

lemma tree_ok_counts [simp]:
  "tree_ok_but X (dm\<lparr>package_count := k\<rparr>) = tree_ok_but X dm"
  "tree_ok_but X (dm\<lparr>cache_domain_count := k\<rparr>) = tree_ok_but X dm"
  "tree_ok_but X (dm\<lparr>core_count := k\<rparr>) = tree_ok_but X dm"
  "tree_ok_but X (dm\<lparr>cpu_possible_map := m\<rparr>) = tree_ok_but X dm"
  "grows dm (dm'\<lparr>package_count := k\<rparr>) = grows dm dm'"
  "grows dm (dm'\<lparr>cache_domain_count := k\<rparr>) = grows dm dm'"
  "grows dm (dm'\<lparr>core_count := k\<rparr>) = grows dm dm'"
  "grows dm (dm'\<lparr>cpu_possible_map := m\<rparr>) = grows dm dm'"
  by (simp_all add: tree_ok_but_def grows_def)

text \<open>Looking for a cache or package by its mask, and making it when there is none.\<close>

lemma new_domain:
  assumes t: "tree_ok_but X dm" and a: "alloc_obj ob dm = (r, dm1)"
    and ob: "parent ob = None" "children ob = []" "wf_mask (mask ob)" "obj_type ob = ty"
      "cpus_of (mask ob) \<inter> cpus_of (banned_cpus (gs dm)) = {}"
  shows "tree_ok_but X (upd_gs (append_obj ty r) dm1)" "grows dm (upd_gs (append_obj ty r) dm1)"
proof -
  note al = alloc_tree_ok [OF t a ob(1-3)]
  show "tree_ok_but X (upd_gs (append_obj ty r) dm1)"
    by (rule append_tree_ok [OF al(1)]) (use al(2-4) ob(4,5) in auto)
  show "grows dm (upd_gs (append_obj ty r) dm1)"
    by (rule grows_trans [OF grows_alloc [OF a] grows_append])
qed

lemma find_set: "List.find P xs = Some x \<Longrightarrow> x \<in> set xs \<and> P x"
  by (auto simp: find_Some_iff)

lemma add_cpu_tree_ok:
  assumes t: "tree_ok_but X dm" and cpu: "cpu \<in> X" "obj_type (objs (gs dm) cpu) = OBJ_TYPE_CPU"
    and m: "wf_mask m" "cpus_of m \<inter> cpus_of (banned_cpus (gs dm)) = {}"
    and r: "add_cpu_to_cache_domain cpu m dm = (c, dm')"
  shows "tree_ok_but X dm' \<and> grows dm dm' \<and> c \<in> set (cache_domains (gs dm'))"
proof -
  obtain dm1 where d1: "tree_ok_but X dm1" "grows dm dm1" "c \<in> set (cache_domains (gs dm1))"
    "dm' = dm1 \<or> dm' = upd_gs (adopt c cpu) dm1"
  proof (cases "List.find (\<lambda>d. cpus_equal m (mask (objs (gs dm) d))) (cache_domains (gs dm))")
    case (Some c0)
    then show thesis
      using r t find_set [OF Some] that [of dm] grows_refl
      by (auto simp: add_cpu_to_cache_domain_def split: if_splits)
  next
    case None
    obtain c0 dm0 where a: "alloc_obj (zero_obj\<lparr>obj_type := OBJ_TYPE_CACHE, mask := m,
        number := cache_domain_count dm\<rparr>) dm = (c0, dm0)" by fastforce
    define dm1 where "dm1 = upd_gs (append_obj OBJ_TYPE_CACHE c0) dm0"
    have n: "tree_ok_but X dm1" "grows dm dm1" unfolding dm1_def
      by (rule new_domain [OF t a]; use m in \<open>simp add: zero_obj_def\<close>)+
    have "c = c0 \<and> (dm' = dm1\<lparr>cache_domain_count := cache_domain_count dm1 + 1\<rparr>
        \<or> dm' = upd_gs (adopt c cpu) (dm1\<lparr>cache_domain_count := cache_domain_count dm1 + 1\<rparr>))"
      using r None a by (auto simp: add_cpu_to_cache_domain_def dm1_def upd_gs_def split: if_splits)
    then show thesis
      using n that [of "dm1\<lparr>cache_domain_count := cache_domain_count dm1 + 1\<rparr>"] by (auto simp: dm1_def upd_gs_def)
  qed
  have "cpu < next_obj dm" using t cpu(1) by (auto simp: tree_ok_but_def)
  then have "obj_type (objs (gs dm1) cpu) = OBJ_TYPE_CPU" using d1(2) cpu(2) by (auto simp: grows_def)
  moreover have "obj_type (objs (gs dm1) c) = OBJ_TYPE_CACHE"
    using d1(1,3) by (auto simp: tree_ok_but_def typed_lists_def)
  ultimately have "tree_ok_but X (upd_gs (adopt c cpu) dm1)"
    using d1(3) cpu(1) by (intro adopt_tree_ok [OF d1(1)]) (auto simp: load_order_set)
  moreover have "cache_domains (gs (upd_gs (adopt c cpu) dm1)) = cache_domains (gs dm1)"
    by (simp add: upd_gs_def adopt_def)
  ultimately show ?thesis using d1 grows_trans [OF d1(2) grows_adopt] by auto
qed

lemma add_cache_tree_ok:
  assumes t: "tree_ok_but X dm" and cache: "cache \<in> set (cache_domains (gs dm))"
    and m: "wf_mask m" "cpus_of m \<inter> cpus_of (banned_cpus (gs dm)) = {}"
    and r: "add_cache_domain_to_package cache pid m dm = (p, dm')"
  shows "tree_ok_but X dm' \<and> grows dm dm' \<and> p \<in> set (packages (gs dm'))"
proof -
  obtain dm1 where d1: "tree_ok_but X dm1" "grows dm dm1" "p \<in> set (packages (gs dm1))"
    "dm' = dm1 \<or> dm' = upd_gs (adopt p cache) dm1"
  proof (cases "List.find (\<lambda>d. cpus_equal m (mask (objs (gs dm) d))) (packages (gs dm))")
    case (Some c0)
    then show thesis
      using r t find_set [OF Some] that [of dm] grows_refl
      by (auto simp: add_cache_domain_to_package_def split: if_splits)
  next
    case None
    obtain c0 dm0 where a: "alloc_obj (zero_obj\<lparr>mask := m, obj_type := OBJ_TYPE_PACKAGE,
        number := pid\<rparr>) dm = (c0, dm0)" by fastforce
    define dm1 where "dm1 = upd_gs (append_obj OBJ_TYPE_PACKAGE c0) dm0"
    have n: "tree_ok_but X dm1" "grows dm dm1" unfolding dm1_def
      by (rule new_domain [OF t a]; use m in \<open>simp add: zero_obj_def\<close>)+
    have "p = c0 \<and> (dm' = dm1\<lparr>package_count := package_count dm1 + 1\<rparr>
        \<or> dm' = upd_gs (adopt p cache) (dm1\<lparr>package_count := package_count dm1 + 1\<rparr>))"
      using r None a by (auto simp: add_cache_domain_to_package_def dm1_def upd_gs_def split: if_splits)
    then show thesis
      using n that [of "dm1\<lparr>package_count := package_count dm1 + 1\<rparr>"] by (auto simp: dm1_def upd_gs_def)
  qed
  have ty: "obj_type (objs (gs dm) cache) = OBJ_TYPE_CACHE" "cache < next_obj dm"
    using t cache by (auto simp: tree_ok_but_def typed_lists_def load_order_set)
  then have "obj_type (objs (gs dm1) cache) = OBJ_TYPE_CACHE" using d1(2) by (auto simp: grows_def)
  moreover have "obj_type (objs (gs dm1) p) = OBJ_TYPE_PACKAGE"
    using d1(1,3) by (auto simp: tree_ok_but_def typed_lists_def)
  moreover have "cache \<in> set (load_order (gs dm1))"
    using cache d1(2) unfolding grows_def by (auto simp: load_order_set)
  ultimately have "tree_ok_but X (upd_gs (adopt p cache) dm1)"
    using d1(3) by (intro adopt_tree_ok [OF d1(1)]) (auto simp: load_order_set)
  moreover have "packages (gs (upd_gs (adopt p cache) dm1)) = packages (gs dm1)"
    by (simp add: upd_gs_def adopt_def)
  ultimately show ?thesis using d1 grows_trans [OF d1(2) grows_adopt] by auto
qed

lemma get_numa_node_live:
  assumes "tree_ok_but X dm" "get_numa_node (gs dm) n = Some nd"
  shows "nd \<in> set (numa_nodes (gs dm))"
  using assms find_set by (force simp: get_numa_node_def tree_ok_but_def split: if_splits)

lemma add_package_tree_ok:
  assumes t: "tree_ok_but X dm" and p: "p \<in> set (packages (gs dm))"
  shows "tree_ok_but X (add_package_to_node p n dm) \<and> grows dm (add_package_to_node p n dm)"
proof (cases "get_numa_node (gs dm) n")
  case (Some nd)
  have "obj_type (objs (gs dm) nd) = OBJ_TYPE_NODE" "obj_type (objs (gs dm) p) = OBJ_TYPE_PACKAGE"
    using get_numa_node_live [OF t Some] t p by (auto simp: tree_ok_but_def typed_lists_def)
  then have "tree_ok_but X (upd_gs (adopt nd p) dm)"
    using get_numa_node_live [OF t Some] p by (intro adopt_tree_ok [OF t]) (auto simp: load_order_set)
  with t Some show ?thesis by (simp add: add_package_to_node_def grows_refl grows_adopt)
qed (use t in \<open>simp add: add_package_to_node_def grows_refl\<close>)

lemma wf_mask_parse: "wf_mask m \<Longrightarrow> wf_mask (snd (cpumask_parse_user l m))"
  using writes_only_bitmap_parse [of 1 "mask_store m []" l NR_CPUS]
  by (auto simp: cpumask_parse_user_def writes_only_def wf_mask_def split: prod.split)

lemma wf_mask_read: "wf_mask m \<Longrightarrow> wf_mask d \<Longrightarrow> wf_mask (read_mask f d m)"
  by (auto simp: read_mask_def wf_mask_parse split: option.split list.split)

lemma wf_mask_cpu_set: "wf_mask m \<Longrightarrow> wf_mask (cpu_set n m)"
  by (simp add: cpu_set_def wf_mask_def bm_set_bit_def Let_def)

lemma wf_unbanned:
  "unbanned_cpus s = cpus_complement (banned_cpus s) \<Longrightarrow>
    wf_mask (cpus_and a (unbanned_cpus s)) \<and> cpus_of (cpus_and a (unbanned_cpus s)) \<inter> cpus_of (banned_cpus s) = {}"
  using cpum.inter_compl_allowed [of a "banned_cpus s"] by (simp add: cpus_simps)

definition unbanned_ok :: "daemon \<Rightarrow> bool" where
  "unbanned_ok dm \<longleftrightarrow> unbanned_cpus (gs dm) = cpus_complement (banned_cpus (gs dm))"

lemma grows_unbanned: "grows dm dm' \<Longrightarrow> unbanned_ok dm' = unbanned_ok dm"
  by (simp add: grows_def unbanned_ok_def)

lemma insert_cpu_tree_ok:
  assumes t: "tree_ok_but {cpu} dm" and cpu: "obj_type (objs (gs dm) cpu) = OBJ_TYPE_CPU"
    "cpus_of (mask (objs (gs dm) cpu)) \<inter> cpus_of (banned_cpus (gs dm)) = {}"
    and m: "wf_mask m1" "cpus_of m1 \<inter> cpus_of (banned_cpus (gs dm)) = {}"
      "wf_mask m2" "cpus_of m2 \<inter> cpus_of (banned_cpus (gs dm)) = {}"
  shows "tree_ok_but {} (insert_cpu cpu m1 m2 pid nid dm) \<and> grows dm (insert_cpu cpu m1 m2 pid nid dm)"
proof -
  obtain cache dm1 where 1: "add_cpu_to_cache_domain cpu m1 dm = (cache, dm1)" by fastforce
  obtain package dm2 where 2: "add_cache_domain_to_package cache pid m2 dm1 = (package, dm2)" by fastforce
  have g1: "tree_ok_but {cpu} dm1" "grows dm dm1" "cache \<in> set (cache_domains (gs dm1))"
    using add_cpu_tree_ok [OF t _ cpu(1) m(1,2) 1] by auto
  have "cpus_of m2 \<inter> cpus_of (banned_cpus (gs dm1)) = {}" using g1(2) m(4) by (simp add: grows_def)
  from add_cache_tree_ok [OF g1(1,3) m(3) this 2]
  have g2: "tree_ok_but {cpu} dm2" "grows dm1 dm2" "package \<in> set (packages (gs dm2))" by auto
  let ?dm3 = "add_package_to_node package nid dm2"
  have g3: "tree_ok_but {cpu} ?dm3" "grows dm2 ?dm3" using add_package_tree_ok [OF g2(1,3)] by auto
  have g: "grows dm ?dm3" using g1(2) g2(2) g3(2) grows_trans by blast
  have "cpu < next_obj dm" using t by (auto simp: tree_ok_but_def)
  then have "obj_type (objs (gs ?dm3) cpu) = OBJ_TYPE_CPU"
    "cpus_of (mask (objs (gs ?dm3) cpu)) \<inter> cpus_of (banned_cpus (gs ?dm3)) = {}"
    using g cpu by (auto simp: grows_def)
  then have "tree_ok_but {} (upd_gs (append_obj OBJ_TYPE_CPU cpu) ?dm3)"
    using g3(1) by (intro append_tree_ok) auto
  then show ?thesis using grows_trans [OF g grows_append] by (simp add: insert_cpu_def 1 2)
qed

lemma do_one_cpu_tree_ok:
  assumes t: "tree_ok dm" and u: "unbanned_ok dm" and r: "do_one_cpu path cd dm = Some dm'"
  shows "tree_ok dm' \<and> grows dm dm'"
proof (cases "is_offline cd")
  case True
  then show ?thesis using r t grows_refl by (simp add: do_one_cpu_def)
next
  case False
  define n where "n = int_of_ulong (fst (strtoull (drop 27 path)))"
  have n: "0 \<le> n" "n < int NR_CPUS" using r False
    by (auto simp: do_one_cpu_def n_def Let_def split: if_splits)
  then have nn: "nat n < NR_CPUS" by simp
  define ob where "ob = zero_obj\<lparr>obj_type := OBJ_TYPE_CPU, number := n, mask := cpu_set (nat n) CPU_MASK_NONE\<rparr>"
  obtain cpu dm1 where a: "alloc_obj ob dm = (cpu, dm1)" by fastforce
  have ob: "parent ob = None" "children ob = []" "wf_mask (mask ob)"
    by (simp_all add: ob_def zero_obj_def wf_mask_cpu_set)
  note al = alloc_tree_ok [OF t [unfolded tree_ok_def] a ob]
  define dm2 where "dm2 = dm1\<lparr>cpu_possible_map := cpu_set (nat n) (cpu_possible_map dm1)\<rparr>"
  have gs2: "gs dm2 = gs dm1" "banned_cpus (gs dm1) = banned_cpus (gs dm)" "unbanned_cpus (gs dm1) = unbanned_cpus (gs dm)"
    by (simp_all add: dm2_def al(4))
  have g2: "grows dm dm2" using grows_alloc [OF a] by (simp add: dm2_def)
  show ?thesis
  proof (cases "cpus_intersects (cpu_set (nat n) CPU_MASK_NONE) (banned_cpus (gs dm))")
    case True
    obtain r0 dm0 where a0: "alloc_obj zero_obj dm = (r0, dm0)" by fastforce
    have "tree_ok_but {} dm0" "grows dm dm0"
      using alloc_tree_ok(5) [OF t [unfolded tree_ok_def] a0] grows_alloc [OF a0]
      by (simp_all add: zero_obj_def)
    moreover have "dm' = dm0\<lparr>cpu_possible_map := cpu_set (nat n) (cpu_possible_map dm),
        core_count := core_count dm + 1\<rparr>"
      using r a a0 False True n
      by (cases dm) (auto simp: do_one_cpu_def Let_def n_def [symmetric] ob_def alloc_obj_def upd_gs_def upd_obj_def)
    ultimately show ?thesis by (auto simp: tree_ok_def)
  next
    case nb: False
    have t2: "tree_ok_but {cpu} dm2" using al(1) by (simp add: dm2_def)
    have "objs (gs dm2) cpu = ob" by (simp add: gs2 al(4))
    then have cpu: "obj_type (objs (gs dm2) cpu) = OBJ_TYPE_CPU"
      "cpus_of (mask (objs (gs dm2) cpu)) \<inter> cpus_of (banned_cpus (gs dm2)) = {}"
      using nb by (simp_all add: ob_def gs2 cpus_simps)
    have un: "unbanned_cpus (gs dm2) = cpus_complement (banned_cpus (gs dm2))"
      using u by (simp add: unbanned_ok_def gs2)
    have "\<exists>m1 m2 pid nid k. dm' = (insert_cpu cpu (cpus_and m1 (unbanned_cpus (gs dm2)))
        (cpus_and m2 (unbanned_cpus (gs dm2))) pid nid dm2)\<lparr>core_count := k\<rparr>"
      using r False n nb a unfolding do_one_cpu_def Let_def n_def [symmetric] ob_def [symmetric]
      by (simp add: dm2_def gs2) blast
    then show ?thesis
      using insert_cpu_tree_ok [OF t2 cpu] wf_unbanned [OF un] grows_trans [OF g2] by (auto simp: tree_ok_def)
  qed
qed

section \<open>Building and freeing\<close>

text \<open>No object has a link or an interrupt, and all lists are empty.\<close>

definition tree_empty :: "daemon \<Rightarrow> bool" where
  "tree_empty dm \<longleftrightarrow> 0 < next_obj dm \<and> load_order (gs dm) = []
    \<and> (\<forall>d. parent (objs (gs dm) d) = None \<and> children (objs (gs dm) d) = []
          \<and> interrupts (objs (gs dm) d) = [] \<and> wf_mask (mask (objs (gs dm) d)))"

lemma add_one_node_tree_ok:
  assumes t: "tree_ok dm"
  shows "tree_ok (add_one_node name f dm) \<and> grows dm (add_one_node name f dm)"
proof (cases f)
  case None
  then show ?thesis using t by (simp add: add_one_node_def grows_refl)
next
  case (Some l)
  let ?ob = "zero_obj\<lparr>mask := read_mask f cpus_clear CPU_MASK_NONE, obj_type := OBJ_TYPE_NODE,
    number := int_of_ulong (fst (strtoull (drop 4 name)))\<rparr>"
  obtain r dm1 where a: "alloc_obj ?ob dm = (r, dm1)" by fastforce
  have ob: "parent ?ob = None" "children ?ob = []" "wf_mask (mask ?ob)"
    by (simp_all add: zero_obj_def wf_mask_read cpus_simps)
  note al = alloc_tree_ok [OF t [unfolded tree_ok_def] a ob]
  have "tree_ok_but {} (upd_gs (append_obj OBJ_TYPE_NODE r) dm1)"
    by (rule append_tree_ok [OF al(1)]) (use al(3) in auto)
  with Some a grows_trans [OF grows_alloc [OF a] grows_append] show ?thesis
    by (simp add: add_one_node_def tree_ok_def Let_def)
qed

lemma build_numa_tree_ok:
  assumes e: "tree_empty dm"
  shows "tree_ok (build_numa_node_list dir dm)"
    "banned_cpus (gs (build_numa_node_list dir dm)) = banned_cpus (gs dm)"
proof -
  define dm0 where "dm0 = upd_gs (append_obj OBJ_TYPE_NODE unspecified_node)
    (upd_gs (upd_obj unspecified_node (\<lambda>_. unspecified_node_template)) dm)"
  have "wf_mask CPU_MASK_ALL" by (simp add: wf_mask_def CPU_MASK_ALL_def)
  then have t0: "tree_ok dm0" "banned_cpus (gs dm0) = banned_cpus (gs dm)"
    using e by (auto simp: tree_empty_def tree_ok_def tree_ok_but_def dm0_def upd_gs_def links_ok_def
        typed_lists_def masks_unbanned_def load_order_def unspecified_node_def unspecified_node_template_def)
  let ?f = "\<lambda>(name, is_dir, cpumap) dm.
    if is_dir \<and> strstr name ''node'' then add_one_node name cpumap dm else dm"
  have fold: "tree_ok (fold ?f es d) \<and> grows d (fold ?f es d)" if "tree_ok d" for es d
    using that
  proof (induction es arbitrary: d)
    case (Cons x es)
    have "tree_ok (?f x d) \<and> grows d (?f x d)"
      using add_one_node_tree_ok [OF Cons.prems] Cons.prems grows_refl by (cases x) auto
    with Cons.IH [of "?f x d"] grows_trans show ?case by (auto simp del: split_conv)
  qed (simp add: grows_refl)
  have "build_numa_node_list dir dm = dm0 \<or> (\<exists>es. build_numa_node_list dir dm = fold ?f es dm0)"
    by (auto simp: build_numa_node_list_def Let_def dm0_def split: option.split)
  with fold [OF t0(1)] t0 show "tree_ok (build_numa_node_list dir dm)"
    "banned_cpus (gs (build_numa_node_list dir dm)) = banned_cpus (gs dm)"
    by (auto simp: grows_def)
qed

definition cpu_numbers_ok :: "(string \<times> cpu_dir) list option \<Rightarrow> bool" where
  "cpu_numbers_ok dir \<longleftrightarrow> (\<forall>es. dir = Some es \<longrightarrow> (\<forall>(name, cd) \<in> set es. is_cpu_name name \<longrightarrow>
     (let n = int_of_ulong (fst (strtoull (drop 27 (cpu_path name)))) in 0 \<le> n \<and> n < int NR_CPUS)))"

lemma do_one_cpu_total:
  assumes "0 \<le> int_of_ulong (fst (strtoull (drop 27 path)))" "int_of_ulong (fst (strtoull (drop 27 path))) < int NR_CPUS"
  shows "\<exists>dm'. do_one_cpu path cd dm = Some dm'"
  using assms unfolding do_one_cpu_def Let_def by (auto split: prod.split)

lemma parse_cpu_tree_ok:
  assumes t: "tree_ok dm" and n: "cpu_numbers_ok dir"
  shows "\<exists>dm'. parse_cpu_tree dir dm = Some dm' \<and> tree_ok dm' \<and> unbanned_ok dm'"
proof -
  define dm0 where "dm0 = upd_gs (\<lambda>s. s\<lparr>unbanned_cpus := cpus_complement (banned_cpus s)\<rparr>) dm"
  have t0: "tree_ok dm0" "unbanned_ok dm0"
    using t by (simp_all add: dm0_def upd_gs_def unbanned_ok_def tree_ok_def tree_ok_but_def links_ok_def
        typed_lists_def masks_unbanned_def load_order_def)
  show ?thesis
  proof (cases dir)
    case None
    then show ?thesis using t0 by (simp add: parse_cpu_tree_def Let_def dm0_def)
  next
    case (Some es)
    let ?cb = "\<lambda>(name, cd) dm. if is_cpu_name name then do_one_cpu (cpu_path name) cd dm else Some dm"
    have step: "\<exists>d'. ?cb x d = Some d' \<and> tree_ok d' \<and> unbanned_ok d'"
      if d: "tree_ok d" "unbanned_ok d" and x: "x \<in> set es" for x d
    proof (cases x)
      case (Pair name cd)
      show ?thesis
      proof (cases "is_cpu_name name")
        case True
        then obtain d' where d': "do_one_cpu (cpu_path name) cd d = Some d'"
          using do_one_cpu_total [of "cpu_path name" cd d] n Some x Pair
          by (fastforce simp: cpu_numbers_ok_def Let_def)
        with do_one_cpu_tree_ok [OF d d'] grows_unbanned d(2) True Pair show ?thesis by auto
      qed (use d Pair in simp)
    qed
    have "\<exists>d'. for_each ?cb es dm0 = Some d' \<and> tree_ok d' \<and> unbanned_ok d' \<and> set [] \<subseteq> set es"
      by (rule for_each_total [where P = "\<lambda>xs d. tree_ok d \<and> unbanned_ok d \<and> set xs \<subseteq> set es"])
        (use t0 step in auto)
    then show ?thesis using Some
      by (simp add: parse_cpu_tree_def Let_def dm0_def [symmetric])
  qed
qed

section \<open>What the tree gives to the other parts\<close>

lemma tree_ok_children: "tree_ok dm \<Longrightarrow> d \<notin> set (children (objs (gs dm) d))"
  by (auto simp: tree_ok_def tree_ok_but_def links_ok_def)

lemma load_order_sorted:
  assumes "typed_lists s"
  shows "sorted_wrt (\<lambda>a b. rank_of s b \<le> rank_of s a) (load_order s)"
proof -
  have same: "sorted_wrt (\<lambda>a b. rank_of s b \<le> rank_of s a) ds"
    if "\<forall>d \<in> set ds. obj_type (objs s d) = ty" for ds ty
    using that by (induction ds) auto
  note ty = assms [unfolded typed_lists_def]
  have "sorted_wrt (\<lambda>a b. rank_of s b \<le> rank_of s a) (cpu_objs s)"
    "sorted_wrt (\<lambda>a b. rank_of s b \<le> rank_of s a) (cache_domains s)"
    "sorted_wrt (\<lambda>a b. rank_of s b \<le> rank_of s a) (packages s)"
    "sorted_wrt (\<lambda>a b. rank_of s b \<le> rank_of s a) (numa_nodes s)"
    using ty by (intro same, blast)+
  with ty show ?thesis by (auto simp: load_order_def sorted_wrt_append)
qed

lemma tree_ok_children_first:
  assumes "tree_ok dm"
  shows "children_first (gs dm) (load_order (gs dm))"
proof -
  let ?s = "gs dm" and ?ds = "load_order (gs dm)"
  have ty: "typed_lists ?s" and l: "links_ok {} ?s" using assms by (simp_all add: tree_ok_def tree_ok_but_def)
  have "p \<notin> set (take k ?ds)" if k: "k < length ?ds" and p: "parent (objs ?s (?ds ! k)) = Some p" for k p
  proof
    assume "p \<in> set (take k ?ds)"
    then obtain j where "j < k" "p = ?ds ! j" using k by (auto simp: in_set_conv_nth)
    then have "rank_of ?s (?ds ! k) \<le> rank_of ?s p"
      using load_order_sorted [OF ty] k by (auto simp: sorted_wrt_iff_nth_less)
    moreover have "rank_of ?s p < rank_of ?s (?ds ! k)" using l p by (auto simp: links_ok_def)
    ultimately show False by simp
  qed
  with ty show ?thesis by (auto simp: children_first_def typed_lists_def)
qed

lemma tree_ok_share_pre:
  assumes "tree_ok dm" "irqs_consistent (gs dm)" "4 * all_deltas (gs dm) < 2 ^ 64"
  shows "share_pre (gs dm)"
  using assms tree_ok_children_first [OF assms(1)]
  by (simp add: share_pre_def parents_ok_def tree_ok_def tree_ok_but_def links_ok_def)

section \<open>Freeing the tree\<close>

lemma free_objs_gs:
  "gs (free_objs ds dm) = (gs dm)\<lparr>objs := \<lambda>d. if d \<in> set ds then zero_obj else objs (gs dm) d\<rparr>
    \<and> next_obj (free_objs ds dm) = next_obj dm"
proof (induction ds arbitrary: dm)
  case (Cons d ds)
  from Cons [of "upd_gs (upd_obj d (\<lambda>_. zero_obj)) dm"] show ?case
    by (auto simp: free_objs_def upd_gs_def upd_obj_def fun_eq_iff)
qed (simp add: free_objs_def)

lemma free_nodes_gs:
  "gs (fold free_numa_node ds dm) = (gs dm)\<lparr>objs := \<lambda>d. if d \<in> set ds
      then (if d \<noteq> unspecified_node then zero_obj else (objs (gs dm) d)\<lparr>children := [], interrupts := []\<rparr>)
      else objs (gs dm) d\<rparr>
    \<and> next_obj (fold free_numa_node ds dm) = next_obj dm"
proof (induction ds arbitrary: dm)
  case (Cons d ds)
  from Cons [of "free_numa_node d dm"] show ?case
    by (auto simp: free_numa_node_def upd_gs_def upd_obj_def fun_eq_iff)
qed simp

definition free_tree :: "daemon \<Rightarrow> daemon" where
  "free_tree dm = clear_cpu_tree (free_numa_node_list dm)"

lemma free_tree_gs:
  "objs (gs (free_tree dm)) d =
    (if d \<in> set (packages (gs dm)) \<union> set (cache_domains (gs dm)) \<union> set (cpu_objs (gs dm)) then zero_obj
     else if d \<in> set (numa_nodes (gs dm))
     then (if d \<noteq> unspecified_node then zero_obj else (objs (gs dm) d)\<lparr>children := [], interrupts := []\<rparr>)
     else objs (gs dm) d)"
  "load_order (gs (free_tree dm)) = []" "next_obj (free_tree dm) = next_obj dm"
  "banned_cpus (gs (free_tree dm)) = banned_cpus (gs dm)"
  by (simp_all add: free_tree_def clear_cpu_tree_def free_numa_node_list_def upd_gs_def
      free_nodes_gs free_objs_gs Let_def load_order_def)

lemma free_tree_empty:
  assumes t: "tree_ok dm"
    and i: "\<forall>d. interrupts (objs (gs dm) d) \<noteq> [] \<longrightarrow> d \<in> set (load_order (gs dm))"
  shows "tree_empty (free_tree dm)"
proof -
  let ?s = "gs dm"
  have l: "links_ok {} ?s" and m: "masks_unbanned ?s" and u: "unspecified_node \<in> set (numa_nodes ?s)"
    and n: "0 < next_obj dm" and ty: "typed_lists ?s"
    using t by (auto simp: tree_ok_def tree_ok_but_def load_order_set)
  have root: "parent (objs ?s unspecified_node) = None"
    using l ty u unfolding links_ok_def typed_lists_def
    by (metis not_None_eq not_less_zero obj_rank.simps(1))
  have dead: "parent (objs ?s d) = None \<and> children (objs ?s d) = [] \<and> interrupts (objs ?s d) = []"
    if "d \<notin> set (load_order ?s)" for d
    using that l i unfolding links_ok_def by blast
  show ?thesis
    using n m root dead unfolding tree_empty_def free_tree_gs
    by (auto simp: zero_obj_def masks_unbanned_def load_order_set)
qed

section \<open>Clearing the statistics\<close>

inductive below :: "gstate \<Rightarrow> oref \<Rightarrow> oref \<Rightarrow> bool" for s where
  below_self: "below s d d"
| below_child: "c \<in> set (children (objs s d)) \<Longrightarrow> below s c e \<Longrightarrow> below s d e"

inductive_cases belowE: "below s d e"

definition cleared :: "gstate \<Rightarrow> iref set \<Rightarrow> gstate \<Rightarrow> bool" where
  "cleared s I s' \<longleftrightarrow> loads_only s s' \<and> objs s' = objs s
    \<and> (\<forall>i. iload (irqs s' i) = 0 \<or> iload (irqs s' i) = iload (irqs s i)) \<and> (\<forall>i \<in> I. iload (irqs s' i) = 0)"

lemma cleared_refl: "cleared s {} s"
  by (simp add: cleared_def)

lemma cleared_trans: "cleared s I t \<Longrightarrow> cleared t J u \<Longrightarrow> cleared s (I \<union> J) u"
  unfolding cleared_def by (metis UnE loads_only_trans)

lemma clear_irq_cleared: "cleared s {i} (upd_irq i (\<lambda>ii. ii\<lparr>iload := 0\<rparr>) s)"
  using loads_only_upd(2) [of s i "\<lambda>_. 0"] by (simp add: cleared_def)

lemma clear_irqs_loop:
  "\<exists>s'. for_each clear_irq_stats is s = Some s' \<and> cleared s (set is) s'"
proof (induction "is" arbitrary: s)
  case (Cons i js)
  from Cons [of "upd_irq i (\<lambda>ii. ii\<lparr>iload := 0\<rparr>) s"] cleared_trans [OF clear_irq_cleared]
  show ?case by (fastforce simp: clear_irq_stats_def)
qed (simp add: cleared_refl)

definition irqs_below :: "gstate \<Rightarrow> oref \<Rightarrow> iref set" where
  "irqs_below s d = {i. \<exists>e. below s d e \<and> i \<in> set (interrupts (objs s e))}"

lemma below_objs: "below a x e \<Longrightarrow> objs a = objs b \<Longrightarrow> below b x e"
  by (induction rule: below.induct) (auto intro: below.intros)

lemma irqs_below_objs: "objs a = objs b \<Longrightarrow> irqs_below a d = irqs_below b d"
  using below_objs [of a d _ b] below_objs [of b d _ a] by (auto simp: irqs_below_def)

lemma irqs_below_unfold:
  "irqs_below s d = set (interrupts (objs s d)) \<union> (\<Union>c \<in> set (children (objs s d)). irqs_below s c)"
  unfolding irqs_below_def by (auto elim: belowE intro: below.intros)

text \<open>Clearing a list of objects, given that each of them is cleared.\<close>

lemma clear_list:
  assumes each: "\<And>c t. c \<in> set cs \<Longrightarrow> loads_only s t \<Longrightarrow> objs t = objs s \<Longrightarrow>
      \<exists>t'. clear_obj_stats k c t = Some t' \<and> cleared t (irqs_below t c) t'"
    and "cleared s I t0"
  shows "\<exists>t. for_each (clear_obj_stats k) cs t0 = Some t \<and> cleared s (I \<union> (\<Union>c \<in> set cs. irqs_below s c)) t"
  using assms
proof (induction cs arbitrary: t0 I)
  case (Cons c cs)
  have o: "loads_only s t0" "objs t0 = objs s" using Cons.prems(2) by (auto simp: cleared_def)
  obtain t1 where t1: "clear_obj_stats k c t0 = Some t1" "cleared t0 (irqs_below t0 c) t1"
    using Cons.prems(1) [OF _ o, of c] by auto
  then have "cleared s (I \<union> irqs_below s c) t1"
    using cleared_trans [OF Cons.prems(2) t1(2)] by (simp add: irqs_below_objs [OF o(2)])
  then obtain t where "for_each (clear_obj_stats k) cs t1 = Some t"
    "cleared s ((I \<union> irqs_below s c) \<union> (\<Union>c \<in> set cs. irqs_below s c)) t"
    using Cons.IH Cons.prems(1) by (metis list.set_intros(2))
  with t1(1) show ?case by (auto simp: Un_assoc)
qed simp

lemma links_ok_loads_only: "loads_only s t \<Longrightarrow> objs t = objs s \<Longrightarrow> links_ok X t = links_ok X s"
  by (simp add: links_ok_def load_order_def loads_only_fields)

lemma clear_obj_stats_total:
  assumes "links_ok X s" "4 \<le> k + rank_of s d"
  shows "\<exists>s'. clear_obj_stats k d s = Some s' \<and> cleared s (irqs_below s d) s'"
  using assms
proof (induction k arbitrary: d s)
  case 0
  then show ?case by (cases "obj_type (objs s d)") auto
next
  case (Suc k)
  have "\<exists>t'. clear_obj_stats k c t = Some t' \<and> cleared t (irqs_below t c) t'"
    if c: "c \<in> set (children (objs s d))" and t: "loads_only s t" "objs t = objs s" for c t
  proof (rule Suc.IH)
    show "links_ok X t" using Suc.prems(1) links_ok_loads_only [OF t] by simp
    have "rank_of s d < rank_of s c" using Suc.prems(1) c by (auto simp: links_ok_def)
    then show "4 \<le> k + rank_of t c" using Suc.prems(2) by (simp add: t(2))
  qed
  from clear_list [OF this cleared_refl] obtain t where
    t: "for_each (clear_obj_stats k) (children (objs s d)) s = Some t"
    "cleared s (\<Union>c \<in> set (children (objs s d)). irqs_below s c) t" by auto
  let ?is = "if interrupts (objs t d) \<noteq> [] then interrupts (objs t d) else interrupts_db t"
  obtain s' where s': "for_each clear_irq_stats ?is t = Some s'" "cleared t (set ?is) s'"
    using clear_irqs_loop by blast
  have "objs t = objs s" using t(2) by (simp add: cleared_def)
  then have "irqs_below s d \<subseteq> (\<Union>c \<in> set (children (objs s d)). irqs_below s c) \<union> set ?is"
    by (subst irqs_below_unfold) auto
  with cleared_trans [OF t(2) s'(2)] have "cleared s (irqs_below s d) s'" unfolding cleared_def by blast
  with t(1) s'(1) show ?case by (auto simp: for_each_object_def for_each_irq_def)
qed

lemma clear_work_stats_all:
  assumes l: "links_ok X s" and ty: "typed_lists s"
  shows "\<exists>s'. clear_work_stats s = Some s' \<and> cleared s (\<Union>n \<in> set (numa_nodes s). irqs_below s n) s'"
proof -
  have "\<exists>t'. clear_obj_stats 4 c t = Some t' \<and> cleared t (irqs_below t c) t'"
    if "loads_only s t" "objs t = objs s" for c t
    using clear_obj_stats_total [of X t 4 c] links_ok_loads_only [OF that] l by simp
  from clear_list [OF this cleared_refl] show ?thesis
    by (simp add: clear_work_stats_def for_each_object_def)
qed

section \<open>Properties\<close>


text \<open>The state in which the program starts, and one CPU directory.\<close>

definition start_state :: gstate where
  "start_state = sample_state\<lparr>objs := (\<lambda>_. zero_obj), irqs := (\<lambda>_. zero_irq), interrupts_db := [],
     cpu_objs := [], numa_avail := True\<rparr>"

definition start_daemon :: daemon where
  "start_daemon = (sample_daemon start_state)\<lparr>next_irq := 0, next_obj := 1, core_count := 0,
     package_count := 0, cache_domain_count := 0, cpu_possible_map := CPU_MASK_NONE\<rparr>"

definition sample_cpu_dir :: cpu_dir where
  "sample_cpu_dir = \<lparr>online = None, core_siblings = Some ''3'', physical_package_id = Some ''0'',
     shared_cpu_maps = [''1'', ''3''], dir_entries = [''node0''], package_stack = CPU_MASK_NONE\<rparr>"

lemma start_empty: "tree_empty start_daemon"
  by (simp add: tree_empty_def start_daemon_def sample_daemon_def start_state_def sample_state_def
      zero_obj_def load_order_def)




text \<open>
  C39: clear_work_stats comes to an end within four levels of recursion and sets the load of every
  interrupt in the list of any object below a node to 0; it changes no load of an object and no
  load of an interrupt to anything but 0.
\<close>

theorem clear_work_stats_clears:
  assumes "tree_ok dm"
  shows "\<exists>s'. clear_work_stats (gs dm) = Some s' \<and> loads_only (gs dm) s' \<and> objs s' = objs (gs dm)
    \<and> (\<forall>i. iload (irqs s' i) \<in> {0, iload (irqs (gs dm) i)})
    \<and> (\<forall>n \<in> set (numa_nodes (gs dm)). \<forall>i \<in> irqs_below (gs dm) n. iload (irqs s' i) = 0)"
  using clear_work_stats_all [of "{}" "gs dm"] assms
  by (auto simp: tree_ok_def tree_ok_but_def cleared_def)

theorem clear_work_stats_clears_witness:
  "\<exists>s'. clear_work_stats (gs (build_numa_node_list None start_daemon)) = Some s'"
  using clear_work_stats_clears [OF build_numa_tree_ok(1) [OF start_empty]] by blast

end
