(* ===== verification/Classify.thy ===== *)
theory Classify
  imports Numa Procinterrupts
begin

text \<open>
  classify.c: the data base of interrupts and the lists of banned ones.

  \<open>irq_env\<close> is what the functions see of the machine: the files of a device and of an
  interrupt (\<open>None\<close> when a file cannot be opened), the output of the policy script and the status
  of the ban script (\<open>None\<close> when there is no such script), and what the stack holds in the
  uninitialised \<open>irqnum\<close>. A result \<open>None\<close> is an index outside a table.
\<close>

definition MAX_CLASS :: int where "MAX_CLASS = 18"

definition map_class_to_level :: "int list" where
  "map_class_to_level = [BALANCE_PACKAGE, BALANCE_CACHE, BALANCE_CORE, BALANCE_CORE, BALANCE_CORE,
     BALANCE_CORE, BALANCE_CORE, BALANCE_CORE]"

definition class_codes :: "int list" where
  "class_codes = [IRQ_OTHER, IRQ_SCSI, IRQ_ETH, IRQ_VIDEO, IRQ_OTHER, IRQ_OTHER, IRQ_LEGACY, IRQ_OTHER,
     IRQ_OTHER, IRQ_LEGACY, IRQ_OTHER, IRQ_OTHER, IRQ_LEGACY, IRQ_ETH, IRQ_SCSI, IRQ_OTHER, IRQ_OTHER,
     IRQ_OTHER]"

record user_irq_policy =
  ban :: int
  pol_level :: int
  numa_node_set :: int
  pol_numa_node :: int
  hintpolicy :: hint_policy

record irq_env =
  class_file :: "string \<Rightarrow> string option"
  numa_node_file :: "string \<Rightarrow> string option"
  local_cpus :: "string \<Rightarrow> string option"
  affinity_hint_file :: "int \<Rightarrow> string option"
  polscript :: "(string \<Rightarrow> int \<Rightarrow> string option) option"
  banscript :: "(string \<Rightarrow> int \<Rightarrow> int) option"
  irqnum_stack :: int

section \<open>Banned interrupts\<close>

text \<open>The two lists that \<open>add_banned_irq\<close> is called with.\<close>

datatype ban_list = Banned | ClBanned

fun get_bans :: "ban_list \<Rightarrow> daemon \<Rightarrow> iref list" where
  "get_bans Banned dm = banned_irqs (gs dm)"
| "get_bans ClBanned dm = cl_banned_irqs dm"

fun put_bans :: "ban_list \<Rightarrow> iref list \<Rightarrow> daemon \<Rightarrow> daemon" where
  "put_bans Banned l dm = upd_gs (\<lambda>s. s\<lparr>banned_irqs := l\<rparr>) dm"
| "put_bans ClBanned l dm = dm\<lparr>cl_banned_irqs := l\<rparr>"

definition add_banned_irq :: "int \<Rightarrow> ban_list \<Rightarrow> daemon \<Rightarrow> daemon" where
  "add_banned_irq n l dm =
    (case find_irq (gs dm) n (get_bans l dm) of
       Some _ \<Rightarrow> dm
     | None \<Rightarrow>
         let (r, dm) = alloc_irq (zero_irq\<lparr>irq := n, flags := IRQ_FLAG_BANNED,
                                     hint_policy := HINT_POLICY_EXACT\<rparr>) dm
         in put_bans l (get_bans l dm @ [r]) dm)"

definition add_cl_banned_irq :: "int \<Rightarrow> daemon \<Rightarrow> daemon" where
  "add_cl_banned_irq n dm = add_banned_irq n ClBanned dm"

definition is_banned_irq :: "int \<Rightarrow> daemon \<Rightarrow> bool" where
  "is_banned_irq n dm = (find_irq (gs dm) n (banned_irqs (gs dm)) \<noteq> None)"

section \<open>One interrupt\<close>

text \<open>
  The class and level from the class file: \<open>None\<close> on an index out of range, otherwise the new
  class and level when they are set. A file without a number is \<open>rc == 0\<close>, an empty file is
  \<open>EOF\<close>, which the code takes for success with class 0.
\<close>

definition class_and_level :: "user_irq_policy \<Rightarrow> int \<Rightarrow> (int \<times> int) option option" where
  "class_and_level pol v =
    (let c = v div 2 ^ 16 in
     if c \<ge> MAX_CLASS then Some None
     else if c < 0 then None
     else
       let cl = class_codes ! nat c in
       Some (Some (cl, if pol_level pol \<ge> 0 then pol_level pol else map_class_to_level ! nat cl)))"

definition class_of_device :: "string option \<Rightarrow> user_irq_policy \<Rightarrow> (int \<times> int) option option" where
  "class_of_device file pol =
    (case file of
       None \<Rightarrow> Some None
     | Some l \<Rightarrow>
         (case scan_hex l of
            None \<Rightarrow> class_and_level pol 0
          | Some None \<Rightarrow> Some None
          | Some (Some v) \<Rightarrow> class_and_level pol v))"

definition numa_node_of_device :: "bool \<Rightarrow> string option \<Rightarrow> int" where
  "numa_node_of_device avail file =
    (if avail then
       (case file of
          None \<Rightarrow> - 1
        | Some l \<Rightarrow> (case scan_int l of Some (Some n) \<Rightarrow> n | _ \<Rightarrow> - 1))
     else - 1)"

text \<open>The new entry; \<open>cl\<close> is its class and level when they are set.\<close>

definition new_irq_info :: "irq_env \<Rightarrow> gstate \<Rightarrow> string \<Rightarrow> int \<Rightarrow> user_irq_policy \<Rightarrow> (int \<times> int) option \<Rightarrow> irq_info" where
  "new_irq_info env s devpath n pol cl =
    (let new = zero_irq\<lparr>irq := n, iclass := IRQ_OTHER, hint_policy := hintpolicy pol\<rparr>;
         new = (case cl of None \<Rightarrow> new | Some (c, lv) \<Rightarrow> new\<lparr>iclass := c, level := lv\<rparr>);
         node = numa_node_of_device (numa_avail s) (numa_node_file env devpath);
         new = new\<lparr>numa_node := get_numa_node s (if numa_node_set pol = 1 then pol_numa_node pol else node)\<rparr>;
         new = new\<lparr>icpumask := read_mask (local_cpus env devpath) cpus_setall (icpumask new)\<rparr>
     in new\<lparr>affinity_hint := read_mask (affinity_hint_file env n) cpus_clear cpus_clear\<rparr>)"

definition add_one_irq_to_db :: "irq_env \<Rightarrow> string \<Rightarrow> int \<Rightarrow> user_irq_policy \<Rightarrow> daemon \<Rightarrow> (iref option \<times> daemon) option" where
  "add_one_irq_to_db env devpath n pol dm =
    (if find_irq (gs dm) n (interrupts_db (gs dm)) \<noteq> None then Some (None, dm)
     else if is_banned_irq n dm then Some (None, dm)
     else case class_of_device (class_file env devpath) pol of
       None \<Rightarrow> None
     | Some cl \<Rightarrow>
         let (r, dm) = alloc_irq (new_irq_info env (gs dm) devpath n pol cl) dm
         in Some (Some r, upd_gs (\<lambda>s. s\<lparr>interrupts_db := interrupts_db s @ [r]\<rparr>) dm))"

section \<open>User policies\<close>

definition levelvals :: "string list" where
  "levelvals = [''none'', ''package'', ''cache'', ''core'']"

text \<open>The index of the first value equal but for case, 4 when there is none.\<close>

definition level_index :: "string \<Rightarrow> nat" where
  "level_index value = length (takeWhile (\<lambda>v. \<not> streq_nocase v value) levelvals)"

definition parse_user_policy_key :: "gstate \<Rightarrow> string \<Rightarrow> user_irq_policy \<Rightarrow> user_irq_policy" where
  "parse_user_policy_key s buf pol =
    (case strchr buf CHR ''='' of
       None \<Rightarrow> pol
     | Some v \<Rightarrow>
         let key = takeWhile (\<lambda>c. c \<noteq> CHR ''='') buf;
             value = takeWhile (\<lambda>c. c \<noteq> CHR 0x0A) (tl v)
         in if streq_nocase ''ban'' key then
              (if streq_nocase ''false'' value then pol\<lparr>ban := 0\<rparr>
               else if streq_nocase ''true'' value then pol\<lparr>ban := 1\<rparr> else pol)
            else if streq_nocase ''balance_level'' key then
              (let idx = level_index value in if idx > 3 then pol else pol\<lparr>pol_level := int idx\<rparr>)
            else if streq_nocase ''numa_node'' key then
              (let idx = int_of_ulong (fst (strtoull value)) in
               if get_numa_node s idx = None then pol
               else pol\<lparr>pol_numa_node := idx, numa_node_set := 1\<rparr>)
            else if streq_nocase ''hintpolicy'' key then
              (if streq_nocase ''exact'' value then pol\<lparr>hintpolicy := HINT_POLICY_EXACT\<rparr>
               else if streq_nocase ''subset'' value then pol\<lparr>hintpolicy := HINT_POLICY_SUBSET\<rparr>
               else if streq_nocase ''ignore'' value then pol\<lparr>hintpolicy := HINT_POLICY_IGNORE\<rparr>
               else pol)
            else pol)"

definition get_irq_user_policy :: "irq_env \<Rightarrow> daemon \<Rightarrow> string \<Rightarrow> int \<Rightarrow> user_irq_policy" where
  "get_irq_user_policy env dm path n =
    (let pol = \<lparr>ban = - 1, pol_level = - 1, numa_node_set = - 1, pol_numa_node = - 1,
                hintpolicy = global_hint_policy dm\<rparr>
     in case polscript env of
       None \<Rightarrow> pol
     | Some script \<Rightarrow>
         (case script path n of
            None \<Rightarrow> pol
          | Some output \<Rightarrow> fold (parse_user_policy_key (gs dm)) (fgets_chunks [] output) pol))"

text \<open>\<open>WEXITSTATUS(rc)\<close> is the second byte of the status.\<close>

definition check_for_irq_ban :: "irq_env \<Rightarrow> daemon \<Rightarrow> string option \<Rightarrow> int \<Rightarrow> bool" where
  "check_for_irq_ban env dm path n =
    (if find_irq (gs dm) n (cl_banned_irqs dm) \<noteq> None then True
     else case banscript env of
       None \<Rightarrow> False
     | Some script \<Rightarrow>
         (case path of
            None \<Rightarrow> False
          | Some p \<Rightarrow>
              let rc = script p n in
              if rc = - 1 then False else rc div 2 ^ 8 mod 2 ^ 8 \<noteq> 0))"

section \<open>Devices and the whole data base\<close>

definition SYSDEV_DIR :: string where "SYSDEV_DIR = ''/sys/bus/pci/devices''"

text \<open>A device directory: the names under \<open>msi_irqs\<close>, and its \<open>irq\<close> file.\<close>

record dev_dir =
  msi_irqs :: "string list option"
  irq_file :: "string option"

text \<open>What both kinds of interrupts have in common.\<close>

definition add_dev_irq :: "irq_env \<Rightarrow> string \<Rightarrow> string \<Rightarrow> int \<Rightarrow> int \<Rightarrow> daemon \<Rightarrow> daemon option" where
  "add_dev_irq env devpath banpath ty n dm =
    (if n = 0 \<or> get_irq_info (gs dm) n \<noteq> None then Some dm
     else
       let pol = get_irq_user_policy env dm devpath n in
       if ban pol = 1 \<or> check_for_irq_ban env dm (Some banpath) n then Some (add_banned_irq n Banned dm)
       else case add_one_irq_to_db env devpath n pol dm of
         None \<Rightarrow> None
       | Some (None, dm) \<Rightarrow> Some dm
       | Some (Some r, dm) \<Rightarrow> Some (upd_gs (upd_irq r (\<lambda>ii. ii\<lparr>itype := ty\<rparr>)) dm))"

definition build_one_dev_entry :: "irq_env \<Rightarrow> string \<times> dev_dir \<Rightarrow> daemon \<Rightarrow> daemon option" where
  "build_one_dev_entry env = (\<lambda>(dirname, dd) dm.
    (let devpath = SYSDEV_DIR @ ''/'' @ dirname in
     case msi_irqs dd of
       Some names \<Rightarrow>
         for_each (\<lambda>name. add_dev_irq env devpath devpath IRQ_TYPE_MSIX (strtol_int name)) names dm
     | None \<Rightarrow>
         (case irq_file dd of
            None \<Rightarrow> Some dm
          | Some l \<Rightarrow>
              (case scan_int l of
                 None \<Rightarrow> Some dm
               | Some r \<Rightarrow>
                   add_dev_irq env devpath (devpath @ ''/irq'') IRQ_TYPE_LEGACY
                     (case r of None \<Rightarrow> irqnum_stack env | Some n \<Rightarrow> n) dm))))"

text \<open>Freed interrupts are reset.\<close>

definition free_irq :: "iref \<Rightarrow> daemon \<Rightarrow> daemon option" where
  "free_irq i dm = Some (upd_gs (upd_irq i (\<lambda>_. zero_irq)) dm)"

definition free_irq_db :: "daemon \<Rightarrow> daemon option" where
  "free_irq_db dm = do {
     dm \<leftarrow> for_each_irq (gs dm) [] free_irq dm;
     let dm = upd_gs (\<lambda>s. s\<lparr>interrupts_db := []\<rparr>) dm;
     dm \<leftarrow> for_each_irq (gs dm) (banned_irqs (gs dm)) free_irq dm;
     let dm = upd_gs (\<lambda>s. s\<lparr>banned_irqs := []\<rparr>) dm;
     Some (upd_gs (\<lambda>s. s\<lparr>rebalance_irq_list := []\<rparr>) dm)
   }"

definition add_new_irq :: "irq_env \<Rightarrow> int \<Rightarrow> iref option \<Rightarrow> daemon \<Rightarrow> daemon option" where
  "add_new_irq env n hint dm =
    (if get_irq_info (gs dm) n \<noteq> None then Some dm
     else
       let pol = get_irq_user_policy env dm ''/sys'' n;
           res = (if ban pol = 1 \<or> check_for_irq_ban env dm None n
                  then (let dm = add_banned_irq n Banned dm in Some (get_irq_info (gs dm) n, dm))
                  else add_one_irq_to_db env ''/sys'' n pol dm)
       in case res of
         None \<Rightarrow> None
       | Some (None, dm) \<Rightarrow> Some dm
       | Some (Some r, dm) \<Rightarrow>
           let dm = (case hint of
                 None \<Rightarrow> dm
               | Some h \<Rightarrow> upd_gs (\<lambda>s. upd_irq r (\<lambda>ii. ii\<lparr>itype := itype (irqs s h), iclass := iclass (irqs s h)\<rparr>) s) dm);
               c = iclass (irqs (gs dm) r)
           in if c < 0 \<or> 8 \<le> c then None
              else Some (upd_gs (upd_irq r (\<lambda>ii. ii\<lparr>level := map_class_to_level ! nat c\<rparr>)) dm))"

definition add_missing_irq :: "irq_env \<Rightarrow> iref \<Rightarrow> daemon \<Rightarrow> daemon option" where
  "add_missing_irq env info dm =
    (let n = irq (irqs (gs dm) info) in
     if get_irq_info (gs dm) n = None then add_new_irq env n (Some info) dm else Some dm)"

definition free_irqs :: "iref list \<Rightarrow> daemon \<Rightarrow> daemon" where
  "free_irqs is dm = fold (\<lambda>i. upd_gs (upd_irq i (\<lambda>_. zero_irq))) is dm"

definition rebuild_irq_db :: "irq_env \<Rightarrow> string list option \<Rightarrow> (string \<times> dev_dir) list option \<Rightarrow> daemon \<Rightarrow> daemon option" where
  "rebuild_irq_db env proc_interrupts devdir dm = do {
     dm \<leftarrow> free_irq_db dm;
     (tmp_irqs, dm) \<leftarrow> collect_full_irq_list proc_interrupts dm;
     dm \<leftarrow> (case devdir of
         None \<Rightarrow> Some dm
       | Some es \<Rightarrow> do {
           dm \<leftarrow> for_each (build_one_dev_entry env) es dm;
           for_each_irq (gs dm) tmp_irqs (add_missing_irq env) dm
         });
     Some (free_irqs tmp_irqs dm)
   }"

section \<open>Looking interrupts up\<close>

lemma find_irq_None: "find_irq s n l = None \<longleftrightarrow> (\<forall>r \<in> set l. irq (irqs s r) \<noteq> n)"
  by (auto simp: find_irq_def find_None_iff)

lemma find_snoc: "\<forall>x \<in> set xs. \<not> P x \<Longrightarrow> P y \<Longrightarrow> List.find P (xs @ [y]) = Some y"
  by (induction xs) auto

lemma get_irq_info_None:
  "get_irq_info s n = None \<longleftrightarrow> (\<forall>r \<in> set (interrupts_db s) \<union> set (banned_irqs s). irq (irqs s r) \<noteq> n)"
  by (auto simp: get_irq_info_def find_irq_None split: option.splits) (auto simp: find_irq_def find_Some_iff)

lemma get_irq_info_in: "get_irq_info s n = Some r \<Longrightarrow>
    r \<in> set (interrupts_db s) \<union> set (banned_irqs s) \<and> irq (irqs s r) = n"
  by (auto simp: get_irq_info_def find_irq_def find_Some_iff split: option.splits)

section \<open>The invariant of the data base\<close>

definition db_irq_ok :: "daemon \<Rightarrow> iref \<Rightarrow> bool" where
  "db_irq_ok dm r \<longleftrightarrow>
    (let ii = irqs (gs dm) r in assigned_obj ii = None \<and> 0 \<le> level ii \<and> level ii \<le> 3
      \<and> 0 \<le> iclass ii \<and> iclass ii < 8 \<and> find_irq (gs dm) (irq ii) (cl_banned_irqs dm) = None
      \<and> (numa_avail (gs dm) \<or> numa_node ii = Some unspecified_node))"

text \<open>
  \<open>T\<close> are interrupts in use that are in no list of the data base: the ones collected from
  \<open>/proc/interrupts\<close>.
\<close>

definition db_ok_with :: "iref set \<Rightarrow> daemon \<Rightarrow> bool" where
  "db_ok_with T dm \<longleftrightarrow>
    (let s = gs dm; L = interrupts_db s @ banned_irqs s in
     distinct L \<and> inj_on (\<lambda>r. irq (irqs s r)) (set L)
     \<and> (\<forall>r \<in> set L \<union> set (cl_banned_irqs dm) \<union> T. r < next_irq dm)
     \<and> (set (cl_banned_irqs dm) \<union> T) \<inter> set L = {} \<and> set (cl_banned_irqs dm) \<inter> T = {}
     \<and> (\<forall>r \<in> set (interrupts_db s). db_irq_ok dm r)
     \<and> (\<forall>r \<in> T. 0 \<le> iclass (irqs s r) \<and> iclass (irqs s r) < 8))"

definition db_ok :: "daemon \<Rightarrow> bool" where
  "db_ok dm \<longleftrightarrow> db_ok_with {} dm"

text \<open>What stays the same while the data base is filled.\<close>

definition same_rest :: "daemon \<Rightarrow> daemon \<Rightarrow> bool" where
  "same_rest dm dm' \<longleftrightarrow> objs (gs dm') = objs (gs dm) \<and> numa_nodes (gs dm') = numa_nodes (gs dm)
    \<and> numa_avail (gs dm') = numa_avail (gs dm) \<and> rebalance_irq_list (gs dm') = rebalance_irq_list (gs dm)
    \<and> cl_banned_irqs dm' = cl_banned_irqs dm \<and> next_irq dm \<le> next_irq dm'
    \<and> set (interrupts_db (gs dm)) \<subseteq> set (interrupts_db (gs dm'))
    \<and> set (banned_irqs (gs dm)) \<subseteq> set (banned_irqs (gs dm'))
    \<and> (\<forall>r < next_irq dm. irq (irqs (gs dm') r) = irq (irqs (gs dm) r))
    \<and> load_order (gs dm') = load_order (gs dm) \<and> next_obj dm' = next_obj dm"

lemma same_rest_refl: "same_rest dm dm"
  by (simp add: same_rest_def)

lemma same_rest_trans: "same_rest a b \<Longrightarrow> same_rest b c \<Longrightarrow> same_rest a c"
  unfolding same_rest_def by (metis order_trans order_less_le_trans)

abbreviation known :: "daemon \<Rightarrow> int set" where
  "known dm \<equiv> (\<lambda>r. irq (irqs (gs dm) r)) ` (set (interrupts_db (gs dm)) \<union> set (banned_irqs (gs dm)))"

definition filled :: "iref set \<Rightarrow> daemon \<Rightarrow> daemon \<Rightarrow> bool" where
  "filled T dm dm' \<longleftrightarrow> db_ok_with T dm' \<and> same_rest dm dm'
    \<and> (\<forall>r \<in> T. irqs (gs dm') r = irqs (gs dm) r)"

lemma filled_refl: "db_ok_with T dm \<Longrightarrow> filled T dm dm"
  by (simp add: filled_def same_rest_refl)

lemma filled_trans: "filled T a b \<Longrightarrow> filled T b c \<Longrightarrow> filled T a c"
  unfolding filled_def using same_rest_trans by metis

lemma add_banned_filled:
  assumes ok: "db_ok_with T dm" and new: "get_irq_info (gs dm) n = None"
  shows "filled T dm (add_banned_irq n Banned dm)"
    "get_irq_info (gs (add_banned_irq n Banned dm)) n = Some (next_irq dm)"
    "iclass (irqs (gs (add_banned_irq n Banned dm)) (next_irq dm)) = 0"
    "next_irq dm \<in> set (banned_irqs (gs (add_banned_irq n Banned dm)))"
proof -
  let ?s = "gs dm" and ?r = "next_irq dm"
  let ?ii = "zero_irq\<lparr>irq := n, flags := IRQ_FLAG_BANNED, hint_policy := HINT_POLICY_EXACT\<rparr>"
  let ?dm = "dm\<lparr>gs := (upd_irq ?r (\<lambda>_. ?ii) ?s)\<lparr>banned_irqs := banned_irqs ?s @ [?r]\<rparr>, next_irq := Suc ?r\<rparr>"
  have f: "find_irq ?s n (banned_irqs ?s) = None" "\<forall>r \<in> set (interrupts_db ?s) \<union> set (banned_irqs ?s). irq (irqs ?s r) \<noteq> n"
    using new by (simp_all add: get_irq_info_None find_irq_None)
  have eq: "add_banned_irq n Banned dm = ?dm"
    using f(1) by (simp add: add_banned_irq_def alloc_irq_def upd_gs_def)
  have fresh: "r \<noteq> ?r" if "r \<in> set (interrupts_db ?s) \<union> set (banned_irqs ?s) \<union> set (cl_banned_irqs dm) \<union> T" for r
    using ok that by (auto simp: db_ok_with_def Let_def)
  have fi: "find_irq (gs ?dm) m l = find_irq ?s m l" if "?r \<notin> set l" for m l
    using that unfolding find_irq_def by (intro find_cong) auto
  have "db_ok_with T ?dm"
    using ok f(2) fresh fi unfolding db_ok_with_def Let_def
    by (auto simp: inj_on_def db_irq_ok_def Let_def less_Suc_eq)
  then show "filled T dm (add_banned_irq n Banned dm)"
    using fresh unfolding filled_def eq by (auto simp: same_rest_def load_order_def)
  have "get_irq_info (gs ?dm) n = Some ?r"
  proof -
    have "find_irq (gs ?dm) n (interrupts_db ?s) = None"
      using f(2) fresh by (simp add: find_irq_None)
    moreover have "find_irq (gs ?dm) n (banned_irqs ?s @ [?r]) = Some ?r"
      using f(2) fresh unfolding find_irq_def by (intro find_snoc) auto
    ultimately show ?thesis by (simp add: get_irq_info_def)
  qed
  then show "get_irq_info (gs (add_banned_irq n Banned dm)) n = Some ?r" by (simp add: eq)
  show "iclass (irqs (gs (add_banned_irq n Banned dm)) ?r) = 0" by (simp add: eq zero_irq_def)
  show "?r \<in> set (banned_irqs (gs (add_banned_irq n Banned dm)))" by (simp add: eq)
qed

definition pol_ok :: "user_irq_policy \<Rightarrow> bool" where
  "pol_ok pol \<longleftrightarrow> pol_level pol \<le> 3"

lemma class_codes_range: "k < 18 \<Longrightarrow> 0 \<le> class_codes ! k \<and> class_codes ! k < 8"
proof -
  have "\<forall>c \<in> set class_codes. 0 \<le> c \<and> c < 8" by (simp add: class_codes_def irq_classes)
  moreover assume "k < 18"
  then have "class_codes ! k \<in> set class_codes" by (intro nth_mem) (simp add: class_codes_def)
  ultimately show ?thesis by blast
qed

lemma level_range: "k < 8 \<Longrightarrow> 0 \<le> map_class_to_level ! k \<and> map_class_to_level ! k \<le> 3"
proof -
  have "\<forall>c \<in> set map_class_to_level. 0 \<le> c \<and> c \<le> 3" by (simp add: map_class_to_level_def balance_levels)
  moreover assume "k < 8"
  then have "map_class_to_level ! k \<in> set map_class_to_level" by (intro nth_mem) (simp add: map_class_to_level_def)
  ultimately show ?thesis by blast
qed

lemma class_of_device_range:
  assumes "class_of_device f pol = Some (Some (c, lv))" "pol_ok pol"
  shows "0 \<le> c \<and> c < 8 \<and> 0 \<le> lv \<and> lv \<le> 3"
proof -
  obtain v where v: "class_and_level pol v = Some (Some (c, lv))"
    using assms(1) by (auto simp: class_of_device_def split: option.splits)
  then have k: "nat (v div 2 ^ 16) < 18"
    by (auto simp: class_and_level_def Let_def MAX_CLASS_def split: if_splits)
  from v have c: "c = class_codes ! nat (v div 2 ^ 16)"
    "lv = (if pol_level pol \<ge> 0 then pol_level pol else map_class_to_level ! nat c)"
    by (auto simp: class_and_level_def Let_def split: if_splits)
  have cr: "0 \<le> c \<and> c < 8" using class_codes_range [OF k] c(1) by simp
  then show ?thesis using c(2) assms(2) level_range [of "nat c"] by (auto simp: pol_ok_def)
qed

lemma add_one_filled:
  assumes ok: "db_ok_with T dm" and p: "pol_ok pol"
    and nb: "find_irq (gs dm) n (cl_banned_irqs dm) = None"
    and r: "add_one_irq_to_db env path n pol dm = Some (res, dm')"
  shows "filled T dm dm'" "res = Some i \<Longrightarrow> i \<in> set (interrupts_db (gs dm')) \<and> i \<notin> T \<and>
    i \<notin> set (banned_irqs (gs dm'))"
    "get_irq_info (gs dm) n = None \<Longrightarrow> res \<noteq> None"
proof -
  let ?s = "gs dm" and ?r = "next_irq dm"
  have "filled T dm dm' \<and> (res = Some i \<longrightarrow> i \<in> set (interrupts_db (gs dm')) \<and> i \<notin> T
      \<and> i \<notin> set (banned_irqs (gs dm'))) \<and> (get_irq_info (gs dm) n = None \<longrightarrow> res \<noteq> None)"
  proof (cases "find_irq ?s n (interrupts_db ?s) \<noteq> None \<or> is_banned_irq n dm")
    case True
    then have "get_irq_info ?s n \<noteq> None"
      unfolding get_irq_info_None is_banned_irq_def find_irq_None by blast
    moreover have "res = None" "dm' = dm" using True r by (auto simp: add_one_irq_to_db_def split: if_splits)
    ultimately show ?thesis using filled_refl [OF ok] by simp
  next
    case False
    then have f: "\<forall>r \<in> set (interrupts_db ?s) \<union> set (banned_irqs ?s). irq (irqs ?s r) \<noteq> n"
      by (auto simp: is_banned_irq_def find_irq_None)
    obtain cl ii where ii: "class_of_device (class_file env path) pol = Some cl" "irq ii = n"
      "assigned_obj ii = None" "0 \<le> level ii \<and> level ii \<le> 3" "0 \<le> iclass ii \<and> iclass ii < 8"
      "numa_avail ?s \<or> numa_node ii = Some unspecified_node"
      "res = Some ?r" "dm' = dm\<lparr>gs := (upd_irq ?r (\<lambda>_. ii) ?s)\<lparr>interrupts_db := interrupts_db ?s @ [?r]\<rparr>, next_irq := Suc ?r\<rparr>"
    proof -
      obtain cl where cl: "class_of_device (class_file env path) pol = Some cl"
        using r False by (auto simp: add_one_irq_to_db_def split: option.splits)
      define ii where "ii = new_irq_info env ?s path n pol cl"
      have "0 \<le> level ii \<and> level ii \<le> 3" "0 \<le> iclass ii \<and> iclass ii < 8"
        using cl class_of_device_range [OF _ p] unfolding ii_def new_irq_info_def Let_def
        by (auto simp: zero_irq_def IRQ_OTHER_def split: option.split)
      moreover have "irq ii = n" "assigned_obj ii = None"
        "numa_avail ?s \<or> numa_node ii = Some unspecified_node"
        unfolding ii_def new_irq_info_def Let_def
        by (auto simp: zero_irq_def get_numa_node_def split: option.split)
      moreover have "res = Some ?r \<and> dm' = dm\<lparr>gs := (upd_irq ?r (\<lambda>_. ii) ?s)\<lparr>interrupts_db := interrupts_db ?s @ [?r]\<rparr>, next_irq := Suc ?r\<rparr>"
        using r cl False by (auto simp: add_one_irq_to_db_def ii_def alloc_irq_def upd_gs_def)
      ultimately show thesis using that [OF cl] by blast
    qed
    have fresh: "r \<noteq> ?r" if "r \<in> set (interrupts_db ?s) \<union> set (banned_irqs ?s) \<union> set (cl_banned_irqs dm) \<union> T" for r
      using ok that by (auto simp: db_ok_with_def Let_def)
    have fi: "find_irq (gs dm') m l = find_irq ?s m l" if "?r \<notin> set l" for m l
      using that unfolding find_irq_def ii(8) by (intro find_cong) auto
    have "db_ok_with T dm'"
      using ok f fresh fi nb ii(2-6) unfolding db_ok_with_def Let_def
      by (auto simp: inj_on_def db_irq_ok_def Let_def less_Suc_eq ii(8))
    moreover have "same_rest dm dm'" "\<forall>r \<in> T. irqs (gs dm') r = irqs (gs dm) r"
      using fresh by (auto simp: same_rest_def load_order_def ii(8))
    ultimately show ?thesis using fresh ii(7) by (auto simp: filled_def ii(8))
  qed
  then show "filled T dm dm'" "res = Some i \<Longrightarrow> i \<in> set (interrupts_db (gs dm')) \<and> i \<notin> T \<and>
      i \<notin> set (banned_irqs (gs dm'))" "get_irq_info (gs dm) n = None \<Longrightarrow> res \<noteq> None" by auto
qed

text \<open>Changing the type, class or level of an interrupt of the data base.\<close>

lemma upd_irq_filled:
  assumes ok: "db_ok_with T dm" and i: "i \<in> set (interrupts_db (gs dm)) \<union> set (banned_irqs (gs dm))"
    and same: "irq (f (irqs (gs dm) i)) = irq (irqs (gs dm) i)"
      "assigned_obj (f (irqs (gs dm) i)) = assigned_obj (irqs (gs dm) i)"
      "numa_node (f (irqs (gs dm) i)) = numa_node (irqs (gs dm) i)"
      "i \<in> set (interrupts_db (gs dm)) \<Longrightarrow> 0 \<le> level (f (irqs (gs dm) i)) \<and> level (f (irqs (gs dm) i)) \<le> 3"
      "i \<in> set (interrupts_db (gs dm)) \<Longrightarrow> 0 \<le> iclass (f (irqs (gs dm) i)) \<and> iclass (f (irqs (gs dm) i)) < 8"
  shows "filled T dm (upd_gs (upd_irq i f) dm)"
proof -
  let ?dm = "upd_gs (upd_irq i f) dm"
  have eq: "irq (irqs (gs ?dm) r) = irq (irqs (gs dm) r)" for r by (simp add: upd_gs_def same(1))
  have fi: "find_irq (gs ?dm) m l = find_irq (gs dm) m l" for m l
    unfolding find_irq_def eq ..
  have iT: "i \<notin> T" using ok i by (auto simp: db_ok_with_def Let_def)
  have lists: "interrupts_db (gs ?dm) = interrupts_db (gs dm)" "banned_irqs (gs ?dm) = banned_irqs (gs dm)"
    "cl_banned_irqs ?dm = cl_banned_irqs dm" "next_irq ?dm = next_irq dm" "numa_avail (gs ?dm) = numa_avail (gs dm)"
    by (simp_all add: upd_gs_def)
  have "db_irq_ok ?dm r" if "r \<in> set (interrupts_db (gs dm))" "db_irq_ok dm r" for r
    using that same unfolding db_irq_ok_def Let_def fi lists by (auto simp: upd_gs_def)
  moreover have "iclass (irqs (gs ?dm) r) = iclass (irqs (gs dm) r)" if "r \<in> T" for r
    using that iT by (auto simp: upd_gs_def)
  ultimately have "db_ok_with T ?dm"
    using ok unfolding db_ok_with_def Let_def lists eq by auto
  then show ?thesis
    using iT unfolding filled_def same_rest_def eq by (auto simp: upd_gs_def load_order_def)
qed

section \<open>Filling the data base\<close>

lemma parse_key_pol_ok: "pol_ok pol \<Longrightarrow> pol_ok (parse_user_policy_key s buf pol)"
  unfolding parse_user_policy_key_def Let_def by (auto simp: pol_ok_def split: option.split)

lemma user_policy_ok: "pol_ok (get_irq_user_policy env dm path n)"
proof -
  have fold: "pol_ok (fold (parse_user_policy_key s) ls pol)" if "pol_ok pol" for s ls pol
    using that by (induction ls arbitrary: pol) (simp_all add: parse_key_pol_ok)
  show ?thesis by (auto simp: get_irq_user_policy_def Let_def intro!: fold split: option.split)
      (auto simp: pol_ok_def)
qed

lemma not_banned: "\<not> check_for_irq_ban env dm p n \<Longrightarrow> find_irq (gs dm) n (cl_banned_irqs dm) = None"
  by (auto simp: check_for_irq_ban_def split: if_splits)

lemma db_level_class:
  "db_ok_with T dm \<Longrightarrow> r \<in> set (interrupts_db (gs dm)) \<Longrightarrow> db_irq_ok dm r"
  by (simp add: db_ok_with_def Let_def)

lemma add_dev_filled:
  assumes ok: "db_ok_with T dm" and r: "add_dev_irq env path bpath ty n dm = Some dm'"
  shows "filled T dm dm'"
proof (cases "n = 0 \<or> get_irq_info (gs dm) n \<noteq> None")
  case True
  then show ?thesis using r filled_refl [OF ok] by (auto simp: add_dev_irq_def)
next
  case False
  let ?pol = "get_irq_user_policy env dm path n"
  show ?thesis
  proof (cases "ban ?pol = 1 \<or> check_for_irq_ban env dm (Some bpath) n")
    case True
    then show ?thesis using r False add_banned_filled(1) [OF ok, of n] by (auto simp: add_dev_irq_def)
  next
    case nb: False
    obtain res dm1 where one: "add_one_irq_to_db env path n ?pol dm = Some (res, dm1)"
      using r False nb by (auto simp: add_dev_irq_def split: option.splits)
    have nc: "find_irq (gs dm) n (cl_banned_irqs dm) = None" using nb not_banned by blast
    note f = add_one_filled [OF ok user_policy_ok nc one]
    show ?thesis
    proof (cases res)
      case None
      then show ?thesis using r False nb one f(1) by (simp add: add_dev_irq_def)
    next
      case (Some i)
      have ok1: "db_ok_with T dm1" using f(1) by (simp add: filled_def)
      have i: "i \<in> set (interrupts_db (gs dm1))" using f(2) [OF Some] by blast
      have "filled T dm1 (upd_gs (upd_irq i (\<lambda>ii. ii\<lparr>itype := ty\<rparr>)) dm1)"
        using db_level_class [OF ok1 i] i
        by (intro upd_irq_filled [OF ok1]) (auto simp: db_irq_ok_def Let_def)
      moreover have "dm' = upd_gs (upd_irq i (\<lambda>ii. ii\<lparr>itype := ty\<rparr>)) dm1"
        using r False nb one Some by (simp add: add_dev_irq_def)
      ultimately show ?thesis using filled_trans [OF f(1)] by blast
    qed
  qed
qed

lemma for_each_filled:
  assumes "for_each cb xs dm = Some dm'" "db_ok_with T dm"
    and "\<And>x d d'. x \<in> set xs \<Longrightarrow> db_ok_with T d \<Longrightarrow> cb x d = Some d' \<Longrightarrow> filled T d d'"
  shows "filled T dm dm'"
  using assms(1)
proof (rule for_each_keeps [where P = "filled T dm"])
  fix x d d' assume "x \<in> set xs" "filled T dm d" "cb x d = Some d'"
  then show "filled T dm d'" using assms(3) filled_trans by (metis filled_def)
qed (rule filled_refl [OF assms(2)])

lemma build_dev_filled:
  assumes "db_ok_with T dm" "build_one_dev_entry env dd dm = Some dm'"
  shows "filled T dm dm'"
  using assms filled_refl [OF assms(1)] add_dev_filled for_each_filled
  by (cases dd) (fastforce simp: build_one_dev_entry_def Let_def split: option.splits)

lemma add_new_filled:
  assumes ok: "db_ok_with T dm" and h: "\<forall>t. hint = Some t \<longrightarrow> t \<in> T"
    and r: "add_new_irq env n hint dm = Some dm'"
  shows "filled T dm dm'"
proof (cases "get_irq_info (gs dm) n \<noteq> None")
  case True
  then show ?thesis using r filled_refl [OF ok] by (auto simp: add_new_irq_def)
next
  case False
  let ?pol = "get_irq_user_policy env dm ''/sys'' n"
  obtain i dm1 where i: "filled T dm dm1" "i \<in> set (interrupts_db (gs dm1)) \<union> set (banned_irqs (gs dm1))"
    "(if ban ?pol = 1 \<or> check_for_irq_ban env dm None n
       then (let dm = add_banned_irq n Banned dm in Some (get_irq_info (gs dm) n, dm))
       else add_one_irq_to_db env ''/sys'' n ?pol dm) = Some (Some i, dm1)"
  proof (cases "ban ?pol = 1 \<or> check_for_irq_ban env dm None n")
    case True
    then show thesis using that add_banned_filled [OF ok, of n] False by (auto simp: Let_def)
  next
    case nb: False
    then obtain res dm1 where one: "add_one_irq_to_db env ''/sys'' n ?pol dm = Some (res, dm1)"
      using r False by (auto simp: add_new_irq_def Let_def split: option.splits)
    have nc: "find_irq (gs dm) n (cl_banned_irqs dm) = None" using nb not_banned by blast
    note f = add_one_filled [OF ok user_policy_ok nc one]
    obtain i where "res = Some i" using f(3) False by auto
    with f(1) f(2) [OF this] one nb show thesis using that [of dm1 i] by simp
  qed
  have ok1: "db_ok_with T dm1" using i(1) by (simp add: filled_def)
  define g where "g = (\<lambda>ii :: irq_info. case hint of None \<Rightarrow> ii
    | Some h \<Rightarrow> ii\<lparr>itype := itype (irqs (gs dm1) h), iclass := iclass (irqs (gs dm1) h)\<rparr>)"
  have hT: "0 \<le> iclass (irqs (gs dm1) t) \<and> iclass (irqs (gs dm1) t) < 8" if "hint = Some t" for t
    using ok1 h that by (auto simp: db_ok_with_def Let_def)
  have f2: "filled T dm1 (upd_gs (upd_irq i g) dm1)"
    using hT db_level_class [OF ok1, of i]
    by (intro upd_irq_filled [OF ok1 i(2)]) (auto simp: g_def db_irq_ok_def Let_def split: option.split)
  let ?dm2 = "upd_gs (upd_irq i g) dm1"
  have ok2: "db_ok_with T ?dm2" using f2 by (simp add: filled_def)
  have eq: "(case hint of None \<Rightarrow> dm1
       | Some h \<Rightarrow> upd_gs (\<lambda>s. upd_irq i (\<lambda>ii. ii\<lparr>itype := itype (irqs s h), iclass := iclass (irqs s h)\<rparr>) s) dm1) = ?dm2"
    by (cases dm1) (auto simp: g_def upd_gs_def upd_irq_def split: option.split)
  let ?c = "iclass (irqs (gs ?dm2) i)"
  have dm': "0 \<le> ?c \<and> ?c < 8" "dm' = upd_gs (upd_irq i (\<lambda>ii. ii\<lparr>level := map_class_to_level ! nat ?c\<rparr>)) ?dm2"
    using r False i(3) unfolding add_new_irq_def Let_def by (simp_all add: eq split: if_splits)
  have i2: "i \<in> set (interrupts_db (gs ?dm2)) \<union> set (banned_irqs (gs ?dm2))" using i(2) by (simp add: upd_gs_def)
  have "filled T ?dm2 dm'"
    unfolding dm'(2) using dm'(1) level_range [of "nat ?c"] db_level_class [OF ok2, of i]
    by (intro upd_irq_filled [OF ok2 i2]) (auto simp: db_irq_ok_def Let_def)
  then show ?thesis using filled_trans [OF filled_trans [OF i(1) f2]] by blast
qed

section \<open>It always finishes\<close>

text \<open>Class files hold no number that is negative as an \<open>int\<close>.\<close>

definition classes_ok :: "irq_env \<Rightarrow> bool" where
  "classes_ok env \<longleftrightarrow> (\<forall>path l v. class_file env path = Some l \<longrightarrow> scan_hex l = Some (Some v) \<longrightarrow> 0 \<le> v)"

lemma class_and_level_total: "0 \<le> v \<Longrightarrow> \<exists>r. class_and_level pol v = Some r"
  by (auto simp: class_and_level_def Let_def not_less)

lemma add_one_total:
  assumes "classes_ok env"
  shows "\<exists>r. add_one_irq_to_db env path n pol dm = Some r"
proof -
  have "\<exists>cl. class_of_device (class_file env path) pol = Some cl"
    using assms class_and_level_total [of _ pol]
    by (auto simp: class_of_device_def classes_ok_def split: option.split)
  then show ?thesis by (auto simp: add_one_irq_to_db_def split: prod.split)
qed

lemma add_dev_total:
  assumes "classes_ok env"
  shows "\<exists>dm'. add_dev_irq env path bpath ty n dm = Some dm'"
proof -
  obtain res d where "add_one_irq_to_db env path n (get_irq_user_policy env dm path n) dm = Some (res, d)"
    using add_one_total [OF assms] by fastforce
  then show ?thesis by (auto simp: add_dev_irq_def Let_def split: option.split)
qed

lemma build_dev_total:
  assumes "classes_ok env"
  shows "\<exists>dm'. build_one_dev_entry env dd dm = Some dm'"
proof -
  have "\<exists>dm'. for_each (\<lambda>name. add_dev_irq env p p IRQ_TYPE_MSIX (strtol_int name)) names dm = Some dm'"
    for p names
    using for_each_total [where P = "\<lambda>_ _. True" and cb = "\<lambda>name. add_dev_irq env p p IRQ_TYPE_MSIX (strtol_int name)"]
      add_dev_total [OF assms] by blast
  then show ?thesis using add_dev_total [OF assms]
    by (cases dd) (auto simp: build_one_dev_entry_def Let_def split: option.split)
qed

lemma add_new_total:
  assumes ok: "db_ok_with T dm" and h: "\<forall>t. hint = Some t \<longrightarrow> t \<in> T" and c: "classes_ok env"
  shows "\<exists>dm'. add_new_irq env n hint dm = Some dm'"
proof (cases "get_irq_info (gs dm) n = None")
  case True
  let ?pol = "get_irq_user_policy env dm ''/sys'' n"
  let ?res = "if ban ?pol = 1 \<or> check_for_irq_ban env dm None n
       then (let dm = add_banned_irq n Banned dm in Some (get_irq_info (gs dm) n, dm))
       else add_one_irq_to_db env ''/sys'' n ?pol dm"
  have set_class: "0 \<le> iclass (irqs (gs (case hint of None \<Rightarrow> d
       | Some t \<Rightarrow> upd_gs (\<lambda>s. upd_irq i (\<lambda>ii. ii\<lparr>itype := itype (irqs s t), iclass := iclass (irqs s t)\<rparr>) s) d)) i) \<and>
     iclass (irqs (gs (case hint of None \<Rightarrow> d
       | Some t \<Rightarrow> upd_gs (\<lambda>s. upd_irq i (\<lambda>ii. ii\<lparr>itype := itype (irqs s t), iclass := iclass (irqs s t)\<rparr>) s) d)) i) < 8"
    if "filled T dm d" "0 \<le> iclass (irqs (gs d) i) \<and> iclass (irqs (gs d) i) < 8" for d i
    using that h by (auto simp: filled_def db_ok_with_def Let_def upd_gs_def split: option.split)
  have "\<exists>res d. ?res = Some (res, d) \<and> (\<forall>i. res = Some i \<longrightarrow> filled T dm d
      \<and> 0 \<le> iclass (irqs (gs d) i) \<and> iclass (irqs (gs d) i) < 8)"
  proof (cases "ban ?pol = 1 \<or> check_for_irq_ban env dm None n")
    case True
    then show ?thesis using add_banned_filled [OF ok \<open>get_irq_info (gs dm) n = None\<close>] by (simp add: Let_def)
  next
    case False
    obtain res d where one: "add_one_irq_to_db env ''/sys'' n ?pol dm = Some (res, d)"
      using add_one_total [OF c] by fastforce
    have nc: "find_irq (gs dm) n (cl_banned_irqs dm) = None" using False not_banned by blast
    note f = add_one_filled [OF ok user_policy_ok nc one]
    have "db_irq_ok d i" if "res = Some i" for i
      using f(1) f(2) [OF that] db_level_class by (auto simp: filled_def)
    with False one f(1) show ?thesis by (auto simp: db_irq_ok_def Let_def)
  qed
  then obtain res d where rd: "?res = Some (res, d)" "\<forall>i. res = Some i \<longrightarrow> filled T dm d
      \<and> 0 \<le> iclass (irqs (gs d) i) \<and> iclass (irqs (gs d) i) < 8" by blast
  show ?thesis
  proof (cases res)
    case None
    then show ?thesis using True unfolding add_new_irq_def Let_def [of "get_irq_user_policy env dm ''/sys'' n"]
      Let_def [of ?res] rd(1) by simp
  next
    case (Some i)
    then show ?thesis
      using True rd(2) set_class [of d i] unfolding add_new_irq_def Let_def [of "get_irq_user_policy env dm ''/sys'' n"]
        Let_def [of ?res] rd(1) by (simp add: Let_def not_less not_le)
  qed
qed (auto simp: add_new_irq_def)

section \<open>Emptying the data base\<close>

lemma free_irqs_gs:
  "gs (free_irqs is dm) = (gs dm)\<lparr>irqs := \<lambda>i. if i \<in> set is then zero_irq else irqs (gs dm) i\<rparr>
    \<and> next_irq (free_irqs is dm) = next_irq dm \<and> cl_banned_irqs (free_irqs is dm) = cl_banned_irqs dm
    \<and> next_obj (free_irqs is dm) = next_obj dm"
proof (induction "is" arbitrary: dm)
  case (Cons i js)
  from Cons [of "upd_gs (upd_irq i (\<lambda>_. zero_irq)) dm"] show ?case
    by (auto simp: free_irqs_def upd_gs_def upd_irq_def fun_eq_iff)
qed (simp add: free_irqs_def)

lemma free_irq_loop: "for_each free_irq is dm = Some (free_irqs is dm)"
  using for_each_pure [of "\<lambda>i. upd_gs (upd_irq i (\<lambda>_. zero_irq))" "is" dm]
  by (simp add: free_irqs_def free_irq_def [abs_def])

definition db_emptied :: "daemon \<Rightarrow> daemon \<Rightarrow> bool" where
  "db_emptied dm dm' \<longleftrightarrow> interrupts_db (gs dm') = [] \<and> banned_irqs (gs dm') = [] \<and> rebalance_irq_list (gs dm') = []
    \<and> objs (gs dm') = objs (gs dm) \<and> numa_nodes (gs dm') = numa_nodes (gs dm)
    \<and> load_order (gs dm') = load_order (gs dm) \<and> numa_avail (gs dm') = numa_avail (gs dm)
    \<and> cl_banned_irqs dm' = cl_banned_irqs dm \<and> next_irq dm' = next_irq dm \<and> next_obj dm' = next_obj dm
    \<and> (\<forall>r \<in> set (cl_banned_irqs dm). irqs (gs dm') r = irqs (gs dm) r) \<and> db_ok dm'"

definition bans_apart :: "daemon \<Rightarrow> bool" where
  "bans_apart dm \<longleftrightarrow> (\<forall>r \<in> set (cl_banned_irqs dm).
     r \<notin> set (interrupts_db (gs dm)) \<union> set (banned_irqs (gs dm)) \<and> r < next_irq dm)"

lemma db_ok_bans_apart: "db_ok dm \<Longrightarrow> bans_apart dm"
  by (auto simp: bans_apart_def db_ok_def db_ok_with_def Let_def)

lemma free_irq_db_empties:
  assumes "bans_apart dm"
  shows "\<exists>dm'. free_irq_db dm = Some dm' \<and> db_emptied dm dm'"
proof -
  let ?d1 = "upd_gs (\<lambda>s. s\<lparr>interrupts_db := []\<rparr>) (free_irqs (interrupts_db (gs dm)) dm)"
  let ?d2 = "upd_gs (\<lambda>s. s\<lparr>banned_irqs := []\<rparr>) (free_irqs (banned_irqs (gs dm)) ?d1)"
  let ?d3 = "upd_gs (\<lambda>s. s\<lparr>rebalance_irq_list := []\<rparr>) ?d2"
  have "interrupts_db (gs ?d1) = []" "banned_irqs (gs ?d1) = banned_irqs (gs dm)"
    by (simp_all add: upd_gs_def free_irqs_gs)
  then have "free_irq_db dm = Some ?d3"
    unfolding free_irq_db_def for_each_irq_def Let_def
    by (cases "banned_irqs (gs dm)") (simp_all add: free_irq_loop free_irqs_def)
  moreover have "\<forall>r \<in> set (cl_banned_irqs dm). r \<notin> set (interrupts_db (gs dm)) \<union> set (banned_irqs (gs dm)) \<and> r < next_irq dm"
    using assms by (simp add: bans_apart_def)
  then have "db_emptied dm ?d3"
    by (auto simp: db_emptied_def upd_gs_def free_irqs_gs db_ok_def db_ok_with_def Let_def load_order_def)
  ultimately show ?thesis by blast
qed

section \<open>Collecting the list of \<open>/proc/interrupts\<close>\<close>

lemma tokens_nil: "tokens acc s = [] \<longleftrightarrow> acc = [] \<and> (\<forall>c \<in> set s. c = CHR '' '')"
  by (induction acc s rule: tokens.induct) auto

lemma irq_name_total:
  assumes "has_irq_number line" "length line < 1024"
  shows "irq_name line \<noteq> None"
proof -
  let ?c = "hd (dropWhile isblank line)"
  have "dropWhile isblank line \<noteq> []" "isdigit ?c" using assms(1) by (auto simp: has_irq_number_def Let_def)
  then have "?c \<in> set line" "?c \<noteq> CHR '' ''"
    using set_dropWhileD [of ?c isblank line] hd_in_set by (fastforce, auto simp: isdigit_def)
  then have "tokens [] line \<noteq> []" unfolding tokens_nil by blast
  with assms(2) show ?thesis by (simp add: irq_name_def Let_def)
qed

lemma alloc_with:
  assumes ok: "db_ok_with T dm" and c: "0 \<le> iclass ii" "iclass ii < 8"
    and a: "alloc_irq ii dm = (r, dm')"
  shows "db_ok_with (insert r T) dm'" "same_rest dm dm'" "r \<notin> T" "rebalance_irq_list (gs dm') = rebalance_irq_list (gs dm)"
    "interrupts_db (gs dm') = interrupts_db (gs dm)" "banned_irqs (gs dm') = banned_irqs (gs dm)"
proof -
  let ?s = "gs dm"
  have r: "r = next_irq dm" "dm' = dm\<lparr>gs := upd_irq r (\<lambda>_. ii) ?s, next_irq := Suc r\<rparr>"
    using a by (auto simp: alloc_irq_def)
  have fresh: "k \<noteq> r" if "k \<in> set (interrupts_db ?s) \<union> set (banned_irqs ?s) \<union> set (cl_banned_irqs dm) \<union> T" for k
    using ok that r(1) by (auto simp: db_ok_with_def Let_def)
  have fi: "find_irq (gs dm') m l = find_irq ?s m l" if "r \<notin> set l" for m l
    using that unfolding find_irq_def r(2) by (intro find_cong) auto
  have "r \<notin> set (cl_banned_irqs dm)" using fresh by blast
  note fc = fi [OF this, unfolded r(2), simplified]
  have "db_irq_ok dm' k" if "db_irq_ok dm k" "k \<in> set (interrupts_db ?s)" for k
    using that fresh [of k] by (auto simp: db_irq_ok_def Let_def r(2) fc)
  then show "db_ok_with (insert r T) dm'"
    using ok fresh c unfolding db_ok_with_def Let_def
    by (auto simp: inj_on_def less_Suc_eq r)
  show "r \<notin> T" using fresh by blast
  show "same_rest dm dm'" using r(1) by (auto simp: same_rest_def load_order_def r(2))
  show "rebalance_irq_list (gs dm') = rebalance_irq_list (gs dm)"
    "interrupts_db (gs dm') = interrupts_db (gs dm)" "banned_irqs (gs dm') = banned_irqs (gs dm)"
    by (simp_all add: r(2))
qed

definition collected :: "daemon \<Rightarrow> irq_list_state \<Rightarrow> bool" where
  "collected dm0 st \<longleftrightarrow> (\<exists>tmp dm. st = Some (tmp, dm) \<and> db_ok_with (set tmp) dm \<and> same_rest dm0 dm
    \<and> interrupts_db (gs dm) = interrupts_db (gs dm0) \<and> banned_irqs (gs dm) = banned_irqs (gs dm0))"

lemma collect_line_step:
  assumes "collected dm0 st" "length line < 1024"
  shows "\<exists>go buf st'. collect_line line st = (go, buf, st') \<and> collected dm0 st' \<and> length buf < 1024"
proof -
  obtain tmp dm where st: "st = Some (tmp, dm)" and ok: "db_ok_with (set tmp) dm" "same_rest dm0 dm"
    "interrupts_db (gs dm) = interrupts_db (gs dm0)" "banned_irqs (gs dm) = banned_irqs (gs dm0)"
    using assms(1) by (auto simp: collected_def)
  show ?thesis
  proof (cases "has_irq_number line \<and> CHR '':'' \<in> set line")
    case False
    then have "\<exists>go. collect_line line st = (go, line, st)" by (auto simp: collect_line_def st)
    with assms show ?thesis by blast
  next
    case True
    then obtain name where name: "irq_name line = Some name" using irq_name_total assms(2) by blast
    define ii where "ii = zero_irq\<lparr>irq := int_of_ulong (fst (strtoull (takeWhile (\<lambda>x. x \<noteq> CHR '':'') line))),
        itype := (if strstr name ''xen-dyn-event'' then IRQ_TYPE_VIRT_EVENT else IRQ_TYPE_LEGACY),
        iclass := (if strstr name ''xen-dyn-event'' then IRQ_VIRT_EVENT else IRQ_OTHER),
        hint_policy := global_hint_policy dm\<rparr>"
    obtain r dm1 where a: "alloc_irq ii dm = (r, dm1)" by fastforce
    have "0 \<le> iclass ii" "iclass ii < 8" by (simp_all add: ii_def irq_classes)
    note al = alloc_with [OF ok(1) this a]
    have "collect_line line st = (True, takeWhile (\<lambda>x. x \<noteq> CHR '':'') line, Some (tmp @ [r], dm1))"
      using True name a by (simp add: collect_line_def st Let_def ii_def)
    moreover have "collected dm0 (Some (tmp @ [r], dm1))"
      using al ok same_rest_trans [OF ok(2) al(2)] by (auto simp: collected_def)
    moreover have "length (takeWhile (\<lambda>x. x \<noteq> CHR '':'') line) < 1024"
      using assms(2) length_takeWhile_le le_less_trans by blast
    ultimately show ?thesis by blast
  qed
qed

lemma collect_loop:
  assumes "collected dm0 st" "\<forall>l \<in> set ls. length l < 1024" "length buf < 1024"
  shows "collected dm0 (file_loop collect_line ls buf st)"
  using assms
proof (induction ls arbitrary: buf st)
  case Nil
  then show ?case using collect_line_step [OF Nil(1,3)] by auto
next
  case (Cons l ls)
  obtain go b st' where "collect_line l st = (go, b, st')" "collected dm0 st'" "length b < 1024"
    using collect_line_step [OF Cons.prems(1), of l] Cons.prems(2) by auto
  with Cons.IH [of st' b] Cons.prems(2) show ?case by auto
qed

definition lines_ok :: "string list option \<Rightarrow> bool" where
  "lines_ok f \<longleftrightarrow> (\<forall>ls. f = Some ls \<longrightarrow> (\<forall>l \<in> set ls. length l < 1024))"

lemma collect_all:
  assumes "db_ok dm" "lines_ok f"
  shows "collected dm (collect_full_irq_list f dm)"
proof -
  have "collected dm (Some ([], dm))"
    using assms(1) by (simp add: collected_def db_ok_def same_rest_refl)
  with collect_loop [OF this] assms(2) show ?thesis
    by (auto simp: collect_full_irq_list_def skip_header_def lines_ok_def split: option.split list.split)
qed

section \<open>The whole data base\<close>

definition rebuilt :: "daemon \<Rightarrow> daemon \<Rightarrow> bool" where
  "rebuilt dm dm' \<longleftrightarrow> db_ok dm' \<and> objs (gs dm') = objs (gs dm) \<and> rebalance_irq_list (gs dm') = []
    \<and> load_order (gs dm') = load_order (gs dm) \<and> numa_nodes (gs dm') = numa_nodes (gs dm)
    \<and> numa_avail (gs dm') = numa_avail (gs dm) \<and> cl_banned_irqs dm' = cl_banned_irqs dm
    \<and> next_obj dm' = next_obj dm"

lemma add_missing_step:
  assumes "db_ok_with T dm" "i \<in> T" "classes_ok env"
  shows "\<exists>dm'. add_missing_irq env i dm = Some dm' \<and> filled T dm dm'"
proof (cases "get_irq_info (gs dm) (irq (irqs (gs dm) i)) = None")
  case True
  have h: "\<forall>t. Some i = Some t \<longrightarrow> t \<in> T" using assms(2) by simp
  obtain dm' where "add_new_irq env (irq (irqs (gs dm) i)) (Some i) dm = Some dm'"
    using add_new_total [OF assms(1) h assms(3)] by blast
  with add_new_filled [OF assms(1) h this] True show ?thesis by (simp add: add_missing_irq_def)
next
  case False
  then show ?thesis using filled_refl [OF assms(1)] by (auto simp: add_missing_irq_def Let_def)
qed

lemma for_each_filled_total:
  assumes "db_ok_with T dm" "\<And>x d. x \<in> set xs \<Longrightarrow> db_ok_with T d \<Longrightarrow> \<exists>d'. cb x d = Some d' \<and> filled T d d'"
  shows "\<exists>dm'. for_each cb xs dm = Some dm' \<and> filled T dm dm'"
proof -
  have "\<exists>dm'. for_each cb xs dm = Some dm' \<and> filled T dm dm' \<and> set [] \<subseteq> set xs"
    by (rule for_each_total [where P = "\<lambda>ys d. filled T dm d \<and> set ys \<subseteq> set xs"])
      (use assms filled_refl filled_trans in \<open>auto simp: filled_def, metis filled_def filled_trans\<close>)
  then show ?thesis by blast
qed

lemma drop_collected:
  assumes ok: "db_ok_with (set tmp) dm"
  shows "db_ok (free_irqs tmp dm)"
proof -
  let ?s = "gs dm" and ?dm = "free_irqs tmp dm"
  have disj: "set tmp \<inter> (set (interrupts_db ?s) \<union> set (banned_irqs ?s) \<union> set (cl_banned_irqs dm)) = {}"
    using ok by (auto simp: db_ok_with_def Let_def)
  then have irqs: "irqs (gs ?dm) r = irqs ?s r"
    if "r \<in> set (interrupts_db ?s) \<union> set (banned_irqs ?s) \<union> set (cl_banned_irqs dm)" for r
    using that by (auto simp: free_irqs_gs)
  have lists: "interrupts_db (gs ?dm) = interrupts_db ?s" "banned_irqs (gs ?dm) = banned_irqs ?s"
    "cl_banned_irqs ?dm = cl_banned_irqs dm" "next_irq ?dm = next_irq dm" "numa_avail (gs ?dm) = numa_avail ?s"
    by (simp_all add: free_irqs_gs)
  have fi: "find_irq (gs ?dm) m (cl_banned_irqs dm) = find_irq ?s m (cl_banned_irqs dm)" for m
    unfolding find_irq_def using irqs by (intro find_cong) auto
  have "db_irq_ok ?dm r" if "r \<in> set (interrupts_db ?s)" for r
    using ok that irqs [of r] unfolding db_ok_with_def Let_def db_irq_ok_def lists fi by auto
  moreover have "inj_on (\<lambda>r. irq (irqs (gs ?dm) r)) (set (interrupts_db ?s @ banned_irqs ?s))"
  proof -
    have "inj_on (\<lambda>r. irq (irqs ?s r)) (set (interrupts_db ?s @ banned_irqs ?s))"
      using ok by (simp add: db_ok_with_def Let_def)
    then show ?thesis using irqs by (auto simp: inj_on_def)
  qed
  ultimately show ?thesis
    using ok unfolding db_ok_def db_ok_with_def Let_def lists by auto
qed

lemma load_order_irqs: "load_order (s\<lparr>irqs := f\<rparr>) = load_order s"
  by (simp add: load_order_def)

lemma rebuild_irq_db_rebuilt:
  assumes ok: "bans_apart dm" and c: "classes_ok env" and l: "lines_ok f"
  shows "\<exists>dm'. rebuild_irq_db env f dev dm = Some dm' \<and> rebuilt dm dm'"
proof -
  obtain d1 where d1: "free_irq_db dm = Some d1" "db_emptied dm d1"
    using free_irq_db_empties [OF ok] by blast
  have "db_ok d1" using d1(2) by (simp add: db_emptied_def)
  from collect_all [OF this l] obtain tmp d2 where d2: "collect_full_irq_list f d1 = Some (tmp, d2)"
    "db_ok_with (set tmp) d2" "same_rest d1 d2" "interrupts_db (gs d2) = []" "banned_irqs (gs d2) = []"
    using d1(2) by (auto simp: collected_def db_emptied_def)
  obtain d3 where d3: "(case dev of None \<Rightarrow> Some d2 | Some es \<Rightarrow> do {
        dm \<leftarrow> for_each (build_one_dev_entry env) es d2;
        for_each_irq (gs dm) tmp (add_missing_irq env) dm }) = Some d3" "filled (set tmp) d2 d3"
  proof (cases dev)
    case None
    then show thesis using that filled_refl [OF d2(2)] by simp
  next
    case (Some es)
    obtain e1 where e1: "for_each (build_one_dev_entry env) es d2 = Some e1" "filled (set tmp) d2 e1"
      using for_each_filled_total [OF d2(2), of es "build_one_dev_entry env"] build_dev_total [OF c] build_dev_filled
      by blast
    have ok1: "db_ok_with (set tmp) e1" using e1(2) by (simp add: filled_def)
    obtain e2 where e2: "for_each_irq (gs e1) tmp (add_missing_irq env) e1 = Some e2" "filled (set tmp) e1 e2"
    proof (cases "tmp = []")
      case True
      have "\<exists>e2. for_each (add_missing_irq env) (interrupts_db (gs e1)) e1 = Some e2 \<and> e2 = e1 \<and> set [] \<subseteq> set (interrupts_db (gs e1))"
        by (rule for_each_total [where P = "\<lambda>ys d. d = e1 \<and> set ys \<subseteq> set (interrupts_db (gs e1))"])
          (auto simp: add_missing_irq_def Let_def get_irq_info_None)
      then show thesis using that filled_refl [OF ok1] True by (auto simp: for_each_irq_def)
    next
      case False
      then show thesis
        using that for_each_filled_total [OF ok1, of tmp "add_missing_irq env"] add_missing_step [OF _ _ c]
        by (auto simp: for_each_irq_def)
    qed
    with e1 Some show thesis using that filled_trans by auto
  qed
  have "rebuild_irq_db env f dev dm = Some (free_irqs tmp d3)"
    unfolding rebuild_irq_db_def by (simp only: d1(1) d2(1) d3(1) bind.bind_lunit split)
  moreover have "rebuilt dm (free_irqs tmp d3)"
    using d1(2) d2(3) d3(2) drop_collected [of tmp d3]
    unfolding rebuilt_def filled_def same_rest_def db_emptied_def
    by (simp add: free_irqs_gs load_order_irqs)
  ultimately show ?thesis by blast
qed

section \<open>The lists of banned interrupts as sets of numbers\<close>

locale number_set =
  fixes ok :: "'s \<Rightarrow> bool" and nums :: "'s \<Rightarrow> int set" and add :: "int \<Rightarrow> 's \<Rightarrow> 's"
  assumes add_ok: "ok s \<Longrightarrow> ok (add n s)" and add_nums: "ok s \<Longrightarrow> nums (add n s) = insert n (nums s)"
begin

lemma add_all: "ok s \<Longrightarrow> ok (fold add ns s) \<and> nums (fold add ns s) = set ns \<union> nums s"
  by (induction ns arbitrary: s) (auto simp: add_ok add_nums)

end

definition ban_nums :: "ban_list \<Rightarrow> daemon \<Rightarrow> int set" where
  "ban_nums l dm = (\<lambda>r. irq (irqs (gs dm) r)) ` set (get_bans l dm)"

definition bans_ok :: "ban_list \<Rightarrow> daemon \<Rightarrow> bool" where
  "bans_ok l dm \<longleftrightarrow> distinct (map (\<lambda>r. irq (irqs (gs dm) r)) (get_bans l dm))
    \<and> (\<forall>r \<in> set (get_bans l dm). r < next_irq dm)"

lemma find_bans: "find_irq (gs dm) n (get_bans l dm) = None \<longleftrightarrow> n \<notin> ban_nums l dm"
  by (auto simp: find_irq_None ban_nums_def)

lemma add_banned_irq_set:
  assumes "bans_ok l dm"
  shows "bans_ok l (add_banned_irq n l dm) \<and> ban_nums l (add_banned_irq n l dm) = insert n (ban_nums l dm)"
proof (cases "find_irq (gs dm) n (get_bans l dm)")
  case (Some r)
  then have "n \<in> ban_nums l dm" using find_bans [of dm n l] by auto
  with Some assms show ?thesis by (auto simp: add_banned_irq_def)
next
  case None
  let ?dm = "add_banned_irq n l dm" and ?r = "next_irq dm"
  have n: "n \<notin> ban_nums l dm" using None find_bans by blast
  have fresh: "\<forall>r \<in> set (get_bans l dm). r \<noteq> ?r" using assms by (auto simp: bans_ok_def)
  have list: "get_bans l ?dm = get_bans l dm @ [?r]" "next_irq ?dm = Suc ?r"
    using None by (cases l; simp add: add_banned_irq_def alloc_irq_def upd_gs_def)+
  have irqs: "irq (irqs (gs ?dm) ?r) = n" "r \<noteq> ?r \<Longrightarrow> irqs (gs ?dm) r = irqs (gs dm) r" for r
    using None by (cases l; simp add: add_banned_irq_def alloc_irq_def upd_gs_def)+
  have same: "map (\<lambda>r. irq (irqs (gs ?dm) r)) (get_bans l dm) = map (\<lambda>r. irq (irqs (gs dm) r)) (get_bans l dm)"
    using fresh irqs(2) by simp
  have "ban_nums l ?dm = insert n (ban_nums l dm)"
    using arg_cong [OF same, of set] irqs(1) by (simp add: ban_nums_def list)
  moreover have "distinct (map (\<lambda>r. irq (irqs (gs ?dm) r)) (get_bans l ?dm))"
    unfolding list map_append same using assms n irqs(1) by (simp add: bans_ok_def ban_nums_def)
  moreover have "\<forall>r \<in> set (get_bans l ?dm). r < next_irq ?dm"
    using assms by (auto simp: list bans_ok_def less_Suc_eq)
  ultimately show ?thesis by (simp add: bans_ok_def)
qed

interpretation cl_bans: number_set "bans_ok ClBanned" "ban_nums ClBanned" add_cl_banned_irq
  by unfold_locales (simp_all add: add_banned_irq_set add_cl_banned_irq_def)

interpretation irq_bans: number_set "bans_ok Banned" "ban_nums Banned" "\<lambda>n. add_banned_irq n Banned"
  by unfold_locales (simp_all add: add_banned_irq_set)

section \<open>Properties\<close>


text \<open>A machine with one device and a policy script.\<close>

definition sample_env :: irq_env where
  "sample_env = \<lparr>class_file = (\<lambda>_. Some ''0x020000''), numa_node_file = (\<lambda>_. None), local_cpus = (\<lambda>_. None),
     affinity_hint_file = (\<lambda>_. None), polscript = Some (\<lambda>_ _. Some ''balance_level=none''), banscript = None,
     irqnum_stack = 0\<rparr>"

lemma sample_env_ok: "classes_ok sample_env"
  by (simp add: classes_ok_def sample_env_def scan_hex_def isspace_def isxdigit_def isdigit_def unhex_def Let_def)

lemma sample_db_ok: "db_ok (sample_daemon (sample_state\<lparr>interrupts_db := []\<rparr>))"
  by (simp add: db_ok_def db_ok_with_def sample_daemon_def sample_state_def)


text \<open>
  C36: Banning interrupts on the command line gives a list with exactly these numbers, each once,
  and check_for_irq_ban then refuses each of them, whatever the path and the ban script.
\<close>

theorem cl_bans_exact:
  assumes "bans_ok ClBanned dm"
  shows "ban_nums ClBanned (fold add_cl_banned_irq ns dm) = set ns \<union> ban_nums ClBanned dm
    \<and> bans_ok ClBanned (fold add_cl_banned_irq ns dm)
    \<and> (\<forall>n \<in> set ns. check_for_irq_ban env (fold add_cl_banned_irq ns dm) path n)"
proof -
  note all = cl_bans.add_all [OF assms, of ns]
  have "check_for_irq_ban env (fold add_cl_banned_irq ns dm) path n" if "n \<in> set ns" for n
    using all that find_bans [of "fold add_cl_banned_irq ns dm" n ClBanned] by (simp add: check_for_irq_ban_def)
  with all show ?thesis by blast
qed

theorem cl_bans_exact_witness:
  "ban_nums ClBanned (fold add_cl_banned_irq [5, 7, 5] (sample_daemon sample_state)) = {5, 7}"
proof -
  have "bans_ok ClBanned (sample_daemon sample_state)" "ban_nums ClBanned (sample_daemon sample_state) = {}"
    by (simp_all add: bans_ok_def ban_nums_def sample_daemon_def)
  with cl_bans_exact [of "sample_daemon sample_state" "[5, 7, 5]"] show ?thesis by auto
qed



end
