(* ===== verification/Irqbalance.thy ===== *)
theory Irqbalance
  imports Placement Activate Tree_Laws Classify
begin

text \<open>
  irqbalance.c: the command line, building and freeing the whole state, the start of the program
  and its main loop.

  \<open>machine\<close> is what one look at sysfs and procfs finds. \<open>cycle_input\<close> gives, for one pass of the
  main loop, the signals that arrive while it sleeps and the machine at each of its looks. Signals
  only arrive while the program sleeps. A result \<open>None\<close> is a fault of one of the steps.
\<close>

definition SLEEP_INTERVAL :: int where "SLEEP_INTERVAL = 10"

text \<open>The \<open>while\<close> of \<open>sleep_approx\<close>, on seconds and nanoseconds.\<close>

function borrow_seconds :: "int \<Rightarrow> int \<Rightarrow> int \<times> int" where
  "borrow_seconds sec nsec =
    (if nsec < 0 then borrow_seconds (sec - 1) (nsec + 1000000000) else (sec, nsec))"
  by pat_completeness auto

termination
  by (relation "measure (\<lambda>(_, nsec). nat (- nsec))") auto

declare borrow_seconds.simps [simp del]

definition sleep_approx :: "int \<Rightarrow> int \<Rightarrow> int \<times> int" where
  "sleep_approx seconds tv_usec = borrow_seconds seconds (- tv_usec * 1000)"

section \<open>The command line\<close>

text \<open>What \<open>getopt_long\<close> delivers; \<open>Unknown\<close> is its \<open>'?'\<close>.\<close>

datatype option_arg =
    Unknown
  | Banscript string | Deepestcache string | Debug | Foreground | Hintpolicy string
  | Banirq string | Policyscript string | Powerthresh string | Oneshot | Pid string

record settings =
  daemon_state :: daemon
  debug_mode :: bool
  foreground_mode :: bool
  pidfile :: "string option"
  banscript_path :: "string option"
  polscript_path :: "string option"

definition upd_daemon :: "(daemon \<Rightarrow> daemon) \<Rightarrow> settings \<Rightarrow> settings" where
  "upd_daemon f st = st\<lparr>daemon_state := f (daemon_state st)\<rparr>"

text \<open>\<open>!strncmp(arg, word, strlen(arg))\<close>: any beginning of the word will do.\<close>

definition begins :: "string \<Rightarrow> string \<Rightarrow> bool" where
  "begins arg word \<longleftrightarrow> take (length arg) word = arg"

definition hint_policy_of :: "string \<Rightarrow> hint_policy option" where
  "hint_policy_of arg =
    (if begins arg ''exact'' then Some HINT_POLICY_EXACT
     else if begins arg ''subset'' then Some HINT_POLICY_SUBSET
     else if begins arg ''ignore'' then Some HINT_POLICY_IGNORE
     else None)"

text \<open>One turn of the \<open>switch\<close>; \<open>Inl\<close> is the argument of \<open>exit\<close>.\<close>

fun parse_option :: "bool \<Rightarrow> option_arg \<Rightarrow> settings \<Rightarrow> int + settings" where
  "parse_option incl Unknown st = Inl 1"
| "parse_option incl (Banscript a) st = (if \<not> incl then Inl 1 else Inr (st\<lparr>banscript_path := Some a\<rparr>))"
| "parse_option incl (Deepestcache a) st =
    (let v = fst (strtoull a) in
     if v = ULONG_MAX \<or> v < 1 then Inl 1
     else Inr (upd_daemon (\<lambda>dm. dm\<lparr>deepest_cache := v\<rparr>) st))"
| "parse_option incl Debug st = Inr (st\<lparr>debug_mode := True, foreground_mode := True\<rparr>)"
| "parse_option incl Foreground st = Inr (st\<lparr>foreground_mode := True\<rparr>)"
| "parse_option incl (Hintpolicy a) st =
    (case hint_policy_of a of
       None \<Rightarrow> Inl 1
     | Some hp \<Rightarrow> Inr (upd_daemon (\<lambda>dm. dm\<lparr>global_hint_policy := hp\<rparr>) st))"
| "parse_option incl (Banirq a) st =
    (let v = fst (strtoull a) in
     if v = ULONG_MAX then Inl 1
     else Inr (upd_daemon (add_cl_banned_irq (int_of_ulong v)) st))"
| "parse_option incl (Policyscript a) st = Inr (st\<lparr>polscript_path := Some a\<rparr>)"
| "parse_option incl (Powerthresh a) st =
    (if begins a ''off'' then Inr (upd_daemon (upd_gs (\<lambda>s. s\<lparr>power_thresh := ULONG_MAX\<rparr>)) st)
     else
       let v = fst (strtoull a) in
       if v = ULONG_MAX then Inl 1
       else Inr (upd_daemon (upd_gs (\<lambda>s. s\<lparr>power_thresh := v\<rparr>)) st))"
| "parse_option incl Oneshot st = Inr (upd_daemon (\<lambda>dm. dm\<lparr>one_shot_mode := True\<rparr>) st)"
| "parse_option incl (Pid a) st = Inr (st\<lparr>pidfile := Some a\<rparr>)"

fun parse_command_line :: "bool \<Rightarrow> option_arg list \<Rightarrow> settings \<Rightarrow> int + settings" where
  "parse_command_line incl [] st = Inr st"
| "parse_command_line incl (a # as) st =
    (case parse_option incl a st of Inl rc \<Rightarrow> Inl rc | Inr st \<Rightarrow> parse_command_line incl as st)"

section \<open>Building and freeing the state\<close>

record machine =
  sys_nodes :: "node_entry list option"
  sys_cpus :: "(string \<times> cpu_dir) list option"
  sys_pci :: "(string \<times> dev_dir) list option"
  interrupts_file :: "string list option"
  stat_file :: "string list option"
  irq_files :: irq_env

definition build_object_tree :: "machine \<Rightarrow> daemon \<Rightarrow> daemon option" where
  "build_object_tree m dm = do {
     dm \<leftarrow> parse_cpu_tree (sys_cpus m) (build_numa_node_list (sys_nodes m) dm);
     rebuild_irq_db (irq_files m) (interrupts_file m) (sys_pci m) dm
   }"

definition free_object_tree :: "daemon \<Rightarrow> daemon option" where
  "free_object_tree dm = free_irq_db (clear_cpu_tree (free_numa_node_list dm))"

definition force_rebalance_irq :: "iref \<Rightarrow> gstate \<Rightarrow> gstate option" where
  "force_rebalance_irq i s =
    (if level (irqs s i) = BALANCE_NONE then Some s
     else
       let s = (case assigned_obj (irqs s i) of
             None \<Rightarrow> s\<lparr>rebalance_irq_list := rebalance_irq_list s @ [i]\<rparr>
           | Some d \<Rightarrow> migrate_irq (ObjInts d) Rebalance i s)
       in Some (set_assigned None i s))"

definition force_rebalance :: "daemon \<Rightarrow> daemon option" where
  "force_rebalance dm =
    map_option (\<lambda>s. dm\<lparr>gs := s\<rparr>) (for_each_irq (gs dm) [] force_rebalance_irq (gs dm))"

section \<open>Signals\<close>

datatype signal = SIGINT | SIGHUP

definition handler :: "daemon \<Rightarrow> daemon" where
  "handler dm = dm\<lparr>keep_going := False\<rparr>"

definition force_rescan :: "daemon \<Rightarrow> daemon" where
  "force_rescan dm = (if cycle_count (gs dm) \<noteq> 0 then dm\<lparr>need_rescan := True\<rparr> else dm)"

fun deliver :: "signal \<Rightarrow> daemon \<Rightarrow> daemon" where
  "deliver SIGINT dm = handler dm"
| "deliver SIGHUP dm = force_rescan dm"

section \<open>The main loop\<close>

definition read_stats :: "machine \<Rightarrow> daemon \<Rightarrow> daemon option" where
  "read_stats m dm =
    (let dm = parse_proc_interrupts (interrupts_file m) dm
     in map_option (\<lambda>s. dm\<lparr>gs := s\<rparr>) (parse_proc_stat (HZ dm) (stat_file m) (gs dm)))"

definition clear_stats :: "daemon \<Rightarrow> daemon option" where
  "clear_stats dm = map_option (\<lambda>s. dm\<lparr>gs := s\<rparr>) (clear_work_stats (gs dm))"

record cycle_input =
  signals :: "signal list"
  now :: machine
  rescan_now :: machine
  rescan_signals :: "signal list"
  rescan_later :: machine
  affinity :: proc_irq

definition rescan :: "cycle_input \<Rightarrow> daemon \<Rightarrow> daemon option" where
  "rescan inp dm = do {
     let dm = upd_gs (\<lambda>s. s\<lparr>cycle_count := 0\<rparr>) (dm\<lparr>need_rescan := False\<rparr>);
     dm \<leftarrow> clear_stats dm;
     dm \<leftarrow> free_object_tree dm;
     dm \<leftarrow> build_object_tree (rescan_now inp) dm;
     dm \<leftarrow> force_rebalance dm;
     dm \<leftarrow> read_stats (rescan_now inp) dm;
     let dm = fold deliver (rescan_signals inp) dm;
     dm \<leftarrow> clear_stats dm;
     read_stats (rescan_later inp) dm
   }"

text \<open>The first half of a pass, up to the end of the rescan.\<close>

definition measure_cycle :: "cycle_input \<Rightarrow> daemon \<Rightarrow> daemon option" where
  "measure_cycle inp dm = do {
     let dm = fold deliver (signals inp) dm;
     dm \<leftarrow> clear_stats dm;
     dm \<leftarrow> read_stats (now inp) dm;
     if need_rescan dm then rescan inp dm else Some dm
   }"

text \<open>The second half; the result has the affinities written.\<close>

definition balance_cycle :: "proc_irq \<Rightarrow> daemon \<Rightarrow> (daemon \<times> (int \<times> string) list) option" where
  "balance_cycle fs dm = do {
     s \<leftarrow> (if cycle_count (gs dm) \<noteq> 0 then update_migration_status (gs dm) else Some (gs dm));
     s \<leftarrow> calculate_placement s;
     (s, out) \<leftarrow> activate_mappings fs s;
     let dm = dm\<lparr>gs := s\<rparr>;
     let dm = (if one_shot_mode dm then dm\<lparr>keep_going := False\<rparr> else dm);
     Some (upd_gs (\<lambda>s. s\<lparr>cycle_count := cycle_count s + 1\<rparr>) dm, out)
   }"

definition main_cycle :: "cycle_input \<Rightarrow> daemon \<Rightarrow> (daemon \<times> (int \<times> string) list) option" where
  "main_cycle inp dm = do { dm \<leftarrow> measure_cycle inp dm; balance_cycle (affinity inp) dm }"

datatype outcome = Running daemon | Finished daemon

text \<open>The loop on the inputs there are; it is still running when they are used up.\<close>

fun main_loop :: "cycle_input list \<Rightarrow> daemon \<Rightarrow> outcome option" where
  "main_loop inps dm =
    (if \<not> keep_going dm then map_option Finished (free_object_tree dm)
     else case inps of
       [] \<Rightarrow> Some (Running dm)
     | inp # inps \<Rightarrow>
         (case main_cycle inp dm of None \<Rightarrow> None | Some (dm, _) \<Rightarrow> main_loop inps dm))"

declare main_loop.simps [simp del]

section \<open>The start\<close>

record boot =
  env_banned_cpus :: "string option"
  env_oneshot :: bool
  env_debug :: bool
  numa_available :: int
  clk_tck :: int
  daemon_fails :: bool

definition init_globals :: "boot \<Rightarrow> settings \<Rightarrow> settings" where
  "init_globals b st =
    (let st = (case env_banned_cpus b of
           None \<Rightarrow> st
         | Some t \<Rightarrow> upd_daemon (upd_gs (\<lambda>s. s\<lparr>banned_cpus := snd (cpumask_parse_user t (banned_cpus s))\<rparr>)) st);
         st = (if env_oneshot b then upd_daemon (\<lambda>dm. dm\<lparr>one_shot_mode := True\<rparr>) st else st);
         st = (if env_debug b then st\<lparr>debug_mode := True\<rparr> else st);
         st = (if numa_available b > - 1 then upd_daemon (upd_gs (\<lambda>s. s\<lparr>numa_avail := True\<rparr>)) st else st)
     in upd_daemon (\<lambda>dm. dm\<lparr>HZ := (if clk_tck b = - 1 then 100 else clk_tck b)\<rparr>) st)"

text \<open>Everything before the main loop; \<open>Inl\<close> is an exit.\<close>

definition start_up :: "boot \<Rightarrow> machine \<Rightarrow> settings \<Rightarrow> (int + settings) option" where
  "start_up b m st = do {
     let st = init_globals b st;
     dm \<leftarrow> build_object_tree m (daemon_state st);
     if core_count dm < 2 then Some (Inl 0)
     else if \<not> foreground_mode st \<and> daemon_fails b then Some (Inl 1)
     else do {
       dm \<leftarrow> force_rebalance dm;
       dm \<leftarrow> read_stats m dm;
       Some (Inr (st\<lparr>daemon_state := dm\<rparr>))
     }
   }"

end
