(* ===== verification/Cycle_Frames.thy ===== *)
theory Cycle_Frames
  imports Irqbalance
begin

text \<open>
  What each step of a pass of the main loop leaves alone: the tree, the interrupts, the lists, the
  loads, and the variables of the daemon.
\<close>

section \<open>What a pass without a rescan leaves alone\<close>

text \<open>A state without loads, counters, lists of interrupts and power save.\<close>

definition cold :: "gstate \<Rightarrow> gstate" where
  "cold s = s\<lparr>objs := \<lambda>d. (objs s d)\<lparr>load := 0, last_load := 0, powersave_mode := False, interrupts := []\<rparr>,
     irqs := \<lambda>i. (irqs s i)\<lparr>irq_count := 0, last_irq_count := 0, iload := 0, moved := False, assigned_obj := None\<rparr>,
     rebalance_irq_list := [], cycle_count := 0\<rparr>"

definition same_cold :: "gstate \<Rightarrow> gstate \<Rightarrow> bool" where
  "same_cold s s' \<longleftrightarrow> cold s' = cold s"

lemma same_cold_refl [simp]: "same_cold s s"
  by (simp add: same_cold_def)

lemma same_cold_trans: "same_cold s t \<Longrightarrow> same_cold t u \<Longrightarrow> same_cold s u"
  by (simp add: same_cold_def)

lemma same_cold_sym: "same_cold s t \<Longrightarrow> same_cold t s"
  by (simp add: same_cold_def)

lemma same_cold_fields:
  assumes "same_cold s s'"
  shows "children (objs s' d) = children (objs s d)" "mask (objs s' d) = mask (objs s d)"
    "obj_type (objs s' d) = obj_type (objs s d)" "number (objs s' d) = number (objs s d)"
    "parent (objs s' d) = parent (objs s d)"
    "level (irqs s' i) = level (irqs s i)" "numa_node (irqs s' i) = numa_node (irqs s i)"
    "affinity_hint (irqs s' i) = affinity_hint (irqs s i)" "irq (irqs s' i) = irq (irqs s i)"
    "interrupts_db s' = interrupts_db s" "banned_irqs s' = banned_irqs s"
    "banned_cpus s' = banned_cpus s" "unbanned_cpus s' = unbanned_cpus s" "numa_avail s' = numa_avail s"
    "cpu_objs s' = cpu_objs s" "packages s' = packages s" "cache_domains s' = cache_domains s"
    "numa_nodes s' = numa_nodes s"
proof -
  have eq: "cold s' = cold s" using assms by (simp add: same_cold_def)
  have d: "objs (cold s') d = objs (cold s) d" and i: "irqs (cold s') i = irqs (cold s) i"
    using eq by simp_all
  show "children (objs s' d) = children (objs s d)" "mask (objs s' d) = mask (objs s d)"
    "obj_type (objs s' d) = obj_type (objs s d)" "number (objs s' d) = number (objs s d)"
    "parent (objs s' d) = parent (objs s d)"
    using arg_cong [OF d, of children] arg_cong [OF d, of mask] arg_cong [OF d, of obj_type]
      arg_cong [OF d, of number] arg_cong [OF d, of parent] by (simp_all add: cold_def)
  show "level (irqs s' i) = level (irqs s i)" "numa_node (irqs s' i) = numa_node (irqs s i)"
    "affinity_hint (irqs s' i) = affinity_hint (irqs s i)" "irq (irqs s' i) = irq (irqs s i)"
    using arg_cong [OF i, of level] arg_cong [OF i, of numa_node] arg_cong [OF i, of affinity_hint]
      arg_cong [OF i, of irq] by (simp_all add: cold_def)
  show "interrupts_db s' = interrupts_db s" "banned_irqs s' = banned_irqs s"
    "banned_cpus s' = banned_cpus s" "unbanned_cpus s' = unbanned_cpus s" "numa_avail s' = numa_avail s"
    "cpu_objs s' = cpu_objs s" "packages s' = packages s" "cache_domains s' = cache_domains s"
    "numa_nodes s' = numa_nodes s"
    using arg_cong [OF eq, of interrupts_db] arg_cong [OF eq, of banned_irqs]
      arg_cong [OF eq, of banned_cpus] arg_cong [OF eq, of unbanned_cpus] arg_cong [OF eq, of numa_avail]
      arg_cong [OF eq, of cpu_objs] arg_cong [OF eq, of packages] arg_cong [OF eq, of cache_domains]
      arg_cong [OF eq, of numa_nodes] by (simp_all add: cold_def)
qed

lemma cold_strip: "cold (strip s) = cold s" "cold (strip_loads s) = cold s" "cold (strip_load s) = cold s"
  by (simp_all add: cold_def strip_def strip_loads_def strip_load_def)

lemma same_coldI:
  "lists_only s s' \<Longrightarrow> same_cold s s'" "loads_only s s' \<Longrightarrow> same_cold s s'" "same_tree s s' \<Longrightarrow> same_cold s s'"
  unfolding same_cold_def lists_only_def loads_only_def same_tree_def by (metis cold_strip)+

lemma counts_only_cold: "counts_only s s' \<Longrightarrow> same_cold s s'"
proof -
  assume c: "counts_only s s'"
  have "(irqs s' i)\<lparr>irq_count := 0, last_irq_count := 0, iload := 0, moved := False, assigned_obj := None\<rparr>
      = ((irqs s' i)\<lparr>irq_count := 0, last_irq_count := 0\<rparr>)\<lparr>iload := 0, moved := False, assigned_obj := None\<rparr>" for i
    by simp
  then have i: "(irqs s' i)\<lparr>irq_count := 0, last_irq_count := 0, iload := 0, moved := False, assigned_obj := None\<rparr>
      = (irqs s i)\<lparr>irq_count := 0, last_irq_count := 0, iload := 0, moved := False, assigned_obj := None\<rparr>" for i
    using c by (simp add: counts_only_def)
  have "s'\<lparr>irqs := irqs s\<rparr> = s" using c by (simp add: counts_only_def)
  then have "s\<lparr>irqs := irqs s'\<rparr> = (s'\<lparr>irqs := irqs s\<rparr>)\<lparr>irqs := irqs s'\<rparr>" by (simp only:)
  then have s': "s' = s\<lparr>irqs := irqs s'\<rparr>" by simp
  show ?thesis unfolding same_cold_def cold_def by (subst s', subst (2 3) s') (simp add: i)
qed

lemma same_cold_upd:
  "same_cold s (upd_obj d (\<lambda>ob. ob\<lparr>powersave_mode := b\<rparr>) s)"
  "same_cold s (upd_obj d (\<lambda>ob. ob\<lparr>last_load := v\<rparr>) s)"
  "same_cold s (upd_obj d (\<lambda>ob. ob\<lparr>load := u, last_load := v\<rparr>) s)"
  "same_cold s (upd_irq i (\<lambda>ii. ii\<lparr>moved := b\<rparr>) s)"
  "same_cold s (s\<lparr>cycle_count := c\<rparr>)" "same_cold s (s\<lparr>rebalance_irq_list := l\<rparr>)"
  by (simp_all add: same_cold_def cold_def upd_obj_def upd_irq_def fun_eq_iff)

lemma tree_ok_cold:
  assumes "same_cold (gs dm) (gs dm')" "next_obj dm' = next_obj dm"
  shows "tree_ok dm' = tree_ok dm"
  unfolding tree_ok_def tree_ok_but_def links_ok_def typed_lists_def masks_unbanned_def load_order_def
  by (simp only: same_cold_fields [OF assms(1)] assms(2))

section \<open>Where interrupts can be\<close>

definition live_ints :: "gstate \<Rightarrow> bool" where
  "live_ints s \<longleftrightarrow> (\<forall>d. interrupts (objs s d) \<noteq> [] \<longrightarrow> d \<in> set (load_order s))"

lemma load_order_cold: "same_cold s s' \<Longrightarrow> load_order s' = load_order s"
  by (simp add: load_order_def same_cold_fields [of s s'])

lemma live_ints_same:
  "same_cold s s' \<Longrightarrow> (\<And>d. interrupts (objs s' d) = interrupts (objs s d)) \<Longrightarrow> live_ints s' = live_ints s"
  by (simp add: live_ints_def load_order_cold [of s s'])

lemma live_ints_migrate:
  assumes "live_ints s" "\<And>d. dst = ObjInts d \<Longrightarrow> d \<in> set (load_order s)"
  shows "live_ints (set_assigned x i (migrate_irq src dst i s))"
proof -
  have l: "load_order (put_list s' r l) = load_order s'" for s' r l
    by (cases r) (simp_all add: load_order_def upd_obj_def)
  have 1: "live_ints (put_list s' r l)"
    if "live_ints s'" "load_order s' = load_order s" "\<And>d. r = ObjInts d \<Longrightarrow> l = [] \<or> d \<in> set (load_order s)" for s' r l
    using that l [of s' r l] by (cases r) (auto simp: live_ints_def upd_obj_def)
  have 2: "r = ObjInts d \<Longrightarrow> remove1 e (get_list s r) = [] \<or> d \<in> set (load_order s)" for r e d
    using assms(1) unfolding live_ints_def by (metis get_list.simps(1) remove1.simps(1))
  have "live_ints (migrate_irq src dst i s)"
  proof (cases "find_irq s (irq (irqs s i)) (get_list s src)")
    case (Some e)
    let ?t = "put_list s src (remove1 e (get_list s src))"
    have t: "live_ints ?t" by (rule 1 [OF assms(1) refl 2])
    have "live_ints (put_list ?t dst (get_list ?t dst @ [e]))"
      by (rule 1 [OF t l]) (use assms(2) in auto)
    with Some show ?thesis by (simp add: migrate_irq_def live_ints_def upd_irq_def load_order_def)
  qed (use assms(1) in \<open>simp add: migrate_irq_def\<close>)
  then show ?thesis by (simp add: live_ints_def set_assigned_def upd_irq_def load_order_def)
qed

lemma live_ints_evicted:
  assumes "evicted_from s s'" "irqs_consistent s" "load_order s' = load_order s" "live_ints s"
  shows "live_ints s'"
  unfolding live_ints_def
proof (intro allI impI)
  fix d assume "interrupts (objs s' d) \<noteq> []"
  then obtain i where "i \<in> set (get_list s' (ObjInts d))" by (cases "interrupts (objs s' d)") auto
  then have "place_of s' i = At d"
    using in_list_iff [of s' i "ObjInts d"] assms(1) by (simp add: evicted_from_def)
  moreover have "place_of s' i = place_of s i \<or> place_of s' i = Pending"
    using assms(1) by (simp add: evicted_from_def)
  ultimately have "place_of s i = At d" by simp
  then have "i \<in> set (interrupts (objs s d))" using in_list_iff [OF assms(2), of i "ObjInts d"] by simp
  then have "interrupts (objs s d) \<noteq> []" by auto
  with assms(3,4) show "d \<in> set (load_order s')" by (simp add: live_ints_def)
qed

section \<open>What the load balancing leaves alone\<close>

definition same_loads :: "gstate \<Rightarrow> gstate \<Rightarrow> bool" where
  "same_loads s s' \<longleftrightarrow> same_cold s s' \<and> (\<forall>d. load (objs s' d) = load (objs s d))
    \<and> (\<forall>i. iload (irqs s' i) = iload (irqs s i)) \<and> cycle_count s' = cycle_count s"

lemma same_loads_trans: "same_loads s t \<Longrightarrow> same_loads t u \<Longrightarrow> same_loads s u"
  unfolding same_loads_def using same_cold_trans by auto

lemma same_loads_lists: "lists_only s s' \<Longrightarrow> same_loads s s'"
  by (simp add: same_loads_def same_coldI lists_only_fields [of s s'])

lemma same_loads_powersave: "same_loads s (upd_obj d (\<lambda>ob. ob\<lparr>powersave_mode := b\<rparr>) s)"
  using same_cold_upd(1) [of s d b] by (simp add: same_loads_def upd_obj_def)

lemma same_loads_force:
  assumes "force_irq_migration i s = Some s'"
  shows "same_loads s s'"
proof -
  obtain d where "s' = moved_irq (ObjInts d) Rebalance i s"
    using assms by (auto simp: force_irq_migration_def moved_irq_def split: option.splits)
  then show ?thesis using lists_only_moved_irq same_loads_lists by blast
qed

lemma same_loads_each:
  assumes "for_each cb xs s = Some s'" "\<And>x t t'. cb x t = Some t' \<Longrightarrow> same_loads t t'"
  shows "same_loads s s'"
  by (rule for_each_keeps [OF assms(1), where P = "same_loads s"])
    (use assms(2) same_loads_trans in \<open>auto simp: same_loads_def\<close>)

lemma same_loads_power_save:
  assumes "power_save_step info s = Some s'"
  shows "same_loads s s'"
proof -
  have refl: "same_loads t t" for t by (simp add: same_loads_def)
  have clear: "same_loads t t'" if "clear_powersave_mode d t = Some t'" for d t t'
    using that same_loads_powersave by (auto simp: clear_powersave_mode_def)
  have force: "same_loads s s'" if "for_each force_irq_migration xs (upd_obj p (\<lambda>ob. ob\<lparr>powersave_mode := True\<rparr>) s) = Some s'" for p xs
    by (rule same_loads_trans [OF same_loads_powersave same_loads_each [OF that same_loads_force]])
  have cases: "s' = s \<or> (\<exists>p. s' = upd_obj p (\<lambda>ob. ob\<lparr>powersave_mode := True\<rparr>) s)
      \<or> (\<exists>p xs. for_each force_irq_migration xs (upd_obj p (\<lambda>ob. ob\<lparr>powersave_mode := True\<rparr>) s) = Some s')
      \<or> (\<exists>xs. for_each clear_powersave_mode xs s = Some s')"
    using assms unfolding power_save_step_def Let_def for_each_irq_def for_each_object_def
    by (auto split: if_splits option.splits bool.splits)
  have "for_each clear_powersave_mode xs s = Some s' \<Longrightarrow> same_loads s s'" for xs
    by (rule same_loads_each) (auto intro: clear)
  with cases refl same_loads_powersave force show ?thesis by blast
qed

lemma update_migration_status_frame:
  assumes "irqs_consistent s"
  shows "\<exists>s'. update_migration_status s = Some s' \<and> evicted_from s s' \<and> powersave_empty s s' \<and> same_loads s s'"
proof -
  have c: "evicted_from x y \<Longrightarrow> irqs_consistent y" for x y by (simp add: evicted_from_def)
  obtain s' where s': "update_migration_status s = Some s'" "evicted_from s s'" "powersave_empty s s'"
    using update_migration_status_evicts [OF assms] by blast
  obtain i1 s1 where 1: "find_overloaded_objs (cpu_objs s) s = Some (i1, s1)" "evicted_from s s1"
    "lists_only s s1" using find_overloaded_evicts [OF assms] by blast
  obtain s2 where 2: "power_save_step i1 s1 = Some s2" "evicted_from s1 s2"
    using power_save_step_evicts [OF c [OF 1(2)]] by blast
  obtain i3 s3 where 3: "find_overloaded_objs (cache_domains s2) s2 = Some (i3, s3)"
    "evicted_from s2 s3" "lists_only s2 s3" using find_overloaded_evicts [OF c [OF 2(2)]] by blast
  obtain i4 s4 where 4: "find_overloaded_objs (packages s3) s3 = Some (i4, s4)"
    "evicted_from s3 s4" "lists_only s3 s4" using find_overloaded_evicts [OF c [OF 3(2)]] by blast
  obtain i5 s5 where 5: "find_overloaded_objs (numa_nodes s4) s4 = Some (i5, s5)"
    "evicted_from s4 s5" "lists_only s4 s5" using find_overloaded_evicts [OF c [OF 4(2)]] by blast
  have "update_migration_status s = Some s5"
    unfolding update_migration_status_def
    by (simp only: 1(1) bind.bind_lunit split 2(1) 3(1) 4(1) 5(1))
  moreover have "same_loads s s5"
    using same_loads_lists [OF 1(3)] same_loads_power_save [OF 2(1)] same_loads_lists [OF 3(3)]
      same_loads_lists [OF 4(3)] same_loads_lists [OF 5(3)] by (meson same_loads_trans)
  ultimately show ?thesis using s' by auto
qed

section \<open>Interrupts are placed in the tree\<close>

lemma find_best_object_keeps:
  "case find_best_object s i d p of None \<Rightarrow> True
   | Some p' \<Rightarrow> (best p' = best p \<or> best p' = Some d) \<and> least_irqs p' \<in> {least_irqs p, Some d, None}"
  by (simp add: find_best_object_def Let_def split: option.split)

lemma choose_object_in:
  assumes "choose_object s i ds = Some (Some a)"
  shows "a \<in> set ds"
proof -
  let ?P = "\<lambda>pl. \<forall>a. best pl = Some a \<or> least_irqs pl = Some a \<longrightarrow> a \<in> set ds"
  obtain pl where pl: "for_each (find_best_object s i) ds no_placement = Some pl"
    "(case least_irqs pl of Some d \<Rightarrow> Some d | None \<Rightarrow> best pl) = Some a"
    using assms by (auto simp: choose_object_def for_each_object_def)
  have "?P pl"
  proof (rule for_each_keeps [OF pl(1)])
    show "?P no_placement" by (simp add: no_placement_def)
    fix d p p' assume *: "d \<in> set ds" "?P p" "find_best_object s i d p = Some p'"
    have "best p' = best p \<or> best p' = Some d" "least_irqs p' \<in> {least_irqs p, Some d, None}"
      using find_best_object_keeps [where s = s and i = i and d = d and p = p] *(3) by simp_all
    with * show "?P p'" by auto
  qed
  with pl(2) show ?thesis by (auto split: option.splits)
qed

text \<open>The NUMA nodes of interrupts and the children of objects are in the lists.\<close>

definition listed :: "gstate \<Rightarrow> bool" where
  "listed s \<longleftrightarrow> (\<forall>i \<in> set (interrupts_db s). \<forall>nd. numa_node (irqs s i) = Some nd \<longrightarrow> nd \<in> set (numa_nodes s))
    \<and> (\<forall>p. set (children (objs s p)) \<subseteq> set (load_order s))"

lemma listed_cold: "same_cold s s' \<Longrightarrow> listed s' = listed s"
  by (simp add: listed_def load_order_cold [of s s'] same_cold_fields [of s s'])

definition placed_in_tree :: "gstate \<Rightarrow> gstate \<Rightarrow> bool" where
  "placed_in_tree s s' \<longleftrightarrow> same_tree s s' \<and> (live_ints s \<longrightarrow> live_ints s')"

lemma placed_refl: "placed_in_tree s s"
  by (simp add: placed_in_tree_def)

lemma placed_trans: "placed_in_tree s t \<Longrightarrow> placed_in_tree t u \<Longrightarrow> placed_in_tree s u"
  using same_tree_trans by (auto simp: placed_in_tree_def)

lemma placed_move:
  assumes "a \<in> set (load_order s)"
  shows "placed_in_tree s (add_load a l (set_assigned (Some a) i (migrate_irq src (ObjInts a) i s)))"
proof -
  let ?t = "set_assigned (Some a) i (migrate_irq src (ObjInts a) i s)"
  have t: "?t = moved_irq src (ObjInts a) i s" by (simp add: moved_irq_def)
  have "same_tree s ?t" unfolding t by (rule same_tree_lists_only [OF lists_only_moved_irq])
  then have "same_tree s (add_load a l ?t)" using same_tree_add_load same_tree_trans by blast
  moreover have "live_ints (add_load a l ?t)" if "live_ints s"
  proof -
    have "live_ints ?t" by (rule live_ints_migrate [OF that]) (use assms in simp)
    then show ?thesis by (auto simp: live_ints_def add_load_def upd_obj_def load_order_def)
  qed
  ultimately show ?thesis by (simp add: placed_in_tree_def)
qed

lemma place_object_placed:
  assumes "place_irq_in_object d s = Some s'" "listed s"
  shows "placed_in_tree s s'"
proof -
  have step: "placed_in_tree s t'" if h: "placed_in_tree s t" "find_best_object_for_irq d i t = Some t'" for i t t'
  proof (cases "t' = t")
    case False
    then obtain a where a: "choose_object t i (children (objs t d)) = Some (Some a)"
      "t' = add_load a (iload (irqs t i)) (set_assigned (Some a) i (migrate_irq (ObjInts d) (ObjInts a) i t))"
      using h(2) by (auto simp: find_best_object_for_irq_def split: if_splits option.splits)
    have "listed t" using assms(2) h(1) same_coldI(3) listed_cold by (auto simp: placed_in_tree_def)
    then have "a \<in> set (load_order t)" using choose_object_in [OF a(1)] by (auto simp: listed_def)
    then show ?thesis unfolding a(2) using placed_trans [OF h(1) placed_move] by blast
  qed (use h in simp)
  have "for_each (find_best_object_for_irq d) xs s = Some s' \<Longrightarrow> placed_in_tree s s'" for xs
    by (rule for_each_keeps [where P = "placed_in_tree s"]) (auto simp: placed_refl intro: step)
  with assms(1) placed_refl show ?thesis
    by (auto simp: place_irq_in_object_def for_each_irq_def split: if_splits)
qed

lemma place_objects_placed:
  assumes "for_each place_irq_in_object ds s = Some s'" "listed s"
  shows "placed_in_tree s s'"
proof (rule for_each_keeps [OF assms(1), where P = "placed_in_tree s"])
  fix d t t' assume "placed_in_tree s t" "place_irq_in_object d t = Some t'"
  moreover from this have "listed t" using assms(2) same_coldI(3) listed_cold by (auto simp: placed_in_tree_def)
  ultimately show "placed_in_tree s t'" using place_object_placed placed_trans by blast
qed (rule placed_refl)

lemma place_node_placed:
  assumes "place_irq_in_node i s = Some s'" "listed s" "i \<in> set (interrupts_db s)"
  shows "placed_in_tree s s'"
proof (cases "s' = s")
  case False
  then obtain a l where "s' = add_load a l (set_assigned (Some a) i (migrate_irq Rebalance (ObjInts a) i s))"
    "numa_node (irqs s i) = Some a \<or> choose_object s i (numa_nodes s) = Some (Some a)"
    using assms(1) by (auto simp: place_irq_in_node_def split: if_splits option.splits)
  moreover from this(2) have "a \<in> set (load_order s)"
    using assms(2,3) choose_object_in by (auto simp: listed_def load_order_def)
  ultimately show ?thesis using placed_move by blast
qed (simp add: placed_refl)

lemma calculate_placement_placed:
  assumes "calculate_placement s = Some s'" "listed s" "irqs_consistent s"
  shows "placed_in_tree s s'"
proof -
  let ?s = "sort_irq_list Rebalance s"
  have s: "placed_in_tree s ?s"
    using same_tree_lists_only [OF lists_only_sort, of s Rebalance]
    by (simp add: placed_in_tree_def live_ints_def load_order_def) (simp add: sort_irq_list_def)
  have l: "placed_in_tree s t \<Longrightarrow> listed t" for t
    using assms(2) same_coldI(3) listed_cold by (auto simp: placed_in_tree_def)
  have db: "set (rebalance_irq_list ?s) \<subseteq> set (interrupts_db s)"
    using assms(3) sort_irq_list_eff(3) [of Rebalance s Rebalance] by (auto simp: irqs_consistent_def)
  have nodes: "placed_in_tree s t" if "for_each place_irq_in_node (rebalance_irq_list ?s) ?s = Some t" for t
  proof (rule for_each_keeps [OF that, where P = "placed_in_tree s"])
    fix i t t' assume i: "i \<in> set (rebalance_irq_list ?s)" and t: "placed_in_tree s t" and p: "place_irq_in_node i t = Some t'"
    have "i \<in> set (interrupts_db t)"
      using db i t same_tree_fields(11) [of s t] by (auto simp: placed_in_tree_def)
    with place_node_placed [OF p l [OF t]] t placed_trans show "placed_in_tree s t'" by blast
  qed (rule s)
  show ?thesis
  proof (cases "rebalance_irq_list ?s = []")
    case True
    then show ?thesis using assms(1) s by (simp add: calculate_placement_def)
  next
    case False
    then obtain t u v where 1: "for_each place_irq_in_node (rebalance_irq_list ?s) ?s = Some t"
      and 2: "for_each place_irq_in_object (numa_nodes t) t = Some u"
      and 3: "for_each place_irq_in_object (packages u) u = Some v"
      and 4: "for_each place_irq_in_object (cache_domains v) v = Some s'"
      using assms(1) by (auto simp: calculate_placement_def for_each_irq_def for_each_object_def Let_def
          split: bind_splits)
    have t: "placed_in_tree s t" by (rule nodes [OF 1])
    have u: "placed_in_tree s u" using place_objects_placed [OF 2 l [OF t]] t placed_trans by blast
    have v: "placed_in_tree s v" using place_objects_placed [OF 3 l [OF u]] u placed_trans by blast
    show ?thesis using place_objects_placed [OF 4 l [OF v]] v placed_trans by blast
  qed
qed

section \<open>Reading the statistics\<close>

definition same_daemon :: "daemon \<Rightarrow> daemon \<Rightarrow> bool" where
  "same_daemon dm dm' \<longleftrightarrow> same_cold (gs dm) (gs dm') \<and> next_obj dm' = next_obj dm \<and> next_irq dm' = next_irq dm
    \<and> cl_banned_irqs dm' = cl_banned_irqs dm \<and> one_shot_mode dm' = one_shot_mode dm
    \<and> (\<not> keep_going dm \<longrightarrow> \<not> keep_going dm')
    \<and> (irqs_consistent (gs dm) \<longrightarrow> irqs_consistent (gs dm'))
    \<and> (live_ints (gs dm) \<longrightarrow> live_ints (gs dm'))"

lemma same_daemon_refl [simp]: "same_daemon dm dm"
  by (simp add: same_daemon_def)

lemma same_daemon_trans: "same_daemon a b \<Longrightarrow> same_daemon b c \<Longrightarrow> same_daemon a c"
  unfolding same_daemon_def using same_cold_trans by auto

text \<open>A state with the lists of interrupts of another one.\<close>

definition same_lists :: "gstate \<Rightarrow> gstate \<Rightarrow> bool" where
  "same_lists s s' \<longleftrightarrow> same_cold s s' \<and> (\<forall>d. interrupts (objs s' d) = interrupts (objs s d))
    \<and> (\<forall>i. assigned_obj (irqs s' i) = assigned_obj (irqs s i)) \<and> rebalance_irq_list s' = rebalance_irq_list s"

lemma same_lists_refl: "same_lists s s"
  by (simp add: same_lists_def)

lemma same_lists_trans: "same_lists s t \<Longrightarrow> same_lists t u \<Longrightarrow> same_lists s u"
  unfolding same_lists_def using same_cold_trans by auto

lemma same_lists_consistent: "same_lists s s' \<Longrightarrow> irqs_consistent s' = irqs_consistent s"
  unfolding irqs_consistent_def same_lists_def by (simp add: same_cold_fields [of s s'])

lemma same_lists_live: "same_lists s s' \<Longrightarrow> live_ints s' = live_ints s"
  unfolding same_lists_def by (intro live_ints_same) auto

lemma same_lists_loads: "loads_only s s' \<Longrightarrow> same_lists s s'"
  by (simp add: same_lists_def same_coldI loads_only_fields [of s s'])

lemma same_lists_counts: "counts_only s s' \<Longrightarrow> same_lists s s'"
  by (simp add: same_lists_def counts_only_cold counts_only_fields [of s s'])

lemma same_daemon_lists:
  assumes "same_lists (gs dm) s"
  shows "same_daemon dm (dm\<lparr>gs := s\<rparr>)"
  using assms same_lists_consistent [OF assms] same_lists_live [OF assms]
  by (simp add: same_daemon_def same_lists_def)

lemma share_each_loads:
  assumes "for_each cb ds s = Some s'" "\<And>d t t'. cb d t = Some t' \<Longrightarrow> loads_only t t'"
  shows "loads_only s s'"
  by (rule for_each_keeps [OF assms(1), where P = "loads_only s"])
    (use assms(2) loads_only_trans in \<open>auto\<close>)

lemma compute_share_loads:
  assumes "compute_irq_branch_load_share d s = Some s'"
  shows "loads_only s s'"
proof -
  have slice: "loads_only t t'" if "assign_load_slice v i t = Some t'" for v i t t'
    using that loads_only_upd(2) [of t i "\<lambda>ii. _"] by (auto simp: assign_load_slice_def Let_def)
  let ?s = "upd_obj d (\<lambda>ob. ob\<lparr>load := load ob div (if length (children (objs s d)) \<noteq> 0
      then of_nat (length (children (objs s d))) else 1)\<rparr>) s"
  have s: "loads_only s ?s" by (rule loads_only_upd)
  obtain t where t: "(if length (interrupts (objs ?s d)) > 0 then do {
         local_irq_counts \<leftarrow> get_parent_branch_irq_count_share ?s d;
         let load_slice = (if local_irq_counts \<noteq> 0 then load (objs ?s d) div local_irq_counts else 1);
         for_each_irq ?s (interrupts (objs ?s d)) (assign_load_slice load_slice) ?s
       } else Some ?s) = Some t"
    and s': "s' = (case parent (objs t d) of None \<Rightarrow> t
       | Some p \<Rightarrow> upd_obj p (\<lambda>ob. ob\<lparr>load := load ob + load (objs t d)\<rparr>) t)"
    using assms unfolding compute_irq_branch_load_share_def Let_def bind_eq_Some_conv by blast
  have "loads_only ?s t"
  proof (cases "length (interrupts (objs ?s d)) > 0")
    case True
    with t obtain v where "for_each_irq ?s (interrupts (objs ?s d)) (assign_load_slice v) ?s = Some t"
      by (auto simp only: if_True bind_eq_Some_conv Let_def)
    then show ?thesis unfolding for_each_irq_def using share_each_loads slice by blast
  qed (use t in simp)
  moreover have "loads_only t s'" using s' loads_only_upd(1) [of t] by (auto split: option.splits)
  ultimately show ?thesis using s loads_only_trans by blast
qed

lemma reset_load_loads:
  assumes "reset_load d s = Some s'"
  shows "loads_only s s'"
proof (rule reset_load.raw_induct [OF _ assms, where P = "\<lambda>d s s'. loads_only s s'"])
  fix f d s s'
  assume ih: "\<And>d s s'. f d s = Some s' \<Longrightarrow> loads_only s s'"
    and r: "Option.bind (case parent (objs s d) of None \<Rightarrow> Some s | Some p \<Rightarrow> f p s)
      (\<lambda>s. Some (upd_obj d (\<lambda>ob. ob\<lparr>load := 0\<rparr>) s)) = Some s'"
  from r obtain t where t: "(case parent (objs s d) of None \<Rightarrow> Some s | Some p \<Rightarrow> f p s) = Some t"
    "s' = upd_obj d (\<lambda>ob. ob\<lparr>load := 0\<rparr>) t"
    unfolding bind_eq_Some_conv by blast
  have st: "loads_only s t" using t(1) ih by (auto split: option.splits)
  show "loads_only s s'" unfolding t(2) by (rule loads_only_trans [OF st loads_only_upd(1)])
qed

lemma share_loads_frame:
  assumes "share_loads s = Some s'"
  shows "loads_only s s'"
proof -
  obtain a b c e where "for_each reset_load (cache_domains s) s = Some a"
    "for_each compute_irq_branch_load_share (cpu_objs a) a = Some b"
    "for_each compute_irq_branch_load_share (cache_domains b) b = Some c"
    "for_each compute_irq_branch_load_share (packages c) c = Some e"
    "for_each compute_irq_branch_load_share (numa_nodes e) e = Some s'"
    using assms by (auto simp: share_loads_def for_each_object_def bind_eq_Some_conv)
  note * = this(1) [THEN share_each_loads, OF reset_load_loads] this(2-5) [THEN share_each_loads, OF compute_share_loads]
  show ?thesis
    by (rule loads_only_trans [OF *(1) loads_only_trans [OF *(2) loads_only_trans [OF *(3) loads_only_trans [OF *(4,5)]]]])
qed

lemma proc_stat_line_lists:
  assumes "proc_stat_line hz l st = (go, buf, st')" "\<forall>c t. st = Some (c, t) \<longrightarrow> same_lists s t"
  shows "\<forall>c t. st' = Some (c, t) \<longrightarrow> same_lists s t"
proof -
  have upd: "same_lists t (upd_obj c (\<lambda>ob. ob\<lparr>last_load := v\<rparr>) t)"
    "same_lists t (upd_obj c (\<lambda>ob. ob\<lparr>load := u, last_load := v\<rparr>) t)" for t c u v
    using same_cold_upd(2,3) [of t c] by (simp_all add: same_lists_def upd_obj_def)
  show ?thesis
    using assms same_lists_trans upd unfolding proc_stat_line_def Let_def
    by (cases st) (auto split: if_splits option.splits prod.splits)
qed

lemma parse_proc_stat_lists:
  assumes "parse_proc_stat hz f s = Some s'"
  shows "same_lists s s'"
proof (cases f)
  case (Some ls)
  let ?st = "skip_header (proc_stat_line hz) ls (Some (0, s))"
  have st: "\<forall>c t. ?st = Some (c, t) \<longrightarrow> same_lists s t"
    by (rule skip_header_keeps) (auto simp: same_lists_refl dest: proc_stat_line_lists)
  obtain c t where ct: "?st = Some (c, t)" "s' = t \<or> share_loads t = Some s'"
    using assms Some by (auto simp: parse_proc_stat_def bind_eq_Some_conv split: if_splits)
  have "same_lists t s'" using ct(2) share_loads_frame same_lists_loads same_lists_refl by blast
  with st ct(1) show ?thesis using same_lists_trans by blast
qed (use assms in \<open>simp add: parse_proc_stat_def same_lists_refl\<close>)

lemma parse_proc_interrupts_same: "same_daemon dm (parse_proc_interrupts f dm)"
proof (cases f)
  case (Some ls)
  let ?P = "\<lambda>d. counts_only (gs dm) (gs d) \<and> next_obj d = next_obj dm \<and> next_irq d = next_irq dm
    \<and> cl_banned_irqs d = cl_banned_irqs dm \<and> one_shot_mode d = one_shot_mode dm \<and> keep_going d = keep_going dm"
  have "?P (skip_header proc_irq_line ls dm)"
  proof (rule skip_header_keeps [where P = ?P])
    fix l d go buf d' assume p: "?P d" and l: "proc_irq_line l d = (go, buf, d')"
    have "next_obj d' = next_obj d \<and> next_irq d' = next_irq d \<and> cl_banned_irqs d' = cl_banned_irqs d
      \<and> one_shot_mode d' = one_shot_mode d \<and> keep_going d' = keep_going d"
      using l unfolding proc_irq_line_def Let_def
      by (auto simp: upd_gs_def note_msi_text_def split: if_splits option.splits prod.splits)
    moreover have "counts_only (gs d) (gs d')" using proc_irq_line_counted [OF l] by (simp add: counted_def)
    ultimately show "?P d'" using p counts_only_trans by auto
  qed simp
  then have "?P (parse_proc_interrupts f dm)" by (simp add: Some parse_proc_interrupts_def Let_def)
  then show ?thesis
    using same_lists_counts [THEN same_daemon_lists, of dm "gs (parse_proc_interrupts f dm)"]
    by (simp add: same_daemon_def)
qed (simp add: parse_proc_interrupts_def)

lemma read_stats_same:
  assumes "read_stats m dm = Some dm'"
  shows "same_daemon dm dm'"
proof -
  let ?d = "parse_proc_interrupts (interrupts_file m) dm"
  obtain s where s: "parse_proc_stat (HZ ?d) (stat_file m) (gs ?d) = Some s" "dm' = ?d\<lparr>gs := s\<rparr>"
    using assms by (auto simp: read_stats_def Let_def)
  show ?thesis
    unfolding s(2) using parse_proc_interrupts_same same_daemon_lists [OF parse_proc_stat_lists [OF s(1)]]
    by (rule same_daemon_trans)
qed

lemma clear_stats_same:
  assumes "tree_ok dm"
  shows "\<exists>dm'. clear_stats dm = Some dm' \<and> same_daemon dm dm'"
  using clear_work_stats_all [of "{}" "gs dm"] assms same_daemon_lists [OF same_lists_loads]
  by (auto simp: clear_stats_def tree_ok_def tree_ok_but_def cleared_def)

lemma deliver_same: "same_daemon dm (deliver sig dm)"
  by (cases sig) (simp_all add: same_daemon_def handler_def force_rescan_def)

lemma deliver_all_same: "same_daemon dm (fold deliver sigs dm)"
proof (induction sigs arbitrary: dm)
  case (Cons a sigs)
  then show ?case using same_daemon_trans [OF deliver_same Cons.IH] by simp
qed simp

lemma deliver_all_ends: "SIGINT \<in> set sigs \<Longrightarrow> \<not> keep_going (fold deliver sigs dm)"
proof (induction sigs arbitrary: dm)
  case (Cons a sigs)
  have "\<not> keep_going (fold deliver sigs (handler dm))"
    using deliver_all_same [of "handler dm" sigs] by (simp add: same_daemon_def handler_def)
  with Cons show ?case by auto
qed simp

section \<open>Building the tree does not touch interrupts\<close>

definition irqless :: "daemon \<Rightarrow> daemon \<Rightarrow> bool" where
  "irqless d0 d \<longleftrightarrow> irqs (gs d) = irqs (gs d0) \<and> interrupts_db (gs d) = interrupts_db (gs d0)
    \<and> banned_irqs (gs d) = banned_irqs (gs d0) \<and> rebalance_irq_list (gs d) = rebalance_irq_list (gs d0)
    \<and> cl_banned_irqs d = cl_banned_irqs d0 \<and> next_irq d = next_irq d0
    \<and> keep_going d = keep_going d0 \<and> one_shot_mode d = one_shot_mode d0
    \<and> (\<forall>x. interrupts (objs (gs d) x) = [])"

lemma irqless_alloc:
  assumes "irqless d0 d" "alloc_obj ob d = (r, d')" "interrupts ob = []"
  shows "irqless d0 d'"
  using assms by (auto simp: irqless_def alloc_obj_def upd_obj_def)

lemma irqless_upd:
  assumes "irqless d0 d"
  shows "irqless d0 (upd_gs (append_obj ty r) d)" "irqless d0 (upd_gs (adopt p c) d)"
    "irqless d0 (upd_gs (upd_obj x (\<lambda>_. zero_obj)) d)" "irqless d0 (d\<lparr>package_count := k\<rparr>)"
    "irqless d0 (d\<lparr>cache_domain_count := k\<rparr>)" "irqless d0 (d\<lparr>core_count := k\<rparr>)"
    "irqless d0 (d\<lparr>cpu_possible_map := m\<rparr>)" "irqless d0 (upd_gs (\<lambda>s. s\<lparr>unbanned_cpus := m'\<rparr>) d)"
    "irqless d0 (upd_gs (upd_obj x (\<lambda>_. unspecified_node_template)) d)"
  using assms by (cases ty; auto simp: irqless_def upd_gs_def upd_obj_def adopt_def zero_obj_def
      unspecified_node_template_def)+

lemma irqless_add_cache:
  assumes "irqless d0 d" "add_cpu_to_cache_domain cpu m d = (r, d')"
  shows "irqless d0 d'"
  using assms irqless_alloc [OF assms(1), of "zero_obj\<lparr>obj_type := OBJ_TYPE_CACHE, mask := m, number := cache_domain_count d\<rparr>"]
  by (auto simp: add_cpu_to_cache_domain_def Let_def zero_obj_def irqless_upd split: option.splits if_splits prod.splits)

lemma irqless_add_package:
  assumes "irqless d0 d" "add_cache_domain_to_package c n m d = (r, d')"
  shows "irqless d0 d'"
  using assms irqless_alloc [OF assms(1), of "zero_obj\<lparr>mask := m, obj_type := OBJ_TYPE_PACKAGE, number := n\<rparr>"]
  by (auto simp: add_cache_domain_to_package_def Let_def zero_obj_def irqless_upd split: option.splits if_splits prod.splits)

lemma irqless_insert:
  assumes "irqless d0 d"
  shows "irqless d0 (insert_cpu cpu cm pm pid nid d)"
  using irqless_add_package [OF irqless_add_cache [OF assms]]
  by (auto simp: insert_cpu_def Let_def add_package_to_node_def irqless_upd split: prod.splits option.splits)

lemma irqless_do_one:
  assumes "irqless d0 d" "do_one_cpu path cd d = Some d'"
  shows "irqless d0 d'"
proof (cases "is_offline cd")
  case False
  define n where "n = int_of_ulong (fst (strtoull (drop 27 path)))"
  define ob where "ob = zero_obj\<lparr>obj_type := OBJ_TYPE_CPU, number := n, mask := cpu_set (nat n) CPU_MASK_NONE\<rparr>"
  obtain cpu d1 where a: "alloc_obj ob d = (cpu, d1)" by fastforce
  have "irqless d0 d1" using irqless_alloc [OF assms(1) a] by (simp add: ob_def zero_obj_def)
  then show ?thesis
    using assms(2) False a unfolding do_one_cpu_def Let_def n_def [symmetric] ob_def [symmetric]
    by (auto simp: irqless_upd irqless_insert split: if_splits)
qed (use assms in \<open>simp add: do_one_cpu_def\<close>)

lemma irqless_parse:
  assumes "irqless d0 d" "parse_cpu_tree dir d = Some d'"
  shows "irqless d0 d'"
proof -
  let ?d = "upd_gs (\<lambda>s. s\<lparr>unbanned_cpus := cpus_complement (banned_cpus s)\<rparr>) d"
  have d: "irqless d0 ?d" using irqless_upd(8) [OF assms(1)] by (simp add: upd_gs_def)
  show ?thesis
  proof (cases dir)
    case (Some es)
    with assms(2) have "for_each (\<lambda>(name, cd) dm. if is_cpu_name name then do_one_cpu (cpu_path name) cd dm else Some dm) es ?d = Some d'"
      by (simp add: parse_cpu_tree_def)
    then show ?thesis
      by (rule for_each_keeps [where P = "irqless d0"]) (use d irqless_do_one in \<open>auto split: if_splits prod.splits\<close>)
  qed (use assms(2) d in \<open>simp add: parse_cpu_tree_def\<close>)
qed

lemma irqless_nodes:
  assumes "irqless d0 d"
  shows "irqless d0 (build_numa_node_list dir d)"
proof -
  have one: "irqless d0 (add_one_node name f e)" if "irqless d0 e" for name f e
    using irqless_alloc [OF that] that by (auto simp: add_one_node_def Let_def zero_obj_def irqless_upd split: option.splits prod.splits)
  have "irqless d0 (fold (\<lambda>(name, is_dir, cpumap) dm. if is_dir \<and> strstr name ''node'' then add_one_node name cpumap dm else dm) es e)"
    if "irqless d0 e" for es e
    using that by (induction es arbitrary: e) (auto simp: one split: prod.splits)
  then show ?thesis
    using irqless_upd(1,9) [OF assms] irqless_upd(1) [OF irqless_upd(9) [OF assms]]
    by (auto simp: build_numa_node_list_def Let_def split: option.splits)
qed

section \<open>Filling the data base does not touch the tree\<close>

definition hints_wf :: "gstate \<Rightarrow> bool" where
  "hints_wf s \<longleftrightarrow> (\<forall>i. wf_mask (affinity_hint (irqs s i)))"

definition node_known :: "gstate \<Rightarrow> irq_info \<Rightarrow> bool" where
  "node_known s ii \<longleftrightarrow> (\<forall>nd. numa_node ii = Some nd \<longrightarrow> nd \<in> set (numa_nodes s))"

definition bare :: "gstate \<Rightarrow> gstate" where
  "bare s = s\<lparr>irqs := \<lambda>_. zero_irq, interrupts_db := [], banned_irqs := [], rebalance_irq_list := []\<rparr>"

lemma bare_upd [simp]:
  "bare (s\<lparr>irqs := f\<rparr>) = bare s" "bare (s\<lparr>interrupts_db := l\<rparr>) = bare s"
  "bare (s\<lparr>banned_irqs := l\<rparr>) = bare s" "bare (s\<lparr>rebalance_irq_list := l\<rparr>) = bare s"
  by (simp_all add: bare_def)

definition treeless :: "daemon \<Rightarrow> daemon \<Rightarrow> bool" where
  "treeless d0 d \<longleftrightarrow> bare (gs d) = bare (gs d0) \<and> next_obj d = next_obj d0
    \<and> keep_going d = keep_going d0 \<and> one_shot_mode d = one_shot_mode d0
    \<and> hints_wf (gs d) \<and> (\<forall>i \<in> set (interrupts_db (gs d)). node_known (gs d) (irqs (gs d) i))"

lemma node_known_upd [simp]:
  "node_known (s\<lparr>irqs := f\<rparr>) = node_known s" "node_known (s\<lparr>interrupts_db := l\<rparr>) = node_known s"
  "node_known (s\<lparr>banned_irqs := l\<rparr>) = node_known s" "node_known (s\<lparr>rebalance_irq_list := l\<rparr>) = node_known s"
  by (simp_all add: node_known_def [abs_def])

lemma hints_wf_upd [simp]:
  "hints_wf (s\<lparr>interrupts_db := l\<rparr>) = hints_wf s" "hints_wf (s\<lparr>banned_irqs := l\<rparr>) = hints_wf s"
  "hints_wf (s\<lparr>rebalance_irq_list := l\<rparr>) = hints_wf s"
  by (simp_all add: hints_wf_def)

lemma treeless_alloc:
  assumes "treeless d0 d" "alloc_irq ii d = (r, d')" "wf_mask (affinity_hint ii)" "node_known (gs d) ii"
  shows "treeless d0 d'" "treeless d0 (upd_gs (\<lambda>s. s\<lparr>interrupts_db := interrupts_db s @ [r]\<rparr>) d')"
    "treeless d0 (upd_gs (\<lambda>s. s\<lparr>banned_irqs := l\<rparr>) d')"
proof -
  have d': "d' = d\<lparr>gs := (gs d)\<lparr>irqs := (irqs (gs d))(r := ii)\<rparr>, next_irq := Suc (next_irq d)\<rparr>"
    using assms(2) by (auto simp: alloc_irq_def upd_irq_def)
  have "hints_wf ((gs d)\<lparr>irqs := (irqs (gs d))(r := ii)\<rparr>)"
    using assms(1,3) by (simp add: treeless_def hints_wf_def)
  moreover have "\<forall>i \<in> insert r (set (interrupts_db (gs d))). node_known (gs d) (((irqs (gs d))(r := ii)) i)"
    using assms(1,4) by (simp add: treeless_def)
  ultimately show "treeless d0 d'" "treeless d0 (upd_gs (\<lambda>s. s\<lparr>interrupts_db := interrupts_db s @ [r]\<rparr>) d')"
    "treeless d0 (upd_gs (\<lambda>s. s\<lparr>banned_irqs := l\<rparr>) d')"
    using assms(1) by (simp_all add: treeless_def d' upd_gs_def)
qed

lemma treeless_upd:
  assumes "treeless d0 d"
  shows "treeless d0 (upd_gs (upd_irq r (\<lambda>ii. ii\<lparr>itype := a\<rparr>)) d)"
    "treeless d0 (upd_gs (upd_irq r (\<lambda>ii. ii\<lparr>itype := a, iclass := b\<rparr>)) d)"
    "treeless d0 (upd_gs (upd_irq r (\<lambda>ii. ii\<lparr>level := c\<rparr>)) d)"
    "treeless d0 (upd_gs (upd_irq r (\<lambda>_. zero_irq)) d)"
proof -
  have upd: "treeless d0 (upd_gs (upd_irq r f) d)"
    if "wf_mask (affinity_hint (f (irqs (gs d) r)))" "numa_node (f (irqs (gs d) r)) \<in> {numa_node (irqs (gs d) r), None}" for f
  proof -
    have "hints_wf ((gs d)\<lparr>irqs := (irqs (gs d))(r := f (irqs (gs d) r))\<rparr>)"
      using assms that(1) by (simp add: treeless_def hints_wf_def)
    moreover have "\<forall>i \<in> set (interrupts_db (gs d)). node_known (gs d) (((irqs (gs d))(r := f (irqs (gs d) r))) i)"
      using assms that(2) by (auto simp: treeless_def node_known_def)
    ultimately show ?thesis using assms by (simp add: treeless_def upd_gs_def upd_irq_def)
  qed
  have "wf_mask (affinity_hint (irqs (gs d) r))" using assms by (simp add: treeless_def hints_wf_def)
  then show "treeless d0 (upd_gs (upd_irq r (\<lambda>ii. ii\<lparr>itype := a\<rparr>)) d)"
    "treeless d0 (upd_gs (upd_irq r (\<lambda>ii. ii\<lparr>itype := a, iclass := b\<rparr>)) d)"
    "treeless d0 (upd_gs (upd_irq r (\<lambda>ii. ii\<lparr>level := c\<rparr>)) d)"
    "treeless d0 (upd_gs (upd_irq r (\<lambda>_. zero_irq)) d)"
    by (intro upd; simp add: zero_irq_def)+
qed

lemma zero_irq_fine: "wf_mask (affinity_hint zero_irq)" "node_known s zero_irq"
  by (simp_all add: zero_irq_def node_known_def)

lemma treeless_ban:
  assumes "treeless d0 d"
  shows "treeless d0 (add_banned_irq n Banned d)"
proof (cases "find_irq (gs d) n (banned_irqs (gs d))")
  case None
  let ?ii = "zero_irq\<lparr>irq := n, flags := IRQ_FLAG_BANNED, hint_policy := HINT_POLICY_EXACT\<rparr>"
  obtain r d' where a: "alloc_irq ?ii d = (r, d')" by fastforce
  have "treeless d0 (upd_gs (\<lambda>s. s\<lparr>banned_irqs := banned_irqs (gs d') @ [r]\<rparr>) d')"
    by (rule treeless_alloc(3) [OF assms a]) (simp_all add: zero_irq_def node_known_def)
  with None a show ?thesis by (simp add: add_banned_irq_def upd_gs_def)
qed (use assms in \<open>simp add: add_banned_irq_def\<close>)

lemma get_numa_node_listed:
  "get_numa_node s n = Some nd \<Longrightarrow> unspecified_node \<in> set (numa_nodes s) \<Longrightarrow> nd \<in> set (numa_nodes s)"
  by (auto simp: get_numa_node_def split: if_splits dest: find_set)

lemma new_irq_info_fine:
  assumes "unspecified_node \<in> set (numa_nodes s)"
  shows "wf_mask (affinity_hint (new_irq_info env s path n pol cl))" "node_known s (new_irq_info env s path n pol cl)"
proof -
  have clear: "wf_mask cpus_clear" by (simp add: cpus_simps)
  show "wf_mask (affinity_hint (new_irq_info env s path n pol cl))"
    using wf_mask_read [OF clear clear] by (simp add: new_irq_info_def Let_def)
  show "node_known s (new_irq_info env s path n pol cl)"
    using get_numa_node_listed [OF _ assms] by (auto simp: new_irq_info_def Let_def node_known_def)
qed

text \<open>Until the end of the section the unspecified node is in its list.\<close>

definition fills :: "daemon \<Rightarrow> daemon \<Rightarrow> bool" where
  "fills d0 d \<longleftrightarrow> treeless d0 d \<and> unspecified_node \<in> set (numa_nodes (gs d))"

lemma bare_numa:
  assumes "bare s = bare t"
  shows "numa_nodes s = numa_nodes t"
proof -
  have "numa_nodes (bare s) = numa_nodes (bare t)" by (simp only: assms)
  then show ?thesis by (simp add: bare_def)
qed

lemma fills_treeless:
  assumes "fills d0 d" "treeless d0 d'"
  shows "fills d0 d'"
  using assms bare_numa [of "gs d'" "gs d"] by (simp add: fills_def treeless_def)

lemma fills_add_one:
  assumes "fills d0 d" "add_one_irq_to_db env path n pol d = Some (res, d')"
  shows "fills d0 d'"
proof (cases "d' = d")
  case False
  then obtain cl r d1 where a: "alloc_irq (new_irq_info env (gs d) path n pol cl) d = (r, d1)"
    "d' = upd_gs (\<lambda>s. s\<lparr>interrupts_db := interrupts_db s @ [r]\<rparr>) d1"
    using assms(2) by (auto simp: add_one_irq_to_db_def Let_def split: if_splits option.splits prod.splits)
  have t: "treeless d0 d" and u: "unspecified_node \<in> set (numa_nodes (gs d))" using assms(1) by (simp_all add: fills_def)
  have "treeless d0 d'"
    unfolding a(2) by (rule treeless_alloc(2) [OF t a(1) new_irq_info_fine [OF u]])
  then show ?thesis by (rule fills_treeless [OF assms(1)])
qed (use assms in simp)

lemma fills_ban: "fills d0 d \<Longrightarrow> fills d0 (add_banned_irq n Banned d)"
  using fills_treeless treeless_ban by (metis fills_def)

lemma fills_add_dev:
  assumes "fills d0 d" "add_dev_irq env path bpath ty n d = Some d'"
  shows "fills d0 d'"
  using assms fills_ban [OF assms(1)] fills_add_one [OF assms(1)]
    fills_treeless [OF _ treeless_upd(1)] unfolding add_dev_irq_def Let_def
  by (auto simp: fills_def split: if_splits option.splits)

lemma fills_build_dev:
  assumes "fills d0 d" "build_one_dev_entry env e d = Some d'"
  shows "fills d0 d'"
proof -
  obtain name dd where e: "e = (name, dd)" by force
  show ?thesis
  proof (cases "msi_irqs dd")
    case (Some names)
    with assms(2) have "for_each (\<lambda>nm. add_dev_irq env (SYSDEV_DIR @ ''/'' @ name) (SYSDEV_DIR @ ''/'' @ name) IRQ_TYPE_MSIX (strtol_int nm)) names d = Some d'"
      by (simp add: build_one_dev_entry_def Let_def e)
    then show ?thesis
      by (rule for_each_keeps [where P = "fills d0"]) (use assms(1) fills_add_dev in blast)+
  next
    case None
    then show ?thesis
      using assms fills_add_dev [OF assms(1)] by (auto simp: build_one_dev_entry_def Let_def e split: option.splits)
  qed
qed

lemma fills_add_missing:
  assumes "fills d0 d" "add_missing_irq env i d = Some d'"
  shows "fills d0 d'"
proof (cases "d' = d")
  case False
  let ?n = "irq (irqs (gs d) i)" and ?pol = "get_irq_user_policy env d ''/sys'' (irq (irqs (gs d) i))"
  let ?res = "if ban ?pol = 1 \<or> check_for_irq_ban env d None ?n
    then (let d = add_banned_irq ?n Banned d in Some (get_irq_info (gs d) ?n, d))
    else add_one_irq_to_db env ''/sys'' ?n ?pol d"
  have new: "add_new_irq env ?n (Some i) d = Some d'" "get_irq_info (gs d) ?n = None"
    using assms(2) False by (auto simp: add_missing_irq_def Let_def split: if_splits)
  then obtain r d1 where res: "?res = Some (r, d1)"
    unfolding add_new_irq_def Let_def by (auto split: if_splits option.splits)
  then have d1: "fills d0 d1"
    using fills_ban [OF assms(1)] fills_add_one [OF assms(1)] by (auto split: if_splits simp: Let_def)
  show ?thesis
  proof (cases r)
    case None
    then show ?thesis using new res d1 unfolding add_new_irq_def Let_def [of ?pol] Let_def [of ?res] by simp
  next
    case (Some x)
    have u: "\<exists>a b c. d' = upd_gs (upd_irq x (\<lambda>ii. ii\<lparr>level := c\<rparr>)) (upd_gs (upd_irq x (\<lambda>ii. ii\<lparr>itype := a, iclass := b\<rparr>)) d1)"
      using new Some res unfolding add_new_irq_def Let_def [of ?pol] Let_def [of ?res]
      by (auto simp: Let_def upd_gs_def split: if_splits)
    from d1 have "treeless d0 d1" by (simp add: fills_def)
    then have "treeless d0 d'" using u treeless_upd(2,3) by blast
    then show ?thesis by (rule fills_treeless [OF assms(1)])
  qed
qed (use assms in simp)

lemma fills_collect:
  assumes "fills d0 d" "collect_full_irq_list f d = Some (tmp, d')"
  shows "fills d0 d'"
proof (cases f)
  case (Some ls)
  let ?P = "\<lambda>st. \<forall>tmp d. st = Some (tmp, d) \<longrightarrow> fills d0 d"
  have "?P (skip_header collect_line ls (Some ([], d)))"
  proof (rule skip_header_keeps [where P = ?P])
    fix l st go buf st' assume p: "?P st" and l: "collect_line l st = (go, buf, st')"
    have new: "fills d0 d2" if "alloc_irq (zero_irq\<lparr>irq := a, itype := b, iclass := c, hint_policy := h\<rparr>) d1 = (r, d2)" "fills d0 d1"
      for a b c h d1 r d2
    proof -
      have "treeless d0 d2"
        by (rule treeless_alloc(1) [OF _ that(1)]) (use that(2) in \<open>simp_all add: fills_def zero_irq_def node_known_def\<close>)
      then show ?thesis by (rule fills_treeless [OF that(2)])
    qed
    show "?P st'"
      using p l new unfolding collect_line_def Let_def
      by (cases st) (auto split: if_splits option.splits prod.splits)
  qed (use assms(1) in simp)
  with assms(2) Some show ?thesis by (simp add: collect_full_irq_list_def)
qed (use assms in \<open>simp add: collect_full_irq_list_def\<close>)

lemma fills_free_irqs: "fills d0 d \<Longrightarrow> fills d0 (free_irqs is d)"
proof (induction "is" arbitrary: d)
  case (Cons i js)
  have "fills d0 (upd_gs (upd_irq i (\<lambda>_. zero_irq)) d)"
    by (rule fills_treeless [OF Cons.prems treeless_upd(4)]) (use Cons.prems in \<open>simp add: fills_def\<close>)
  with Cons.IH show ?case by (simp add: free_irqs_def)
qed (simp add: free_irqs_def)

lemma free_irq_db_value:
  "free_irq_db dm = Some (upd_gs (\<lambda>s. s\<lparr>rebalance_irq_list := []\<rparr>) (upd_gs (\<lambda>s. s\<lparr>banned_irqs := []\<rparr>)
     (free_irqs (banned_irqs (gs dm)) (upd_gs (\<lambda>s. s\<lparr>interrupts_db := []\<rparr>) (free_irqs (interrupts_db (gs dm)) dm)))))"
proof -
  let ?d1 = "upd_gs (\<lambda>s. s\<lparr>interrupts_db := []\<rparr>) (free_irqs (interrupts_db (gs dm)) dm)"
  have "interrupts_db (gs ?d1) = []" "banned_irqs (gs ?d1) = banned_irqs (gs dm)"
    by (simp_all add: upd_gs_def free_irqs_gs)
  then show ?thesis
    unfolding free_irq_db_def for_each_irq_def Let_def
    by (cases "banned_irqs (gs dm)") (simp_all add: free_irq_loop free_irqs_def)
qed

lemma free_irqs_modes:
  "keep_going (free_irqs is dm) = keep_going dm" "one_shot_mode (free_irqs is dm) = one_shot_mode dm"
  "next_obj (free_irqs is dm) = next_obj dm"
  by (induction "is" arbitrary: dm) (simp_all add: free_irqs_def upd_gs_def)

lemma fills_free_db:
  assumes "hints_wf (gs dm)" "free_irq_db dm = Some d1" "unspecified_node \<in> set (numa_nodes (gs dm))"
  shows "fills dm d1"
proof -
  have "hints_wf (gs d1)"
    using assms(1,2) by (auto simp: free_irq_db_value upd_gs_def free_irqs_gs hints_wf_def zero_irq_def)
  moreover have "bare (gs d1) = bare (gs dm)" "interrupts_db (gs d1) = []" "numa_nodes (gs d1) = numa_nodes (gs dm)"
    using assms(2) by (auto simp: free_irq_db_value upd_gs_def free_irqs_gs)
  moreover have "keep_going d1 = keep_going dm" "one_shot_mode d1 = one_shot_mode dm" "next_obj d1 = next_obj dm"
    using assms(2) by (auto simp: free_irq_db_value upd_gs_def free_irqs_modes)
  ultimately show ?thesis using assms(3) by (simp add: fills_def treeless_def)
qed

lemma rebuild_fills:
  assumes "hints_wf (gs dm)" "unspecified_node \<in> set (numa_nodes (gs dm))" "rebuild_irq_db env f dev dm = Some dm'"
  shows "fills dm dm'"
proof -
  let ?dev = "\<lambda>tmp d. case dev of None \<Rightarrow> Some d | Some es \<Rightarrow> do {
        dm \<leftarrow> for_each (build_one_dev_entry env) es d;
        for_each_irq (gs dm) tmp (add_missing_irq env) dm }"
  obtain d1 tmp d2 where d12: "free_irq_db dm = Some d1" "collect_full_irq_list f d1 = Some (tmp, d2)"
    and rest: "Option.bind (?dev tmp d2) (\<lambda>dm. Some (free_irqs tmp dm)) = Some dm'"
    using assms(3) unfolding rebuild_irq_db_def bind_eq_Some_conv [of "free_irq_db dm"]
      bind_eq_Some_conv [of "collect_full_irq_list _ _"] by auto
  from rest obtain d3 where "?dev tmp d2 = Some d3" "dm' = free_irqs tmp d3"
    unfolding bind_eq_Some_conv by blast
  note d = d12 this
  have d2: "fills dm d2" using fills_collect [OF fills_free_db [OF assms(1) d(1) assms(2)] d(2)] .
  have "fills dm d3"
  proof (cases dev)
    case (Some es)
    with d(3) obtain e where e: "for_each (build_one_dev_entry env) es d2 = Some e"
      "for_each_irq (gs e) tmp (add_missing_irq env) e = Some d3" by (auto simp: bind_eq_Some_conv)
    have "fills dm e"
      by (rule for_each_keeps [OF e(1), where P = "fills dm"]) (use d2 fills_build_dev in blast)+
    then show ?thesis
      using for_each_keeps [OF e(2) [unfolded for_each_irq_def], where P = "fills dm"] fills_add_missing by blast
  qed (use d(3) d2 in simp)
  then show ?thesis unfolding d(4) by (rule fills_free_irqs)
qed

end
