(* ===== verification/Irqbalance_Laws.thy ===== *)
theory Irqbalance_Laws
  imports Cycle_Frames
begin

text \<open>
  The invariant of the daemon, and the theorems on its start, a rescan, a pass and the loop.
\<close>

section \<open>The invariant\<close>

definition daemon_inv :: "daemon \<Rightarrow> bool" where
  "daemon_inv dm \<longleftrightarrow> tree_ok dm \<and> irqs_consistent (gs dm) \<and> live_ints (gs dm) \<and> listed (gs dm)
    \<and> bans_apart dm \<and> hints_wf (gs dm)"

lemma daemon_inv_same:
  assumes "daemon_inv dm" "same_daemon dm dm'"
  shows "daemon_inv dm'"
proof -
  have c: "same_cold (gs dm) (gs dm')" and n: "next_obj dm' = next_obj dm"
    using assms(2) by (simp_all add: same_daemon_def)
  have "tree_ok dm'" using tree_ok_cold [OF c n] assms(1) by (simp add: daemon_inv_def)
  moreover have "listed (gs dm')" using listed_cold [OF c] assms(1) by (simp add: daemon_inv_def)
  moreover have "hints_wf (gs dm')" "bans_apart dm'"
    using assms by (simp_all add: daemon_inv_def same_daemon_def hints_wf_def bans_apart_def same_cold_fields [OF c])
  ultimately show ?thesis using assms by (simp add: daemon_inv_def same_daemon_def)
qed

section \<open>Building the whole state\<close>

text \<open>What the files must be like for the construction not to fail.\<close>

definition machine_ok :: "machine \<Rightarrow> bool" where
  "machine_ok m \<longleftrightarrow> cpu_numbers_ok (sys_cpus m) \<and> classes_ok (irq_files m) \<and> lines_ok (interrupts_file m)"

text \<open>No tree and no interrupt, but for the ones banned on the command line.\<close>

definition blank :: "daemon \<Rightarrow> bool" where
  "blank dm \<longleftrightarrow> tree_empty dm \<and> interrupts_db (gs dm) = [] \<and> banned_irqs (gs dm) = []
    \<and> rebalance_irq_list (gs dm) = [] \<and> bans_apart dm \<and> hints_wf (gs dm)"

text \<open>The tree stands and no interrupt is assigned or pending.\<close>

definition unassigned :: "daemon \<Rightarrow> bool" where
  "unassigned dm \<longleftrightarrow> daemon_inv dm \<and> rebalance_irq_list (gs dm) = [] \<and> db_ok dm
    \<and> (\<forall>d. interrupts (objs (gs dm) d) = [])"

lemma build_object_tree_unassigned:
  assumes b: "blank dm" and m: "machine_ok m"
  shows "\<exists>dm'. build_object_tree m dm = Some dm' \<and> unassigned dm'
    \<and> keep_going dm' = keep_going dm \<and> one_shot_mode dm' = one_shot_mode dm"
proof -
  let ?n = "build_numa_node_list (sys_nodes m) dm"
  have e: "tree_empty dm" using b by (simp add: blank_def)
  have "irqless dm dm" using e by (simp add: irqless_def tree_empty_def)
  then have n: "irqless dm ?n" by (rule irqless_nodes)
  obtain d1 where d1: "parse_cpu_tree (sys_cpus m) ?n = Some d1" "tree_ok d1"
    using parse_cpu_tree_ok [OF build_numa_tree_ok(1) [OF e]] m by (auto simp: machine_ok_def)
  have i1: "irqless dm d1" by (rule irqless_parse [OF n d1(1)])
  have apart: "bans_apart d1" "hints_wf (gs d1)"
    using i1 b by (simp_all add: irqless_def blank_def bans_apart_def hints_wf_def)
  obtain d2 where d2: "rebuild_irq_db (irq_files m) (interrupts_file m) (sys_pci m) d1 = Some d2" "rebuilt d1 d2"
    using rebuild_irq_db_rebuilt [OF apart(1)] m unfolding machine_ok_def by metis
  have u: "unspecified_node \<in> set (numa_nodes (gs d1))"
    using d1(2) by (simp add: tree_ok_def tree_ok_but_def)
  have f: "fills d1 d2" by (rule rebuild_fills [OF apart(2) u d2(1)])
  have tree: "tree_ok d2"
  proof -
    have bare: "bare (gs d2) = bare (gs d1)" using f by (simp add: fills_def treeless_def)
    have "cpu_objs (bare (gs d2)) = cpu_objs (bare (gs d1))" "cache_domains (bare (gs d2)) = cache_domains (bare (gs d1))"
      "packages (bare (gs d2)) = packages (bare (gs d1))" "banned_cpus (bare (gs d2)) = banned_cpus (bare (gs d1))"
      by (simp_all only: bare)
    then have "cpu_objs (gs d2) = cpu_objs (gs d1)" "cache_domains (gs d2) = cache_domains (gs d1)"
      "packages (gs d2) = packages (gs d1)" "banned_cpus (gs d2) = banned_cpus (gs d1)"
      by (simp_all add: bare_def)
    moreover have "objs (gs d2) = objs (gs d1)" "numa_nodes (gs d2) = numa_nodes (gs d1)" "next_obj d2 = next_obj d1"
      using d2(2) by (simp_all add: rebuilt_def)
    ultimately show ?thesis
      using d1(2) by (simp add: tree_ok_def tree_ok_but_def links_ok_def typed_lists_def masks_unbanned_def load_order_def)
  qed
  have ok: "db_ok d2" using d2(2) by (simp add: rebuilt_def)
  have empty: "\<forall>d. interrupts (objs (gs d2) d) = []" "rebalance_irq_list (gs d2) = []"
    using d2(2) i1 by (simp_all add: rebuilt_def irqless_def)
  have "irqs_consistent (gs d2)"
    using ok empty by (auto simp: irqs_consistent_def db_ok_def db_ok_with_def Let_def db_irq_ok_def intro: inj_on_subset)
  moreover have "listed (gs d2)"
    using f tree by (auto simp: listed_def fills_def treeless_def node_known_def tree_ok_def tree_ok_but_def links_ok_def)
  moreover have "hints_wf (gs d2)" using f by (simp add: fills_def treeless_def)
  ultimately have "unassigned d2"
    using tree ok empty db_ok_bans_apart [OF ok] by (simp add: unassigned_def daemon_inv_def live_ints_def)
  moreover have "build_object_tree m dm = Some d2" by (simp add: build_object_tree_def d1(1) d2(1))
  moreover have "keep_going d2 = keep_going dm" "one_shot_mode d2 = one_shot_mode dm"
    using f i1 by (simp_all add: fills_def treeless_def irqless_def)
  ultimately show ?thesis by blast
qed

section \<open>Freeing the whole state\<close>

lemma free_tree_irqs:
  "interrupts_db (gs (free_tree dm)) = interrupts_db (gs dm)" "banned_irqs (gs (free_tree dm)) = banned_irqs (gs dm)"
  "irqs (gs (free_tree dm)) = irqs (gs dm)" "cl_banned_irqs (free_tree dm) = cl_banned_irqs dm"
  "next_irq (free_tree dm) = next_irq dm" "keep_going (free_tree dm) = keep_going dm"
  "one_shot_mode (free_tree dm) = one_shot_mode dm"
proof -
  have objs: "cl_banned_irqs (free_objs ds d) = cl_banned_irqs d \<and> next_irq (free_objs ds d) = next_irq d
      \<and> keep_going (free_objs ds d) = keep_going d \<and> one_shot_mode (free_objs ds d) = one_shot_mode d" for ds d
    by (induction ds arbitrary: d) (simp_all add: free_objs_def upd_gs_def)
  have nodes: "cl_banned_irqs (fold free_numa_node ds d) = cl_banned_irqs d \<and> next_irq (fold free_numa_node ds d) = next_irq d
      \<and> keep_going (fold free_numa_node ds d) = keep_going d \<and> one_shot_mode (fold free_numa_node ds d) = one_shot_mode d" for ds d
    by (induction ds arbitrary: d) (simp_all add: free_numa_node_def upd_gs_def)
  show "interrupts_db (gs (free_tree dm)) = interrupts_db (gs dm)" "banned_irqs (gs (free_tree dm)) = banned_irqs (gs dm)"
    "irqs (gs (free_tree dm)) = irqs (gs dm)" "cl_banned_irqs (free_tree dm) = cl_banned_irqs dm"
    "next_irq (free_tree dm) = next_irq dm" "keep_going (free_tree dm) = keep_going dm"
    "one_shot_mode (free_tree dm) = one_shot_mode dm"
    by (simp_all add: free_tree_def clear_cpu_tree_def free_numa_node_list_def upd_gs_def
        free_nodes_gs free_objs_gs Let_def objs nodes)
qed

lemma free_object_tree_blank:
  assumes "daemon_inv dm"
  shows "\<exists>dm'. free_object_tree dm = Some dm' \<and> blank dm'
    \<and> keep_going dm' = keep_going dm \<and> one_shot_mode dm' = one_shot_mode dm"
proof -
  let ?t = "free_tree dm"
  have te: "tree_empty ?t"
    by (rule free_tree_empty) (use assms in \<open>auto simp: daemon_inv_def live_ints_def\<close>)
  have apart: "bans_apart ?t" "hints_wf (gs ?t)"
    using assms by (simp_all add: daemon_inv_def bans_apart_def hints_wf_def free_tree_irqs)
  obtain d where d: "free_irq_db ?t = Some d" "db_emptied ?t d" using free_irq_db_empties [OF apart(1)] by blast
  have "tree_empty d" using te d(2) by (simp add: tree_empty_def db_emptied_def)
  moreover have "hints_wf (gs d)"
    using apart(2) d(1) by (auto simp: free_irq_db_value upd_gs_def free_irqs_gs hints_wf_def zero_irq_def)
  moreover have "keep_going d = keep_going dm" "one_shot_mode d = one_shot_mode dm"
    using d(1) by (auto simp: free_irq_db_value upd_gs_def free_irqs_modes free_tree_irqs)
  ultimately show ?thesis
    using d db_ok_bans_apart by (auto simp: blank_def db_emptied_def free_object_tree_def free_tree_def)
qed

section \<open>Everything is pending\<close>

lemma force_loop:
  assumes "\<forall>i \<in> set xs. assigned_obj (irqs s i) = None"
  shows "for_each force_rebalance_irq xs s =
    Some (s\<lparr>rebalance_irq_list := rebalance_irq_list s @ filter (\<lambda>i. level (irqs s i) \<noteq> BALANCE_NONE) xs\<rparr>)"
  using assms
proof (induction xs arbitrary: s)
  case (Cons i xs)
  show ?case
  proof (cases "level (irqs s i) = BALANCE_NONE")
    case False
    have "(irqs s i)\<lparr>assigned_obj := None\<rparr> = irqs s i" using Cons.prems by simp
    then have "force_rebalance_irq i s = Some (s\<lparr>rebalance_irq_list := rebalance_irq_list s @ [i]\<rparr>)"
      using False Cons.prems by (simp add: force_rebalance_irq_def set_assigned_def upd_irq_def fun_upd_idem)
    with False Cons show ?thesis by simp
  qed (use Cons in \<open>simp add: force_rebalance_irq_def\<close>)
qed simp

definition all_pending :: "daemon \<Rightarrow> bool" where
  "all_pending dm \<longleftrightarrow> daemon_inv dm \<and> (\<forall>i. place_of (gs dm) i =
     (if i \<in> set (interrupts_db (gs dm)) \<and> level (irqs (gs dm) i) \<noteq> BALANCE_NONE then Pending else Nowhere))"

lemma force_rebalance_pending:
  assumes "unassigned dm"
  shows "\<exists>dm'. force_rebalance dm = Some dm' \<and> all_pending dm'
    \<and> keep_going dm' = keep_going dm \<and> one_shot_mode dm' = one_shot_mode dm"
proof -
  let ?s = "gs dm"
  let ?l = "filter (\<lambda>i. level (irqs ?s i) \<noteq> BALANCE_NONE) (interrupts_db ?s)"
  have none: "\<forall>i \<in> set (interrupts_db ?s). assigned_obj (irqs ?s i) = None"
    using assms by (auto simp: unassigned_def db_ok_def db_ok_with_def Let_def db_irq_ok_def)
  have inv: "daemon_inv dm" and reb: "rebalance_irq_list ?s = []" using assms by (simp_all add: unassigned_def)
  have c: "irqs_consistent ?s" using inv by (simp add: daemon_inv_def)
  let ?d = "dm\<lparr>gs := ?s\<lparr>rebalance_irq_list := ?l\<rparr>\<rparr>"
  have f: "force_rebalance dm = Some ?d"
    using force_loop [OF none] reb by (simp add: force_rebalance_def for_each_irq_def)
  have "irqs_consistent (gs ?d)" using c none by (auto simp: irqs_consistent_def)
  moreover have "live_ints ?s \<Longrightarrow> live_ints (gs ?d)" by (simp add: live_ints_def load_order_def)
  ultimately have "same_daemon dm ?d" using same_cold_upd(6) by (simp add: same_daemon_def)
  then have "daemon_inv ?d" by (rule daemon_inv_same [OF inv])
  moreover have "i \<notin> set (interrupts (objs ?s d))" for i d
    using assms by (simp add: unassigned_def)
  then have "place_of (gs ?d) i = (if i \<in> set (interrupts_db ?s) \<and> level (irqs ?s i) \<noteq> BALANCE_NONE then Pending else Nowhere)" for i
    using none by (simp add: place_of_def)
  ultimately show ?thesis using f by (simp add: all_pending_def)
qed

section \<open>The two halves of a pass\<close>

lemma rescan_inv:
  assumes inv: "daemon_inv dm" and m: "machine_ok (rescan_now inp)" and r: "rescan inp dm = Some dm'"
  shows "daemon_inv dm' \<and> one_shot_mode dm' = one_shot_mode dm \<and> (\<not> keep_going dm \<longrightarrow> \<not> keep_going dm')"
proof -
  let ?d0 = "upd_gs (\<lambda>s. s\<lparr>cycle_count := 0\<rparr>) (dm\<lparr>need_rescan := False\<rparr>)"
  have lists: "irqs_consistent (s\<lparr>cycle_count := 0\<rparr>) = irqs_consistent s" "live_ints (s\<lparr>cycle_count := 0\<rparr>) = live_ints s" for s
    by (simp_all add: irqs_consistent_def live_ints_def load_order_def)
  have s0: "same_daemon dm ?d0"
    using same_cold_upd(5) by (simp add: same_daemon_def upd_gs_def lists)
  have d0: "daemon_inv ?d0" by (rule daemon_inv_same [OF inv s0])
  obtain d1 where d1: "clear_stats ?d0 = Some d1" "same_daemon ?d0 d1"
    using clear_stats_same d0 by (metis daemon_inv_def)
  obtain d2 where d2: "free_object_tree d1 = Some d2" "blank d2" "keep_going d2 = keep_going d1" "one_shot_mode d2 = one_shot_mode d1"
    using free_object_tree_blank [OF daemon_inv_same [OF d0 d1(2)]] by blast
  obtain d3 where d3: "build_object_tree (rescan_now inp) d2 = Some d3" "unassigned d3"
    "keep_going d3 = keep_going d2" "one_shot_mode d3 = one_shot_mode d2"
    using build_object_tree_unassigned [OF d2(2) m] by blast
  obtain d4 where d4: "force_rebalance d3 = Some d4" "all_pending d4"
    "keep_going d4 = keep_going d3" "one_shot_mode d4 = one_shot_mode d3"
    using force_rebalance_pending [OF d3(2)] by blast
  have i4: "daemon_inv d4" using d4(2) by (simp add: all_pending_def)
  obtain d5 where d5: "read_stats (rescan_now inp) d4 = Some d5"
    using r by (auto simp: rescan_def d1(1) d2(1) d3(1) d4(1) bind_eq_Some_conv)
  let ?d6 = "fold deliver (rescan_signals inp) d5"
  have s6: "same_daemon d4 ?d6" using same_daemon_trans [OF read_stats_same [OF d5] deliver_all_same] .
  obtain d7 where d7: "clear_stats ?d6 = Some d7" "same_daemon ?d6 d7"
    using clear_stats_same daemon_inv_same [OF i4 s6] by (metis daemon_inv_def)
  have d8: "read_stats (rescan_later inp) d7 = Some dm'"
    using r by (simp add: rescan_def d1(1) d2(1) d3(1) d4(1) d5 d7(1))
  have s8: "same_daemon d4 dm'"
    using same_daemon_trans [OF same_daemon_trans [OF s6 d7(2)] read_stats_same [OF d8]] .
  show ?thesis
    using daemon_inv_same [OF i4 s8] s8 s0 d1(2) d2(3,4) d3(3,4) d4(3,4) by (auto simp: same_daemon_def)
qed

lemma measure_cycle_inv:
  assumes inv: "daemon_inv dm" and m: "machine_ok (rescan_now inp)" and r: "measure_cycle inp dm = Some dm'"
  shows "daemon_inv dm'" "one_shot_mode dm' = one_shot_mode dm"
    "\<not> keep_going dm \<or> SIGINT \<in> set (signals inp) \<Longrightarrow> \<not> keep_going dm'"
proof -
  let ?d0 = "fold deliver (signals inp) dm"
  have s0: "same_daemon dm ?d0" by (rule deliver_all_same)
  obtain d1 where d1: "clear_stats ?d0 = Some d1" "same_daemon ?d0 d1"
    using clear_stats_same daemon_inv_same [OF inv s0] by (metis daemon_inv_def)
  obtain d2 where d2: "read_stats (now inp) d1 = Some d2"
    "(if need_rescan d2 then rescan inp d2 else Some d2) = Some dm'"
    using r unfolding measure_cycle_def Let_def by (auto simp: d1(1) bind_eq_Some_conv)
  have s2: "same_daemon ?d0 d2" by (rule same_daemon_trans [OF d1(2) read_stats_same [OF d2(1)]])
  have i2: "daemon_inv d2" by (rule daemon_inv_same [OF inv same_daemon_trans [OF s0 s2]])
  have "daemon_inv dm' \<and> one_shot_mode dm' = one_shot_mode d2 \<and> (\<not> keep_going d2 \<longrightarrow> \<not> keep_going dm')"
    using rescan_inv [OF i2 m] d2(2) i2 by (cases "need_rescan d2") auto
  then show "daemon_inv dm'" "one_shot_mode dm' = one_shot_mode dm"
    "\<not> keep_going dm \<or> SIGINT \<in> set (signals inp) \<Longrightarrow> \<not> keep_going dm'"
    using s0 s2 deliver_all_ends by (auto simp: same_daemon_def)
qed

text \<open>
  What the balancing half needs of the state: every interrupt has a NUMA node, and the loads leave
  room for the ones that are added while interrupts are placed.
\<close>

definition room :: "gstate \<Rightarrow> bool" where
  "room s \<longleftrightarrow> (\<forall>i \<in> set (interrupts_db s). numa_node (irqs s i) \<noteq> None)
    \<and> headroom ((1 + length (numa_nodes s) + length (packages s) + length (cache_domains s))
        * list_cost s (interrupts_db s)) s"

lemma room_same:
  assumes "same_loads s s'" "room s"
  shows "room s'"
proof -
  have c: "same_cold s s'" using assms(1) by (simp add: same_loads_def)
  have "list_cost s' = list_cost s"
    using assms(1) by (simp add: fun_eq_iff list_cost_def irq_cost_def [abs_def] same_loads_def)
  then show ?thesis
    using assms by (simp add: room_def headroom_def same_loads_def same_cold_fields [OF c])
qed

definition wants_place :: "gstate \<Rightarrow> iref \<Rightarrow> bool" where
  "wants_place s i \<longleftrightarrow> place_of s i \<noteq> Nowhere \<and> own_node_usable s i
    \<and> \<not> (level (irqs s i) = BALANCE_NONE \<and> cpus_empty (banned_cpus s))"

definition in_tree :: "gstate \<Rightarrow> iref \<Rightarrow> bool" where
  "in_tree s i \<longleftrightarrow> (\<exists>d \<in> set (load_order s). place_of s i = At d)"

lemma at_in_tree:
  assumes "irqs_consistent s" "live_ints s" "place_of s i = At d"
  shows "in_tree s i"
proof -
  have "i \<in> set (interrupts (objs s d))" using in_list_iff [OF assms(1), of i "ObjInts d"] assms(3) by simp
  then have "interrupts (objs s d) \<noteq> []" by auto
  with assms(2,3) show ?thesis by (auto simp: in_tree_def live_ints_def)
qed

text \<open>The load balancing step of a pass, left out in the first one.\<close>

lemma migrate_step:
  assumes "daemon_inv dm" "room (gs dm)"
  shows "\<exists>s. (if cycle_count (gs dm) \<noteq> 0 then update_migration_status (gs dm) else Some (gs dm)) = Some s
    \<and> same_loads (gs dm) s \<and> irqs_consistent s \<and> live_ints s
    \<and> (\<forall>i. place_of s i = place_of (gs dm) i \<or> place_of s i = Pending)
    \<and> (\<forall>i. place_of s i = Nowhere \<longleftrightarrow> place_of (gs dm) i = Nowhere)"
proof (cases "cycle_count (gs dm) = 0")
  case True
  then show ?thesis using assms(1) by (simp add: same_loads_def daemon_inv_def)
next
  case False
  have c: "irqs_consistent (gs dm)" and l: "live_ints (gs dm)" using assms(1) by (simp_all add: daemon_inv_def)
  obtain s where s: "update_migration_status (gs dm) = Some s" "evicted_from (gs dm) s" "same_loads (gs dm) s"
    using update_migration_status_frame [OF c] by blast
  have "load_order s = load_order (gs dm)" using s(3) by (intro load_order_cold) (simp add: same_loads_def)
  from live_ints_evicted [OF s(2) c this l] s False irq_steps_conserve [of "place_of (gs dm)" "place_of s"]
  show ?thesis by (auto simp: evicted_from_def)
qed

lemma activate_step:
  assumes "irqs_consistent s" "masks_ok s" "length (stack_buf fs) = 4096"
  shows "\<exists>s' out. activate_mappings fs s = Some (s', out) \<and> same_lists s s'
    \<and> (\<forall>(n, t) \<in> set out. \<exists>m. cpumask_parse_user t CPU_MASK_NONE = (0, m)) \<and> cycle_count s' = cycle_count s"
proof -
  have "distinct (interrupts_db s)" using assms(1) by (simp add: irqs_consistent_def)
  from activate_mappings_inv [OF this assms(3)] obtain s' out I where
    a: "activate_mappings fs s = Some (s', out)"
    and s': "s' = s\<lparr>irqs := \<lambda>i. if i \<in> I then (irqs s i)\<lparr>moved := False\<rparr> else irqs s i\<rparr>"
    and out: "set out = {(irq (irqs s i), mask_text m) |i m. i \<in> I \<and> due fs s i m}"
    by (auto simp: act_inv_def)
  have "same_lists s s'" by (simp add: s' same_lists_def same_cold_def cold_def fun_eq_iff)
  moreover have "cpumask_parse_user (mask_text m) CPU_MASK_NONE = (0, m)" if "due fs s i m" for i m
    using that mask_to_apply_wf [OF assms(2)] printed_parses by (auto simp: due_def mask_text_def)
  then have "\<forall>(n, t) \<in> set out. \<exists>m. cpumask_parse_user t CPU_MASK_NONE = (0, m)" by (auto simp: out)
  moreover have "cycle_count s' = cycle_count s" by (simp add: s')
  ultimately show ?thesis using a by blast
qed

lemma same_tree_count: "same_tree s s' \<Longrightarrow> cycle_count s' = cycle_count s"
proof -
  assume "same_tree s s'"
  then have "cycle_count (strip_load s') = cycle_count (strip_load s)" by (simp add: same_tree_def)
  then show ?thesis by (simp add: strip_load_def strip_def)
qed

lemma place_same_lists: "same_lists s s' \<Longrightarrow> place_of s' = place_of s"
  by (auto simp: same_lists_def place_of_def fun_eq_iff same_cold_fields [of s s'])

lemma balance_places:
  assumes inv: "daemon_inv dm" and room: "room (gs dm)" and buf: "length (stack_buf fs) = 4096"
  shows "\<exists>dm' out. balance_cycle fs dm = Some (dm', out) \<and> daemon_inv dm'
    \<and> cycle_count (gs dm') = cycle_count (gs dm) + 1
    \<and> keep_going dm' = (keep_going dm \<and> \<not> one_shot_mode dm) \<and> one_shot_mode dm' = one_shot_mode dm
    \<and> (\<forall>i. place_of (gs dm') i = Nowhere \<longleftrightarrow> place_of (gs dm) i = Nowhere)
    \<and> (\<forall>i. wants_place (gs dm) i \<longrightarrow> in_tree (gs dm') i)
    \<and> (\<forall>(n, t) \<in> set out. \<exists>m. cpumask_parse_user t CPU_MASK_NONE = (0, m))"
proof -
  let ?s = "gs dm"
  obtain s1 where s1: "(if cycle_count ?s \<noteq> 0 then update_migration_status ?s else Some ?s) = Some s1"
    "same_loads ?s s1" "irqs_consistent s1" "live_ints s1"
    "\<forall>i. place_of s1 i = place_of ?s i \<or> place_of s1 i = Pending"
    "\<forall>i. place_of s1 i = Nowhere \<longleftrightarrow> place_of ?s i = Nowhere"
    using migrate_step [OF inv room] by blast
  have c1: "same_cold ?s s1" using s1(2) by (simp add: same_loads_def)
  have tree: "tree_ok dm" "listed ?s" "hints_wf ?s" using inv by (simp_all add: daemon_inv_def)
  have "d \<notin> set (children (objs s1 d))" for d
    using tree_ok_children [OF tree(1)] by (simp add: same_cold_fields [OF c1])
  then have pre: "placement_pre s1"
    using room_same [OF s1(2) room] s1(3) unfolding placement_pre_def room_def irqs_consistent_def by blast
  obtain s2 where s2: "calculate_placement s1 = Some s2" "placement_post s1 s2"
    using calculate_placement_post [OF pre] by blast
  have l1: "listed s1" using listed_cold [OF c1] tree(2) by simp
  have p2: "placed_in_tree s1 s2" by (rule calculate_placement_placed [OF s2(1) l1 s1(3)])
  have c2: "same_cold s1 s2" "irqs_consistent s2" "live_ints s2"
    using p2 s2(2) s1(4) same_coldI(3) by (auto simp: placed_in_tree_def placement_post_def)
  have "masks_ok s2"
    using tree same_cold_fields [OF same_cold_trans [OF c1 c2(1)]]
    by (simp add: masks_ok_def hints_wf_def tree_ok_def tree_ok_but_def masks_unbanned_def)
  from activate_step [OF c2(2) this buf] obtain s3 out where s3: "activate_mappings fs s2 = Some (s3, out)"
    "same_lists s2 s3" "\<forall>(n, t) \<in> set out. \<exists>m. cpumask_parse_user t CPU_MASK_NONE = (0, m)" "cycle_count s3 = cycle_count s2" by blast
  let ?s4 = "s3\<lparr>cycle_count := cycle_count s3 + 1\<rparr>"
  have s4: "same_lists s2 ?s4"
    by (rule same_lists_trans [OF s3(2)]) (simp add: same_lists_def same_cold_upd)
  define dm' where "dm' = upd_gs (\<lambda>s. s\<lparr>cycle_count := cycle_count s + 1\<rparr>)
    (if one_shot_mode dm then (dm\<lparr>gs := s3\<rparr>)\<lparr>keep_going := False\<rparr> else dm\<lparr>gs := s3\<rparr>)"
  have gs: "gs dm' = ?s4" "keep_going dm' = (keep_going dm \<and> \<not> one_shot_mode dm)" "one_shot_mode dm' = one_shot_mode dm"
    by (simp_all add: dm'_def upd_gs_def)
  have run: "balance_cycle fs dm = Some (dm', out)"
    unfolding balance_cycle_def by (simp add: s1(1) s2(1) s3(1) dm'_def)
  have cold: "same_cold ?s ?s4"
    using same_cold_trans [OF c1 same_cold_trans [OF c2(1)]] s4 by (simp add: same_lists_def)
  have cons: "irqs_consistent ?s4" "live_ints ?s4" "place_of ?s4 = place_of s2"
    using same_lists_consistent [OF s4] same_lists_live [OF s4] place_same_lists [OF s4] c2 by auto
  have "same_daemon dm dm'"
    using cold cons(1,2) by (simp add: same_daemon_def gs) (simp add: dm'_def upd_gs_def)
  then have "daemon_inv dm'" by (rule daemon_inv_same [OF inv])
  moreover have count: "cycle_count s3 = cycle_count ?s"
    using s3(4) same_tree_count [of s1 s2] p2 s1(2) by (simp add: same_loads_def placed_in_tree_def)
  moreover have "place_of ?s4 i = Nowhere \<longleftrightarrow> place_of ?s i = Nowhere" for i
    using s2(2) s1(6) irq_steps_conserve [of "place_of s1" "place_of s2"] by (simp add: cons(3) placement_post_def)
  moreover have "in_tree ?s4 i" if w: "wants_place ?s i" for i
  proof -
    have "placeable s1 i"
      using w by (simp add: wants_place_def placeable_def own_node_usable_def same_cold_fields [OF c1] split: option.splits)
    then have "place_of s2 i \<noteq> Pending" "place_of s2 i \<noteq> Nowhere"
      using s2(2) w s1(6) irq_steps_conserve [of "place_of s1" "place_of s2"]
      by (simp_all add: placement_post_def wants_place_def)
    then obtain d where "place_of ?s4 i = At d" unfolding cons(3) by (cases "place_of s2 i") auto
    with at_in_tree cons(1,2) show ?thesis by blast
  qed
  ultimately show ?thesis
    using run s3(3) by (intro exI [of _ dm'] exI [of _ out]) (simp add: gs)
qed

section \<open>The loop\<close>

text \<open>The input of a pass is fine when the measuring half returns and leaves room.\<close>

definition cycle_fine :: "cycle_input \<Rightarrow> daemon \<Rightarrow> bool" where
  "cycle_fine inp dm \<longleftrightarrow> machine_ok (rescan_now inp) \<and> length (stack_buf (affinity inp)) = 4096
    \<and> (\<exists>dm1. measure_cycle inp dm = Some dm1 \<and> room (gs dm1))"

fun run_fine :: "cycle_input list \<Rightarrow> daemon \<Rightarrow> bool" where
  "run_fine [] dm = True"
| "run_fine (inp # inps) dm = (keep_going dm \<longrightarrow> cycle_fine inp dm
     \<and> (\<forall>dm' out. main_cycle inp dm = Some (dm', out) \<longrightarrow> run_fine inps dm'))"

lemma main_cycle_inv:
  assumes "daemon_inv dm" "cycle_fine inp dm"
  shows "\<exists>dm' out. main_cycle inp dm = Some (dm', out) \<and> daemon_inv dm' \<and> one_shot_mode dm' = one_shot_mode dm
    \<and> (one_shot_mode dm \<or> SIGINT \<in> set (signals inp) \<longrightarrow> \<not> keep_going dm')"
proof -
  obtain d1 where d1: "measure_cycle inp dm = Some d1" "room (gs d1)" using assms(2) by (auto simp: cycle_fine_def)
  have m: "machine_ok (rescan_now inp)" "length (stack_buf (affinity inp)) = 4096" using assms(2) by (simp_all add: cycle_fine_def)
  note mc = measure_cycle_inv [OF assms(1) m(1) d1(1)]
  obtain d2 out where d2: "balance_cycle (affinity inp) d1 = Some (d2, out)" "daemon_inv d2"
    "keep_going d2 = (keep_going d1 \<and> \<not> one_shot_mode d1)" "one_shot_mode d2 = one_shot_mode d1"
    using balance_places [OF mc(1) d1(2) m(2)] by blast
  then show ?thesis using mc by (auto simp: main_cycle_def d1(1))
qed

lemma main_loop_runs:
  assumes "daemon_inv dm" "run_fine inps dm"
  shows "\<exists>r. main_loop inps dm = Some r \<and> (case r of
      Running dm' \<Rightarrow> daemon_inv dm' \<and> keep_going dm' \<and> (\<forall>inp \<in> set inps. SIGINT \<notin> set (signals inp))
        \<and> (one_shot_mode dm \<longrightarrow> inps = [])
    | Finished dm' \<Rightarrow> blank dm')"
  using assms
proof (induction inps arbitrary: dm)
  case Nil
  then show ?case
    using free_object_tree_blank [OF Nil.prems(1)] by (auto simp: main_loop.simps [of "[]" dm])
next
  case (Cons inp inps)
  show ?case
  proof (cases "keep_going dm")
    case False
    then show ?thesis
      using free_object_tree_blank [OF Cons.prems(1)] by (auto simp: main_loop.simps [of "inp # inps" dm])
  next
    case True
    then have "cycle_fine inp dm" using Cons.prems(2) by simp
    from main_cycle_inv [OF Cons.prems(1) this] obtain d out where d: "main_cycle inp dm = Some (d, out)"
      "daemon_inv d" "one_shot_mode d = one_shot_mode dm"
      "one_shot_mode dm \<or> SIGINT \<in> set (signals inp) \<longrightarrow> \<not> keep_going d" by blast
    have "run_fine inps d" using Cons.prems(2) True d(1) by simp
    from Cons.IH [OF d(2) this] obtain r where r: "main_loop inps d = Some r"
      "case r of Running dm' \<Rightarrow> daemon_inv dm' \<and> keep_going dm' \<and> (\<forall>inp \<in> set inps. SIGINT \<notin> set (signals inp))
        \<and> (one_shot_mode d \<longrightarrow> inps = []) | Finished dm' \<Rightarrow> blank dm'" by blast
    have step: "main_loop (inp # inps) dm = Some r" using True d(1) r(1) by (simp add: main_loop.simps [of "inp # inps"])
    have stop: "\<exists>dm'. r = Finished dm'" if "\<not> keep_going d"
      using that r(1) by (auto simp: main_loop.simps [of inps d])
    then show ?thesis using step r(2) d(3,4) by (cases "keep_going d") (auto split: outcome.splits)
  qed
qed

section \<open>Properties\<close>

text \<open>
  C19: From a state without a tree and without interrupts, building everything and forcing a
  rebalance finishes, when the files are sane, in a state that satisfies the invariant of the
  daemon (a well-formed tree, consistent lists, interrupts only at objects of the tree) and in
  which exactly the interrupts with a balance level are pending and none is assigned.
\<close>

theorem build_then_all_pending:
  assumes "blank dm" "machine_ok m"
  shows "\<exists>dm1 dm2. build_object_tree m dm = Some dm1 \<and> force_rebalance dm1 = Some dm2
    \<and> daemon_inv dm2 \<and> tree_ok dm2 \<and> irqs_consistent (gs dm2)
    \<and> (\<forall>i. place_of (gs dm2) i =
         (if i \<in> set (interrupts_db (gs dm2)) \<and> level (irqs (gs dm2) i) \<noteq> BALANCE_NONE then Pending else Nowhere))"
  using build_object_tree_unassigned [OF assms] force_rebalance_pending
  by (metis all_pending_def daemon_inv_def)

lemma start_blank: "blank start_daemon"
  using start_empty by (simp add: blank_def start_daemon_def sample_daemon_def start_state_def
      bans_apart_def hints_wf_def sample_state_def zero_irq_fine(1))

definition idle_machine :: machine where
  "idle_machine = \<lparr>sys_nodes = None, sys_cpus = None, sys_pci = None, interrupts_file = None, stat_file = None,
     irq_files = sample_env\<rparr>"

lemma idle_machine_ok: "machine_ok idle_machine"
  using sample_env_ok by (simp add: machine_ok_def idle_machine_def cpu_numbers_ok_def lines_ok_def)

theorem build_then_all_pending_witness:
  "\<exists>dm1 dm2. build_object_tree idle_machine start_daemon = Some dm1 \<and> force_rebalance dm1 = Some dm2 \<and> daemon_inv dm2"
  using build_then_all_pending [OF start_blank idle_machine_ok] by blast

text \<open>
  C2: The balancing half of a pass always returns when every interrupt has a NUMA node and the
  loads leave room. It keeps the invariant, loses and invents no interrupt, counts the cycle, ends
  the loop in one-shot mode, and every interrupt that was pending or assigned before it and whose
  own node has a CPU that is not banned sits at an object of the tree afterwards; every affinity
  text it writes is a valid mask.
\<close>

theorem balance_cycle_places:
  assumes "daemon_inv dm" "room (gs dm)" "length (stack_buf fs) = 4096"
  shows "\<exists>dm' out. balance_cycle fs dm = Some (dm', out) \<and> daemon_inv dm'
    \<and> cycle_count (gs dm') = cycle_count (gs dm) + 1 \<and> keep_going dm' = (keep_going dm \<and> \<not> one_shot_mode dm)
    \<and> (\<forall>i. place_of (gs dm') i = Nowhere \<longleftrightarrow> place_of (gs dm) i = Nowhere)
    \<and> (\<forall>i. wants_place (gs dm) i \<longrightarrow> (\<exists>d \<in> set (load_order (gs dm')). place_of (gs dm') i = At d))
    \<and> (\<forall>(n, t) \<in> set out. \<exists>m. cpumask_parse_user t CPU_MASK_NONE = (0, m))"
  using balance_places [OF assms] unfolding in_tree_def by blast


text \<open>Two nodes and one pending interrupt that comes from the second of them.\<close>

definition one_irq_daemon :: daemon where
  "one_irq_daemon = start_daemon\<lparr>next_obj := 2, next_irq := 2,
     gs := start_state\<lparr>objs := (\<lambda>_. zero_obj)(0 := unspecified_node_template,
         1 := zero_obj\<lparr>obj_type := OBJ_TYPE_NODE, mask := CPU_MASK_ALL\<rparr>),
       numa_nodes := [0, 1], unbanned_cpus := CPU_MASK_ALL, cycle_count := 1,
       irqs := (\<lambda>_. zero_irq)(1 := zero_irq\<lparr>irq := 9, level := BALANCE_CORE, numa_node := Some 1\<rparr>),
       interrupts_db := [1], rebalance_irq_list := [1]\<rparr>\<rparr>"

lemmas one_irq_defs = one_irq_daemon_def start_daemon_def sample_daemon_def start_state_def sample_state_def
  zero_obj_def unspecified_node_template_def zero_irq_def

lemma one_irq_inv: "daemon_inv one_irq_daemon"
proof -
  have "wf_mask CPU_MASK_ALL" "wf_mask CPU_MASK_NONE" by (simp_all add: wf_mask_def CPU_MASK_ALL_def)
  then show ?thesis
    by (auto simp: daemon_inv_def tree_ok_def tree_ok_but_def links_ok_def typed_lists_def masks_unbanned_def
        load_order_def irqs_consistent_def live_ints_def listed_def bans_apart_def hints_wf_def
        unspecified_node_def one_irq_defs)
qed

lemma one_irq_room: "room (gs one_irq_daemon)"
  by (simp add: room_def headroom_def list_cost_def irq_cost_def one_irq_defs)

lemma one_irq_wants: "wants_place (gs one_irq_daemon) 1"
  by (simp add: wants_place_def own_node_usable_def place_of_def cpus_simps cpu_mask_all_set cpus_of_inter_all
      balance_levels one_irq_defs)

theorem balance_cycle_places_witness:
  "\<exists>dm' out d. balance_cycle sample_fs one_irq_daemon = Some (dm', out) \<and> place_of (gs dm') 1 = At d"
proof -
  have "length (stack_buf sample_fs) = 4096" by (simp add: sample_fs_def)
  from balance_cycle_places [OF one_irq_inv one_irq_room this] one_irq_wants show ?thesis by blast
qed

text \<open>A pass in which nothing changes and a SIGINT comes.\<close>

definition quiet_input :: cycle_input where
  "quiet_input = \<lparr>signals = [SIGINT], now = idle_machine, rescan_now = idle_machine, rescan_signals = [],
     rescan_later = idle_machine, affinity = sample_fs\<rparr>"

lemma quiet_run: "run_fine [quiet_input] one_irq_daemon"
proof -
  let ?d = "handler one_irq_daemon" and ?s = "gs one_irq_daemon"
  have t: "tree_ok one_irq_daemon" using one_irq_inv by (simp add: daemon_inv_def)
  then obtain s where s: "clear_work_stats ?s = Some s" "cleared ?s (\<Union>n \<in> set (numa_nodes ?s). irqs_below ?s n) s"
    using clear_work_stats_all [of "{}" ?s] by (auto simp: tree_ok_def tree_ok_but_def)
  have "cycle_count (strip_loads s) = cycle_count (strip_loads ?s)"
    using s(2) by (simp add: cleared_def loads_only_def)
  then have "cycle_count s = cycle_count ?s" by (simp add: strip_loads_def)
  moreover have "iload (irqs ?s i) = 0" for i by (simp add: one_irq_defs)
  ultimately have "same_loads ?s s" using s(2) same_coldI(2) by (auto simp: same_loads_def cleared_def)
  then have "room s" by (rule room_same [OF _ one_irq_room])
  moreover have "measure_cycle quiet_input one_irq_daemon = Some (?d\<lparr>gs := s\<rparr>)"
  proof -
    have "clear_stats ?d = Some (?d\<lparr>gs := s\<rparr>)" using s(1) by (simp add: clear_stats_def handler_def)
    moreover have "\<not> need_rescan ?d" by (simp add: handler_def one_irq_defs)
    ultimately show ?thesis
      by (simp add: measure_cycle_def quiet_input_def read_stats_def idle_machine_def
          parse_proc_interrupts_def parse_proc_stat_def)
  qed
  ultimately have "cycle_fine quiet_input one_irq_daemon"
    using idle_machine_ok by (simp add: cycle_fine_def) (simp add: quiet_input_def sample_fs_def)
  then show ?thesis by simp
qed


text \<open>The options that make the program exit.\<close>

fun refused :: "bool \<Rightarrow> option_arg \<Rightarrow> bool" where
  "refused incl Unknown = True"
| "refused incl (Banscript a) = (\<not> incl)"
| "refused incl (Deepestcache a) = (fst (strtoull a) \<in> {0, ULONG_MAX})"
| "refused incl (Hintpolicy a) = (hint_policy_of a = None)"
| "refused incl (Banirq a) = (fst (strtoull a) = ULONG_MAX)"
| "refused incl (Powerthresh a) = (\<not> begins a ''off'' \<and> fst (strtoull a) = ULONG_MAX)"
| "refused incl _ = False"

definition banned_args :: "option_arg list \<Rightarrow> int set" where
  "banned_args opts = {int_of_ulong (fst (strtoull a)) |a. Banirq a \<in> set opts}"

definition hint_args :: "option_arg list \<Rightarrow> hint_policy list" where
  "hint_args opts = concat (map (\<lambda>a. case a of Hintpolicy h \<Rightarrow> [the (hint_policy_of h)] | _ \<Rightarrow> []) opts)"

lemma parse_option_refused: "parse_option incl a st = Inl rc \<longleftrightarrow> refused incl a \<and> rc = 1"
  by (cases a) (auto simp: Let_def word_less_1 split: option.splits)

abbreviation cl_nums :: "settings \<Rightarrow> int set" where
  "cl_nums st \<equiv> ban_nums ClBanned (daemon_state st)"

lemma parse_option_effect:
  assumes "parse_option incl a st = Inr st'" "bans_ok ClBanned (daemon_state st)"
  shows "bans_ok ClBanned (daemon_state st') \<and> cl_nums st' = banned_args [a] \<union> cl_nums st
    \<and> global_hint_policy (daemon_state st') = last (global_hint_policy (daemon_state st) # hint_args [a])
    \<and> one_shot_mode (daemon_state st') = (a = Oneshot \<or> one_shot_mode (daemon_state st))"
proof (cases "\<exists>n. a = Banirq n")
  case True
  then obtain n where n: "a = Banirq n" by blast
  let ?k = "int_of_ulong (fst (strtoull n))"
  have st': "daemon_state st' = add_cl_banned_irq ?k (daemon_state st)"
    using assms(1) by (auto simp: n Let_def upd_daemon_def split: if_splits)
  have "global_hint_policy (add_banned_irq m ClBanned d) = global_hint_policy d
    \<and> one_shot_mode (add_banned_irq m ClBanned d) = one_shot_mode d" for m d
    by (simp add: add_banned_irq_def alloc_irq_def split: option.split)
  then show ?thesis
    using add_banned_irq_set [OF assms(2), of ?k]
    by (simp add: st' n add_cl_banned_irq_def banned_args_def hint_args_def)
next
  case False
  then show ?thesis
    using assms by (cases a) (auto simp: banned_args_def hint_args_def upd_daemon_def upd_gs_def Let_def
        bans_ok_def ban_nums_def split: if_splits option.splits)
qed

text \<open>
  C40: parse_command_line exits with 1 exactly when some option is refused; otherwise the numbers
  banned are the ones of the \<open>--banirq\<close> options beside the ones before, the hint policy is
  that of the last \<open>--hintpolicy\<close>, or the old one when there is none, and one-shot mode is on when
  it was asked for.
\<close>

theorem parse_command_line_result:
  assumes "bans_ok ClBanned (daemon_state st)"
  shows "if \<exists>a \<in> set opts. refused incl a then parse_command_line incl opts st = Inl 1
    else \<exists>st'. parse_command_line incl opts st = Inr st'
      \<and> ban_nums ClBanned (daemon_state st') = banned_args opts \<union> ban_nums ClBanned (daemon_state st)
      \<and> global_hint_policy (daemon_state st') = last (global_hint_policy (daemon_state st) # hint_args opts)
      \<and> one_shot_mode (daemon_state st') = (Oneshot \<in> set opts \<or> one_shot_mode (daemon_state st))"
  using assms
proof (induction opts arbitrary: st)
  case Nil
  then show ?case by (simp add: banned_args_def hint_args_def)
next
  case (Cons a opts)
  show ?case
  proof (cases "parse_option incl a st")
    case (Inl rc)
    then show ?thesis using parse_option_refused [of incl a st rc] by auto
  next
    case (Inr st1)
    then have "\<not> refused incl a" using parse_option_refused [of incl a st 1] by auto
    moreover have "banned_args (a # opts) = banned_args opts \<union> banned_args [a]" by (auto simp: banned_args_def)
    moreover have "last (h # hint_args (a # opts)) = last (last (h # hint_args [a]) # hint_args opts)" for h
      by (simp add: hint_args_def)
    moreover note parse_option_effect [OF Inr Cons.prems] Cons.IH [of st1] Inr
    ultimately show ?thesis by (auto split: if_splits)
  qed
qed

definition sample_settings :: settings where
  "sample_settings = \<lparr>daemon_state = start_daemon, debug_mode = False, foreground_mode = False, pidfile = None,
     banscript_path = None, polscript_path = None\<rparr>"

theorem parse_command_line_result_witness:
  "parse_command_line False [Debug, Hintpolicy ''strict'', Oneshot] sample_settings = Inl 1"
proof -
  have "bans_ok ClBanned (daemon_state sample_settings)"
    by (simp add: bans_ok_def sample_settings_def start_daemon_def sample_daemon_def)
  moreover have "refused False (Hintpolicy ''strict'')" by (simp add: hint_policy_of_def begins_def)
  ultimately show ?thesis
    using parse_command_line_result [where st = sample_settings and incl = False and opts = "[Debug, Hintpolicy ''strict'', Oneshot]"] by simp
qed

text \<open>The \<open>while\<close> loop of \<open>sleep_approx\<close> keeps the sum and ends below one second.\<close>

lemma borrow_seconds_sum:
  "fst (borrow_seconds sec nsec) * 1000000000 + snd (borrow_seconds sec nsec) = sec * 1000000000 + nsec
    \<and> 0 \<le> snd (borrow_seconds sec nsec)
    \<and> (nsec < 1000000000 \<longrightarrow> snd (borrow_seconds sec nsec) < 1000000000)"
proof (induction sec nsec rule: borrow_seconds.induct)
  case (1 sec nsec)
  then show ?case by (cases "nsec < 0") (simp_all add: borrow_seconds.simps [of sec nsec])
qed

text \<open>
  The time given to \<open>nanosleep\<close> is well formed and ends on a whole second: the time asked for
  less the microseconds of the clock.
\<close>

lemma sleep_approx_exact:
  assumes "sleep_approx seconds usec = (sec, nsec)"
  shows "sec * 1000000000 + nsec = seconds * 1000000000 - usec * 1000" "0 \<le> nsec"
    "0 \<le> usec \<Longrightarrow> nsec < 1000000000"
  using borrow_seconds_sum [of seconds "- usec * 1000"] assms by (simp_all add: sleep_approx_def)

end
