(* ===== verification/Nf10_Ring.thy ===== *)
theory Nf10_Ring
  imports Cwords "HOL-Library.Monad_Syntax"
begin

text \<open>
  nf10priv.c and nf10driver.h: the descriptor rings and packet buffers of the NetFPGA 10G card,
  sending a packet, giving the card a receive descriptor, and the work handler.

  The card is a record of what the driver keeps and of what it writes. \<open>ptr_mask\<close> is the field
  \<open>mask\<close>; \<open>cfg\<close> has the words that the driver last wrote to the registers of the card (25 and 26
  switch its interrupts on and off); \<open>wq_made\<close> tells that the work queue exists and
  \<open>work_queued\<close> that the work handler is due. A port is its \<open>net_device\<close> together with its
  \<open>nf10_ndev_priv\<close>. A buffer \<open>sk_buff\<close> is its identity and its length. \<open>freed\<close>, \<open>delivered\<close> and \<open>unmapped\<close>
  record the calls of \<open>kfree_skb\<close>, \<open>netif_receive_skb\<close> and \<open>pci_unmap_single\<close>. Of a line of 64
  bytes of the completion buffers the word that is read and written is kept. The addresses that
  \<open>pci_map_single\<close> gives and the buffers that are allocated are parameters. A result \<open>None\<close> is an
  access outside an array. The loopback mode is not compiled.
\<close>

definition SK_BUFF_ALLOC_SIZE :: u64 where "SK_BUFF_ALLOC_SIZE = 1533"

record sk_buff =
  skb_id :: nat
  skb_len :: u32

record nf10mem =
  wr_ptr :: u64
  rd_ptr :: u64
  cnt :: u64
  ptr_mask :: u64
  cl_size :: u64

record net_device =
  port_num :: nat
  port_up :: bool
  queue_stopped :: bool
  tx_packets :: u64
  tx_bytes :: u64
  rx_packets :: u64
  rx_bytes :: u64
  dev_addr :: "u8 list"
  mtu :: nat
  netdev_irq :: nat

record nf10_card =
  wq_made :: bool
  work_queued :: bool
  cfg :: "nat \<Rightarrow> u64"
  tx_dsc :: "u64 \<Rightarrow> u64"
  rx_dsc :: "u64 \<Rightarrow> u64"
  tx_dsc_mask :: u64
  rx_dsc_mask :: u64
  tx_pkt_mask :: u64
  rx_pkt_mask :: u64
  tx_dne_mask :: u64
  rx_dne_mask :: u64
  host_tx_buf :: "u32 list"
  host_rx_buf :: "u64 list"
  ndev :: "net_device list"
  mem_tx_dsc :: nf10mem
  mem_tx_pkt :: nf10mem
  mem_rx_dsc :: nf10mem
  mem_rx_pkt :: nf10mem
  host_tx_dne :: nf10mem
  host_rx_dne :: nf10mem
  tx_bk_skb :: "sk_buff list"
  tx_bk_dma_addr :: "u64 list"
  tx_bk_size :: "u64 list"
  tx_bk_port :: "u64 list"
  rx_bk_skb :: "sk_buff list"
  rx_bk_dma_addr :: "u64 list"
  rx_bk_size :: "u64 list"
  freed :: "sk_buff list"
  delivered :: "(nat \<times> sk_buff) list"
  unmapped :: "(u64 \<times> u32) list"

text \<open>Reading and writing an array.\<close>

definition get_at :: "'a list \<Rightarrow> u64 \<Rightarrow> 'a option" where
  "get_at xs i = (if unat i < length xs then Some (xs ! unat i) else None)"

definition put_at :: "'a list \<Rightarrow> u64 \<Rightarrow> 'a \<Rightarrow> 'a list option" where
  "put_at xs i x = (if unat i < length xs then Some (xs[unat i := x]) else None)"

definition upd_dev :: "nat \<Rightarrow> (net_device \<Rightarrow> net_device) \<Rightarrow> nf10_card \<Rightarrow> nf10_card option" where
  "upd_dev p f c = (if p < length (ndev c) then Some (c\<lparr>ndev := (ndev c)[p := f (ndev c ! p)]\<rparr>) else None)"

section \<open>Sending\<close>

text \<open>\<open>len\<close> has 32 bits, and so has the sum.\<close>

definition tx_lines :: "u32 \<Rightarrow> u64" where
  "tx_lines len = ucast ((len + 2 * 63) div 64)"

definition has_room :: "u64 \<Rightarrow> u64 \<Rightarrow> nf10mem \<Rightarrow> nf10mem \<Rightarrow> bool" where
  "has_room d p dsc pkt \<longleftrightarrow> cnt dsc + d \<le> cl_size dsc \<and> cnt pkt + p \<le> cl_size pkt"

definition take_space :: "u64 \<Rightarrow> nf10mem \<Rightarrow> nf10mem" where
  "take_space n mem = mem\<lparr>wr_ptr := (wr_ptr mem + 64 * n) AND ptr_mask mem\<rparr>"

definition add_cnt :: "u64 \<Rightarrow> nf10mem \<Rightarrow> nf10mem" where
  "add_cnt n mem = mem\<lparr>cnt := cnt mem + n\<rparr>"

definition decode_port :: "nat \<Rightarrow> u64" where
  "decode_port port =
    (if port = 0 then 0x0102 else if port = 1 then 0x0408 else if port = 2 then 0x1020
     else if port = 3 then 0x4080 else 0)"

definition tx_descriptor :: "u32 \<Rightarrow> nat \<Rightarrow> u64 \<Rightarrow> u64 \<Rightarrow> u64" where
  "tx_descriptor len port pkt_addr dma_addr =
    (let pkt_addr_fixed = pkt_addr + (dma_addr AND 0x3f)
     in push_bit 48 (ucast len) + push_bit 32 (decode_port port) + (pkt_addr_fixed AND 0xffffffff))"

text \<open>Counting the packet, and stopping the queue when a packet of the largest size may not fit.\<close>

definition reserve_tx :: "u64 \<Rightarrow> nat \<Rightarrow> nf10_card \<Rightarrow> nf10_card option" where
  "reserve_tx n port c =
    (let c = c\<lparr>mem_tx_dsc := add_cnt 1 (mem_tx_dsc c), mem_tx_pkt := add_cnt n (mem_tx_pkt c)\<rparr>
     in if has_room 1 32 (mem_tx_dsc c) (mem_tx_pkt c) then Some c
        else upd_dev port (\<lambda>d. d\<lparr>queue_stopped := True\<rparr>) c)"

text \<open>The book keeping and the descriptor.\<close>

definition book_tx :: "u64 \<Rightarrow> u64 \<Rightarrow> u64 \<Rightarrow> u64 \<Rightarrow> sk_buff \<Rightarrow> nat \<Rightarrow> nf10_card \<Rightarrow> nf10_card option" where
  "book_tx dsc_addr pkt_addr dma_addr n skb port c = do {
     let dsc_index = dsc_addr div 64;
     addrs \<leftarrow> put_at (tx_bk_dma_addr c) dsc_index dma_addr;
     skbs \<leftarrow> put_at (tx_bk_skb c) dsc_index skb;
     sizes \<leftarrow> put_at (tx_bk_size c) dsc_index n;
     ports \<leftarrow> put_at (tx_bk_port c) dsc_index (of_nat port);
     Some (c\<lparr>tx_bk_dma_addr := addrs, tx_bk_skb := skbs, tx_bk_size := sizes, tx_bk_port := ports,
       tx_dsc := (tx_dsc c)(8 * dsc_index := tx_descriptor (skb_len skb) port pkt_addr dma_addr,
                            8 * dsc_index + 1 := dma_addr)\<rparr>)
   }"

text \<open>The result of the call and the new card; \<open>None\<close> as address is a mapping error.\<close>

definition nf10priv_xmit :: "u64 option \<Rightarrow> sk_buff \<Rightarrow> nat \<Rightarrow> nf10_card \<Rightarrow> (int \<times> nf10_card) option" where
  "nf10priv_xmit dma skb port c =
    (let n = tx_lines (skb_len skb) in
     if \<not> has_room 1 n (mem_tx_dsc c) (mem_tx_pkt c) then Some (- 1, c)
     else
       let pkt_addr = wr_ptr (mem_tx_pkt c); dsc_addr = wr_ptr (mem_tx_dsc c);
           c = c\<lparr>mem_tx_pkt := take_space n (mem_tx_pkt c), mem_tx_dsc := take_space 1 (mem_tx_dsc c)\<rparr>
       in case dma of
         None \<Rightarrow> Some (- 1, c)
       | Some dma_addr \<Rightarrow> do {
           c \<leftarrow> reserve_tx n port c;
           c \<leftarrow> book_tx dsc_addr pkt_addr dma_addr n skb port c;
           Some (0, c)
         })"

section \<open>Receive descriptors\<close>

definition rx_lines :: u64 where
  "rx_lines = (SK_BUFF_ALLOC_SIZE + 66) div 64"

definition rx_descriptor :: "u64 \<Rightarrow> u64 \<Rightarrow> u64" where
  "rx_descriptor pkt_addr dma_addr =
    (let pkt_addr_fixed = pkt_addr + (dma_addr AND 0x3)
     in push_bit 48 SK_BUFF_ALLOC_SIZE + (pkt_addr_fixed AND 0xffffffff))"

text \<open>The buffer that is allocated and its address, or \<open>None\<close>.\<close>

type_synonym rx_alloc = "(sk_buff \<times> u64) option"

definition book_rx :: "u64 \<Rightarrow> u64 \<Rightarrow> u64 \<Rightarrow> sk_buff \<Rightarrow> nf10_card \<Rightarrow> nf10_card option" where
  "book_rx dsc_addr pkt_addr dma_addr skb c = do {
     let dsc_index = dsc_addr div 64;
     addrs \<leftarrow> put_at (rx_bk_dma_addr c) dsc_index dma_addr;
     skbs \<leftarrow> put_at (rx_bk_skb c) dsc_index skb;
     sizes \<leftarrow> put_at (rx_bk_size c) dsc_index rx_lines;
     Some (c\<lparr>rx_bk_dma_addr := addrs, rx_bk_skb := skbs, rx_bk_size := sizes,
       rx_dsc := (rx_dsc c)(8 * dsc_index := rx_descriptor pkt_addr dma_addr,
                            8 * dsc_index + 1 := dma_addr)\<rparr>)
   }"

definition nf10priv_send_rx_dsc :: "rx_alloc \<Rightarrow> nf10_card \<Rightarrow> (int \<times> nf10_card) option" where
  "nf10priv_send_rx_dsc alloc c =
    (if \<not> has_room 1 rx_lines (mem_rx_dsc c) (mem_rx_pkt c) then Some (- 1, c)
     else case alloc of
       None \<Rightarrow> Some (- 1, c)
     | Some (skb, dma_addr) \<Rightarrow>
         let pkt_addr = wr_ptr (mem_rx_pkt c); dsc_addr = wr_ptr (mem_rx_dsc c);
             c = c\<lparr>mem_rx_pkt := add_cnt rx_lines (take_space rx_lines (mem_rx_pkt c)),
                   mem_rx_dsc := add_cnt 1 (take_space 1 (mem_rx_dsc c))\<rparr>
         in map_option (Pair 0) (book_rx dsc_addr pkt_addr dma_addr skb c))"

section \<open>The work handler\<close>

definition advance_rd :: "nf10mem \<Rightarrow> nf10mem" where
  "advance_rd mem = mem\<lparr>rd_ptr := (rd_ptr mem + 64) AND ptr_mask mem\<rparr>"

definition sub_cnt :: "u64 \<Rightarrow> nf10mem \<Rightarrow> nf10mem" where
  "sub_cnt n mem = mem\<lparr>cnt := cnt mem - n\<rparr>"

text \<open>Taking the oldest packet out of the ring of sent packets.\<close>

definition take_tx :: "nf10_card \<Rightarrow> (sk_buff \<times> nf10_card) option" where
  "take_tx c = do {
     let index = rd_ptr (host_tx_dne c) div 64;
     let c = c\<lparr>host_tx_dne := advance_rd (host_tx_dne c)\<rparr>;
     addr \<leftarrow> get_at (tx_bk_dma_addr c) index;
     skb \<leftarrow> get_at (tx_bk_skb c) index;
     n \<leftarrow> get_at (tx_bk_size c) index;
     buf \<leftarrow> put_at (host_tx_buf c) index 0xffffffff;
     Some (skb, c\<lparr>unmapped := unmapped c @ [(addr, skb_len skb)], freed := freed c @ [skb],
       mem_tx_pkt := sub_cnt n (mem_tx_pkt c), mem_tx_dsc := sub_cnt 1 (mem_tx_dsc c), host_tx_buf := buf\<rparr>)
   }"

definition wake_queues :: "nf10_card \<Rightarrow> nf10_card" where
  "wake_queues c =
    (if has_room 8 128 (mem_tx_dsc c) (mem_tx_pkt c)
     then c\<lparr>ndev := map (\<lambda>d. d\<lparr>queue_stopped := False\<rparr>) (ndev c)\<rparr> else c)"

definition tx_complete :: "nf10_card \<Rightarrow> nf10_card option" where
  "tx_complete c = map_option (\<lambda>(_, c). wake_queues c) (take_tx c)"

text \<open>Taking the buffer of the oldest receive descriptor.\<close>

definition take_rx :: "nf10_card \<Rightarrow> (sk_buff \<times> nf10_card) option" where
  "take_rx c = do {
     let index = rd_ptr (host_rx_dne c) div 64;
     let c = c\<lparr>host_rx_dne := advance_rd (host_rx_dne c)\<rparr>;
     buf \<leftarrow> put_at (host_rx_buf c) index 0xffffffffffffffff;
     skb \<leftarrow> get_at (rx_bk_skb c) index;
     addr \<leftarrow> get_at (rx_bk_dma_addr c) index;
     n \<leftarrow> get_at (rx_bk_size c) index;
     Some (skb, c\<lparr>host_rx_buf := buf, unmapped := unmapped c @ [(addr, skb_len skb)],
       mem_rx_pkt := sub_cnt n (mem_rx_pkt c), mem_rx_dsc := sub_cnt 1 (mem_rx_dsc c)\<rparr>)
   }"

definition encoded_port :: "u64 \<Rightarrow> int" where
  "encoded_port code =
    (if code AND 0x0200 \<noteq> 0 then 0 else if code AND 0x0800 \<noteq> 0 then 1
     else if code AND 0x2000 \<noteq> 0 then 2 else if code AND 0x8000 \<noteq> 0 then 3 else - 1)"

text \<open>\<open>skb_put\<close> adds to the length, \<open>eth_type_trans\<close> takes the 14 bytes of the header off again.\<close>

definition hand_up :: "u64 \<Rightarrow> sk_buff \<Rightarrow> nf10_card \<Rightarrow> nf10_card option" where
  "hand_up rx_int skb c =
    (let len = rx_int AND 0xffff; port = encoded_port (drop_bit 16 rx_int AND 0xffff) in
     if len > 1514 \<or> len < 60 \<or> port < 0 \<or> port > 3 then Some c
     else if nat port \<ge> length (ndev c) then None
     else if port_up (ndev c ! nat port) then
       let skb = skb\<lparr>skb_len := skb_len skb + ucast len - 14\<rparr>
       in map_option (\<lambda>c. c\<lparr>delivered := delivered c @ [(nat port, skb)]\<rparr>)
            (upd_dev (nat port) (\<lambda>d. d\<lparr>rx_packets := rx_packets d + 1, rx_bytes := rx_bytes d + ucast (skb_len skb)\<rparr>) c)
     else Some (c\<lparr>freed := freed c @ [skb]\<rparr>))"

definition rx_complete :: "rx_alloc \<Rightarrow> u64 \<Rightarrow> nf10_card \<Rightarrow> nf10_card option" where
  "rx_complete alloc rx_int c = do {
     (skb, c) \<leftarrow> take_rx c;
     (_, c) \<leftarrow> nf10priv_send_rx_dsc alloc c;
     hand_up rx_int skb c
   }"

record work_state =
  wcard :: nf10_card
  tcnt :: int
  int_enabled :: bool
  work_counter :: int

definition tx_done_word :: "u32 \<Rightarrow> bool" where
  "tx_done_word w \<longleftrightarrow> w AND 0xffff = 1"

definition rx_done_word :: "u64 \<Rightarrow> bool" where
  "rx_done_word w \<longleftrightarrow> drop_bit 48 w AND 0xffff \<noteq> 0xffff"

text \<open>One turn of the \<open>while\<close> loop.\<close>

definition work_turn :: "rx_alloc \<Rightarrow> work_state \<Rightarrow> work_state option" where
  "work_turn alloc ws = do {
     let c = wcard ws;
     let off = int_enabled ws \<and> work_counter ws > 0;
     let en = int_enabled ws \<and> \<not> off;
     let c = (if off then c\<lparr>cfg := (cfg c)(25 := 0, 26 := 0)\<rparr> else c);
     tx_int \<leftarrow> get_at (host_tx_buf c) (rd_ptr (host_tx_dne c) div 64);
     rx_int \<leftarrow> get_at (host_rx_buf c) (rd_ptr (host_rx_dne c) div 64);
     let irq_done = \<not> tx_done_word tx_int \<and> \<not> rx_done_word rx_int;
     c \<leftarrow> (if tx_done_word tx_int then tx_complete c else Some c);
     c \<leftarrow> (if rx_done_word rx_int then rx_complete alloc rx_int c else Some c);
     let n = (if irq_done then tcnt ws - 1 else if tcnt ws < 10000 then tcnt ws + 1 else tcnt ws);
     Some (if n \<le> 1 \<and> \<not> en
       then \<lparr>wcard = c\<lparr>cfg := (cfg c)(25 := 1, 26 := 1)\<rparr>, tcnt = 1, int_enabled = True, work_counter = 0\<rparr>
       else \<lparr>wcard = c, tcnt = n, int_enabled = en, work_counter = work_counter ws + 1\<rparr>)
   }"

text \<open>What the card writes into the completion buffers.\<close>

datatype card_event = TxDone u64 u32 | RxDone u64 u64

fun card_writes :: "card_event \<Rightarrow> nf10_card \<Rightarrow> nf10_card" where
  "card_writes (TxDone i w) c = c\<lparr>host_tx_buf := (host_tx_buf c)[unat i := w]\<rparr>"
| "card_writes (RxDone i w) c = c\<lparr>host_rx_buf := (host_rx_buf c)[unat i := w]\<rparr>"

text \<open>Before a turn the card may write; the loop is still running when the turns are used up.\<close>

datatype work_result = Working work_state | Done nf10_card

fun work_loop :: "(card_event list \<times> rx_alloc) list \<Rightarrow> work_state \<Rightarrow> work_result option" where
  "work_loop turns ws =
    (if tcnt ws = 0 then Some (Done (wcard ws))
     else case turns of
       [] \<Rightarrow> Some (Working ws)
     | (es, alloc) # turns \<Rightarrow>
         (case work_turn alloc (ws\<lparr>wcard := fold card_writes es (wcard ws)\<rparr>) of
            None \<Rightarrow> None
          | Some ws \<Rightarrow> work_loop turns ws))"

declare work_loop.simps [simp del]

definition work_handler :: "(card_event list \<times> rx_alloc) list \<Rightarrow> nf10_card \<Rightarrow> work_result option" where
  "work_handler turns c = work_loop turns \<lparr>wcard = c, tcnt = 1, int_enabled = True, work_counter = 0\<rparr>"

end
