(* ===== verification/Nf10_Kernel.thy ===== *)
theory Nf10_Kernel
  imports Nf10_Ring
begin

text \<open>
  What the NF10 driver asks of the kernel: the resources it takes and gives back.

  A request is granted or refused by the environment. The host has the set of what is held and the
  list of what was given back without being held. The kernel's functions are known by this effect
  only; \<open>class_destroy\<close> unregisters the class that it is given, as the documentation of the driver
  model says, so that after \<open>class_unregister\<close> it gives back a class that is not held.
\<close>

datatype resource =
    Pci_enabled | Msi | Mem_region nat | Card_struct | Cfg_map | Tx_map | Rx_map | Tx_dne_buf | Rx_dne_buf
  | Work_queue | Tx_skbs | Tx_addrs | Tx_sizes | Tx_ports | Rx_skbs | Rx_addrs | Rx_sizes
  | Irq_line | Net_dev nat | Net_reg nat | Chrdev_region | Cdev | Dev_class | Dev_node

text \<open>
  \<open>junk_skb\<close> and \<open>junk_word\<close> are what fresh memory holds; \<open>rx_allocs k\<close> is the buffer that the
  descriptor number \<open>k\<close> gets.
\<close>

record probe_env =
  grants :: "resource \<Rightarrow> bool"
  dma_mask_code :: int
  coherent_mask_code :: int
  chrdev_code :: int
  cdev_code :: int
  irq_number :: nat
  tx_dne_dma :: u64
  rx_dne_dma :: u64
  junk_skb :: "nat \<Rightarrow> sk_buff"
  junk_word :: "nat \<Rightarrow> u64"
  rx_allocs :: "nat \<Rightarrow> rx_alloc"

record host =
  held :: "resource set"
  stray :: "resource list"
  drvdata :: bool
  hcard :: nf10_card

definition get :: "resource \<Rightarrow> host \<Rightarrow> host" where
  "get r h = h\<lparr>held := insert r (held h)\<rparr>"

definition request :: "probe_env \<Rightarrow> resource \<Rightarrow> host \<Rightarrow> host" where
  "request env r h = (if grants env r then get r h else h)"

definition release :: "resource \<Rightarrow> host \<Rightarrow> host" where
  "release r h = (if r \<in> held h then h\<lparr>held := held h - {r}\<rparr> else h\<lparr>stray := stray h @ [r]\<rparr>)"

definition release_if_held :: "resource \<Rightarrow> host \<Rightarrow> host" where
  "release_if_held r h = (if r \<in> held h then release r h else h)"

definition upd_hcard :: "(nf10_card \<Rightarrow> nf10_card) \<Rightarrow> host \<Rightarrow> host" where
  "upd_hcard f h = h\<lparr>hcard := f (hcard h)\<rparr>"

definition class_unregister :: "host \<Rightarrow> host" where
  "class_unregister = release Dev_class"

definition class_destroy :: "host \<Rightarrow> host" where
  "class_destroy h = release Dev_class h"

end
