(* ===== verification/Nf10_Fops.thy ===== *)
theory Nf10_Fops
  imports Nf10_Kernel
begin

text \<open>
  nf10fops.c and nf10fops.h: the character device. \<open>nf10fops_ioctl\<close> reads the statistics of a card
  and its registers and counts the writes that are under way; \<open>nf10fops_probe\<close> and
  \<open>nf10fops_remove\<close> make the device and take it away.

  \<open>axi_wr_cnt\<close> is one variable of the module, shared by all cards. \<open>SIOCDEVPRIVATE\<close>, what the user
  memory holds and what the registers of the card hold when they are read are parameters. \<open>None\<close> is
  the use of a file that is not open. The lock around the counter makes each branch one step.
\<close>

definition EFAULT :: int where "EFAULT = 14"
definition EINVAL :: int where "EINVAL = 22"

definition NF10_IOCTL_CMD_READ_STAT :: "u32 \<Rightarrow> u32" where "NF10_IOCTL_CMD_READ_STAT siocdevprivate = siocdevprivate + 0"
definition NF10_IOCTL_CMD_WRITE_REG :: "u32 \<Rightarrow> u32" where "NF10_IOCTL_CMD_WRITE_REG siocdevprivate = siocdevprivate + 1"
definition NF10_IOCTL_CMD_READ_REG :: "u32 \<Rightarrow> u32" where "NF10_IOCTL_CMD_READ_REG siocdevprivate = siocdevprivate + 2"

text \<open>A file that is open has the number of its card.\<close>

record chr_state =
  axi_wr_cnt :: int
  cards :: "nat \<Rightarrow> nf10_card"

type_synonym chr_file = "nat option"

definition nf10fops_open :: "nat \<Rightarrow> chr_file \<Rightarrow> int \<times> chr_file" where
  "nf10fops_open n f = (0, Some n)"

definition nf10fops_release :: "chr_file \<Rightarrow> int \<times> chr_file" where
  "nf10fops_release f = (0, None)"

text \<open>
  \<open>user_word\<close> is what \<open>copy_from_user\<close> gives, \<open>stale_word\<close> what \<open>addr\<close> holds when that fails,
  \<open>user_writable\<close> whether \<open>copy_to_user\<close> succeeds, and \<open>reg_value r k\<close> what the read number \<open>k\<close> of
  register \<open>r\<close> gives.
\<close>

record ioctl_env =
  sioc_base :: u32
  user_word :: "u64 option"
  stale_word :: u64
  user_writable :: bool
  reg_value :: "nat \<Rightarrow> nat \<Rightarrow> u64"

definition fetched_addr :: "ioctl_env \<Rightarrow> u64" where
  "fetched_addr env = (case user_word env of Some a \<Rightarrow> a | None \<Rightarrow> stale_word env)"

definition to_user :: "ioctl_env \<Rightarrow> u64 \<Rightarrow> u64 option" where
  "to_user env val = (if user_writable env then Some val else None)"

text \<open>The three tests of the state of the write buffer.\<close>

definition axi_level :: "u64 \<Rightarrow> int option" where
  "axi_level val =
    (if val AND 0x1 \<noteq> 0 then Some 1
     else if NOT (val AND 0x2) \<noteq> 0 then Some 49
     else if NOT (val AND 0x4) \<noteq> 0 then Some 64
     else None)"

definition next_axi_cnt :: "ioctl_env \<Rightarrow> int \<Rightarrow> int" where
  "next_axi_cnt env k =
    (if k < 64 then k + 1
     else case axi_level (reg_value env 130 0) of
       Some n \<Rightarrow> n
     | None \<Rightarrow> (case axi_level (reg_value env 130 1) of Some n \<Rightarrow> n | None \<Rightarrow> 65))"

definition set_cfg :: "nat \<Rightarrow> u64 \<Rightarrow> nf10_card \<Rightarrow> nf10_card" where
  "set_cfg r val c = c\<lparr>cfg := (cfg c)(r := val)\<rparr>"

definition upd_card :: "nat \<Rightarrow> (nf10_card \<Rightarrow> nf10_card) \<Rightarrow> chr_state \<Rightarrow> chr_state" where
  "upd_card n f s = s\<lparr>cards := (cards s)(n := f (cards s n))\<rparr>"

text \<open>The result of the call, what is copied to the user, and the new state.\<close>

definition nf10fops_ioctl ::
    "ioctl_env \<Rightarrow> chr_file \<Rightarrow> u32 \<Rightarrow> u64 \<Rightarrow> chr_state \<Rightarrow> (int \<times> u64 option \<times> chr_state) option" where
  "nf10fops_ioctl env f cmd arg s =
    (case f of
       None \<Rightarrow> None
     | Some n \<Rightarrow>
         if cmd = NF10_IOCTL_CMD_READ_STAT (sioc_base env) then
           let addr = fetched_addr env in
           if addr \<ge> 4096 div 8 then Some (- EINVAL, None, s)
           else Some (0, to_user env (reg_value env (4096 div 8 + unat addr) 0), s)
         else if cmd = NF10_IOCTL_CMD_WRITE_REG (sioc_base env) then
           let s = s\<lparr>axi_wr_cnt := next_axi_cnt env (axi_wr_cnt s)\<rparr> in
           if axi_wr_cnt s > 64 then Some (- EFAULT, None, s)
           else Some (0, None, upd_card n (set_cfg 128 arg) s)
         else if cmd = NF10_IOCTL_CMD_READ_REG (sioc_base env) then
           let s = upd_card n (set_cfg 129 (push_bit 32 (fetched_addr env))) s in
           Some (0, to_user env (reg_value env 129 0), s\<lparr>axi_wr_cnt := 0\<rparr>)
         else Some (0, None, s))"

section \<open>Making the device and taking it away\<close>

text \<open>The two functions that may refuse give their own code; the class and the node are not checked.\<close>

definition nf10fops_probe :: "probe_env \<Rightarrow> host \<Rightarrow> int \<times> host" where
  "nf10fops_probe env h =
    (if chrdev_code env \<noteq> 0 then (chrdev_code env, h)
     else
       let h = get Chrdev_region h in
       if cdev_code env \<noteq> 0 then (cdev_code env, h)
       else
         let h = get Cdev h; h = request env Dev_class h; h = request env Dev_node h
         in (0, h))"

definition nf10fops_remove :: "host \<Rightarrow> int \<times> host" where
  "nf10fops_remove h =
    (let h = release Dev_node h; h = class_unregister h; h = class_destroy h;
         h = release Cdev h; h = release Chrdev_region h
     in (0, h))"

end
