(* ===== verification/Nf10_Iface.thy ===== *)
theory Nf10_Iface
  imports Nf10_Kernel
begin

text \<open>
  nf10iface.c: the four network interfaces of a card, their interrupt handler, and how they are made
  and taken away. The priv structure of a port is part of its \<open>net_device\<close>; the interfaces of a card
  that are made so far are the list \<open>ndev\<close>. Whether an address is valid and whether \<open>skb_pad\<close> finds
  memory are parameters.
\<close>

definition ENODEV :: int where "ENODEV = 19"
definition ENOMEM :: int where "ENOMEM = 12"
definition EADDRNOTAVAIL :: int where "EADDRNOTAVAIL = 99"
definition MTU :: nat where "MTU = 1500"

text \<open>The interrupt queues the work handler; without a work queue it fails.\<close>

definition int_handler :: "nf10_card \<Rightarrow> nf10_card option" where
  "int_handler c = (if wq_made c then Some (c\<lparr>work_queued := True\<rparr>) else None)"

text \<open>
  \<open>skb_pad\<close> frees the packet when it finds no memory. Its result is not looked at: the length becomes
  60 all the same.
\<close>

definition pad_skb :: "bool \<Rightarrow> sk_buff \<Rightarrow> nf10_card \<Rightarrow> sk_buff \<times> nf10_card" where
  "pad_skb pad_ok skb c =
    (if skb_len skb < 60 then
       (skb\<lparr>skb_len := skb_len skb + (60 - skb_len skb)\<rparr>, if pad_ok then c else c\<lparr>freed := freed c @ [skb]\<rparr>)
     else (skb, c))"

text \<open>The result is always \<open>NETDEV_TX_OK\<close>.\<close>

definition nf10i_tx :: "bool \<Rightarrow> u64 option \<Rightarrow> sk_buff \<Rightarrow> nat \<Rightarrow> nf10_card \<Rightarrow> nf10_card option" where
  "nf10i_tx pad_ok dma skb d c =
    (if d \<ge> length (ndev c) then None
     else
       let port = port_num (ndev c ! d); (skb, c) = pad_skb pad_ok skb c in
       if skb_len skb > 1514 then Some (c\<lparr>freed := freed c @ [skb]\<rparr>)
       else case nf10priv_xmit dma skb port c of
         None \<Rightarrow> None
       | Some (r, c) \<Rightarrow>
           if r \<noteq> 0 then Some (c\<lparr>freed := freed c @ [skb]\<rparr>)
           else upd_dev port (\<lambda>n. n\<lparr>tx_packets := tx_packets n + 1, tx_bytes := tx_bytes n + ucast (skb_len skb)\<rparr>) c)"

definition nf10i_ioctl :: "net_device \<Rightarrow> int \<times> net_device" where
  "nf10i_ioctl dev = (0, dev)"

definition nf10i_open :: "net_device \<Rightarrow> int \<times> net_device" where
  "nf10i_open dev = (0, dev\<lparr>port_up := True\<rparr>)"

definition nf10i_stop :: "net_device \<Rightarrow> int \<times> net_device" where
  "nf10i_stop dev = (0, dev\<lparr>port_up := False\<rparr>)"

definition nf10i_set_mac :: "(u8 list \<Rightarrow> bool) \<Rightarrow> u8 list \<Rightarrow> net_device \<Rightarrow> int \<times> net_device" where
  "nf10i_set_mac is_valid_ether_addr a dev =
    (if \<not> is_valid_ether_addr a then (- EADDRNOTAVAIL, dev) else (0, dev\<lparr>dev_addr := take 6 a\<rparr>))"

definition nf10i_stats :: "net_device \<Rightarrow> u64 \<times> u64 \<times> u64 \<times> u64" where
  "nf10i_stats dev = (tx_packets dev, tx_bytes dev, rx_packets dev, rx_bytes dev)"

definition nf10iface_init :: "net_device \<Rightarrow> net_device" where
  "nf10iface_init dev = dev\<lparr>mtu := MTU\<rparr>"

section \<open>Making the interfaces and taking them away\<close>

text \<open>A fresh device is zero but for what the driver sets.\<close>

definition zero_netdev :: net_device where
  "zero_netdev = \<lparr>port_num = 0, port_up = False, queue_stopped = False, tx_packets = 0, tx_bytes = 0,
     rx_packets = 0, rx_bytes = 0, dev_addr = replicate 6 0, mtu = 0, netdev_irq = 0\<rparr>"

definition new_netdev :: "probe_env \<Rightarrow> nat \<Rightarrow> net_device" where
  "new_netdev env i =
    (nf10iface_init zero_netdev)\<lparr>netdev_irq := irq_number env, port_num := i, port_up := False,
       dev_addr := [0, 0x4e, 0x46, 0x31, 0x30, of_nat i], queue_stopped := False\<rparr>"

text \<open>The loop stops at the first device that cannot be made; a refused registration is only logged.\<close>

fun make_netdevs :: "probe_env \<Rightarrow> nat list \<Rightarrow> host \<Rightarrow> bool \<times> host" where
  "make_netdevs env [] h = (True, h)"
| "make_netdevs env (i # is) h =
    (if \<not> grants env (Net_dev i) then (False, h)
     else
       let h = get (Net_dev i) h;
           h = upd_hcard (\<lambda>c. c\<lparr>ndev := ndev c @ [new_netdev env i]\<rparr>) h;
           h = request env (Net_reg i) h
       in make_netdevs env is h)"

text \<open>The results of the calls are not looked at.\<close>

fun give_rx_dscs :: "(nat \<Rightarrow> rx_alloc) \<Rightarrow> nat list \<Rightarrow> nf10_card \<Rightarrow> nf10_card option" where
  "give_rx_dscs allocs [] c = Some c"
| "give_rx_dscs allocs (k # ks) c =
    (case nf10priv_send_rx_dsc (allocs k) c of
       None \<Rightarrow> None
     | Some (_, c) \<Rightarrow> give_rx_dscs allocs ks c)"

definition free_netdevs :: "host \<Rightarrow> host" where
  "free_netdevs h = fold (\<lambda>i h. if i < length (ndev (hcard h)) then release (Net_dev i) (release (Net_reg i) h) else h) [0..<4] h"

definition nf10iface_probe :: "probe_env \<Rightarrow> host \<Rightarrow> (int \<times> host) option" where
  "nf10iface_probe env h =
    (if \<not> grants env Irq_line then Some (- ENODEV, h)
     else
       case make_netdevs env [0..<4] (get Irq_line h) of
         (False, h) \<Rightarrow> Some (- ENOMEM, free_netdevs h)
       | (True, h) \<Rightarrow>
           map_option (\<lambda>c. (0, h\<lparr>hcard := c\<rparr>))
             (give_rx_dscs (rx_allocs env) [0..<unat (cl_size (mem_rx_dsc (hcard h)) - 2)] (hcard h)))"

definition nf10iface_remove :: "host \<Rightarrow> int \<times> host" where
  "nf10iface_remove h = (0, release Irq_line (free_netdevs h))"

end
