(* ===== verification/Nf10_Driver.thy ===== *)
theory Nf10_Driver
  imports Nf10_Fops Nf10_Iface
begin

text \<open>
  nf10driver.c: probing and removing a card.

  Each \<open>goto\<close> label of \<open>nf10_probe\<close> is a function on the host, which goes on with the next label. A
  pointer of the card is not \<open>NULL\<close> when its resource is held. The result \<open>None\<close> is an access
  outside an array. The sleep after the reset is left out.
\<close>

section \<open>The card structure\<close>

definition zero_mem :: nf10mem where
  "zero_mem = \<lparr>wr_ptr = 0, rd_ptr = 0, cnt = 0, ptr_mask = 0, cl_size = 0\<rparr>"

definition zero_card :: nf10_card where
  "zero_card = \<lparr>wq_made = False, work_queued = False, cfg = (\<lambda>_. 0), tx_dsc = (\<lambda>_. 0), rx_dsc = (\<lambda>_. 0),
     tx_dsc_mask = 0, rx_dsc_mask = 0, tx_pkt_mask = 0, rx_pkt_mask = 0, tx_dne_mask = 0, rx_dne_mask = 0,
     host_tx_buf = [], host_rx_buf = [], ndev = [], mem_tx_dsc = zero_mem, mem_tx_pkt = zero_mem,
     mem_rx_dsc = zero_mem, mem_rx_pkt = zero_mem, host_tx_dne = zero_mem, host_rx_dne = zero_mem,
     tx_bk_skb = [], tx_bk_dma_addr = [], tx_bk_size = [], tx_bk_port = [], rx_bk_skb = [],
     rx_bk_dma_addr = [], rx_bk_size = [], freed = [], delivered = [], unmapped = []\<rparr>"

definition reset_card :: "nf10_card \<Rightarrow> nf10_card" where
  "reset_card = set_cfg 30 1"

definition set_masks :: "nf10_card \<Rightarrow> nf10_card" where
  "set_masks c = c\<lparr>tx_dsc_mask := 0x7ff, rx_dsc_mask := 0x7ff, tx_pkt_mask := 0x7fff, rx_pkt_mask := 0x7fff,
     tx_dne_mask := 0x7ff, rx_dne_mask := 0x7ff\<rparr>"

text \<open>The descriptor ring and its completion buffer get the smaller of their two masks.\<close>

definition match_tx_masks :: "nf10_card \<Rightarrow> nf10_card" where
  "match_tx_masks c =
    (if tx_dsc_mask c > tx_dne_mask c then (set_cfg 1 (tx_dne_mask c) c)\<lparr>tx_dsc_mask := tx_dne_mask c\<rparr>
     else if tx_dne_mask c > tx_dsc_mask c then (set_cfg 7 (tx_dsc_mask c) c)\<lparr>tx_dne_mask := tx_dsc_mask c\<rparr>
     else c)"

definition match_rx_masks :: "nf10_card \<Rightarrow> nf10_card" where
  "match_rx_masks c =
    (if rx_dsc_mask c > rx_dne_mask c then (set_cfg 9 (rx_dne_mask c) c)\<lparr>rx_dsc_mask := rx_dne_mask c\<rparr>
     else if rx_dne_mask c > rx_dsc_mask c then (set_cfg 15 (rx_dsc_mask c) c)\<lparr>rx_dne_mask := rx_dsc_mask c\<rparr>
     else c)"

definition set_host_buffers :: "probe_env \<Rightarrow> nf10_card \<Rightarrow> nf10_card" where
  "set_host_buffers env c =
    set_cfg 19 (rx_dne_mask c) (set_cfg 18 (rx_dne_dma env) (set_cfg 17 (tx_dne_mask c) (set_cfg 16 (tx_dne_dma env) c)))"

definition init_mem :: "u64 \<Rightarrow> nf10mem" where
  "init_mem m = \<lparr>wr_ptr = 0, rd_ptr = 0, cnt = 0, ptr_mask = m, cl_size = (m + 1) div 64\<rparr>"

definition init_mems :: "nf10_card \<Rightarrow> nf10_card" where
  "init_mems c = c\<lparr>mem_tx_dsc := init_mem (tx_dsc_mask c), mem_tx_pkt := init_mem (tx_pkt_mask c),
     mem_rx_dsc := init_mem (rx_dsc_mask c), mem_rx_pkt := init_mem (rx_pkt_mask c),
     host_tx_dne := init_mem (tx_dne_mask c), host_rx_dne := init_mem (rx_dne_mask c)\<rparr>"

text \<open>Fresh memory, and the loops that invalidate the completion buffers.\<close>

definition fresh :: "(nat \<Rightarrow> 'a) \<Rightarrow> u64 \<Rightarrow> 'a list" where
  "fresh junk n = map junk [0..<unat n]"

definition alloc_completions :: "probe_env \<Rightarrow> nf10_card \<Rightarrow> nf10_card" where
  "alloc_completions env c = c\<lparr>host_tx_buf := fresh (ucast \<circ> junk_word env) ((tx_dne_mask c + 1) div 64),
     host_rx_buf := fresh (junk_word env) ((rx_dne_mask c + 1) div 64)\<rparr>"

definition invalidate_completions :: "nf10_card \<Rightarrow> nf10_card" where
  "invalidate_completions c = c\<lparr>
     host_tx_buf := fold (\<lambda>i b. b[i := 0xffffffff]) [0..<unat (cl_size (host_tx_dne c))] (host_tx_buf c),
     host_rx_buf := fold (\<lambda>i b. b[i := 0xffffffffffffffff]) [0..<unat (cl_size (host_rx_dne c))] (host_rx_buf c)\<rparr>"

definition alloc_books :: "probe_env \<Rightarrow> nf10_card \<Rightarrow> nf10_card" where
  "alloc_books env c =
    (let n = cl_size (mem_tx_dsc c); k = cl_size (mem_rx_dsc c)
     in c\<lparr>tx_bk_skb := fresh (junk_skb env) n, tx_bk_dma_addr := fresh (junk_word env) n,
          tx_bk_size := fresh (junk_word env) n, tx_bk_port := fresh (junk_word env) n,
          rx_bk_skb := fresh (junk_skb env) k, rx_bk_dma_addr := fresh (junk_word env) k,
          rx_bk_size := fresh (junk_word env) k\<rparr>)"

section \<open>The labels\<close>

definition err_out_disable_device :: "host \<Rightarrow> host" where
  "err_out_disable_device = release Pci_enabled"

definition err_out_msi :: "host \<Rightarrow> host" where
  "err_out_msi h = err_out_disable_device (release Msi h)"

definition err_out_release_mem_region1 :: "host \<Rightarrow> host" where
  "err_out_release_mem_region1 h = err_out_msi (release (Mem_region 0) h)"

definition err_out_release_mem_region2 :: "host \<Rightarrow> host" where
  "err_out_release_mem_region2 h = err_out_release_mem_region1 (release (Mem_region 2) h)"

definition err_out_iounmap :: "host \<Rightarrow> host" where
  "err_out_iounmap h =
    (let h = release_if_held Tx_map h; h = release_if_held Rx_map h; h = release_if_held Cfg_map h
     in err_out_release_mem_region2 (release Card_struct (h\<lparr>drvdata := False\<rparr>)))"

definition book_resources :: "resource list" where
  "book_resources = [Tx_addrs, Tx_skbs, Tx_sizes, Tx_ports, Rx_addrs, Rx_skbs, Rx_sizes]"

definition err_out_free_private2 :: "host \<Rightarrow> host" where
  "err_out_free_private2 h = err_out_iounmap (release Rx_dne_buf (release Tx_dne_buf (fold release_if_held book_resources h)))"

section \<open>Probing\<close>

text \<open>The tail of \<open>nf10_probe\<close>, from where the completion buffers exist.\<close>

definition probe_interfaces :: "probe_env \<Rightarrow> host \<Rightarrow> (int \<times> host) option" where
  "probe_interfaces env h =
    (case nf10iface_probe env h of
       None \<Rightarrow> None
     | Some (ret, h) \<Rightarrow>
         if ret < 0 then Some (ret, err_out_free_private2 h)
         else
           let (ret, h) = nf10fops_probe env h
           in if ret < 0 then Some (ret, err_out_free_private2 h) else Some (ret, h))"

definition probe_rings :: "probe_env \<Rightarrow> host \<Rightarrow> (int \<times> host) option" where
  "probe_rings env h =
    (let h = request env Tx_dne_buf h; h = request env Rx_dne_buf h in
     if Rx_dne_buf \<notin> held h \<or> Tx_dne_buf \<notin> held h then Some (- ENODEV, err_out_free_private2 h)
     else
       let h = upd_hcard (invalidate_completions \<circ> init_mems \<circ> set_host_buffers env \<circ> alloc_completions env) h;
           h = request env Work_queue h;
           h = upd_hcard (\<lambda>c. c\<lparr>wq_made := Work_queue \<in> held h\<rparr>) h;
           h = fold (request env) [Tx_skbs, Tx_addrs, Tx_sizes, Tx_ports, Rx_skbs, Rx_addrs, Rx_sizes] h
       in if \<exists>r \<in> set book_resources. r \<notin> held h then Some (- ENODEV, err_out_free_private2 h)
          else probe_interfaces env (upd_hcard (alloc_books env) h\<lparr>drvdata := True\<rparr>))"

definition probe_mappings :: "probe_env \<Rightarrow> host \<Rightarrow> (int \<times> host) option" where
  "probe_mappings env h =
    (let h = request env Cfg_map h in
     if Cfg_map \<notin> held h then Some (- ENODEV, err_out_iounmap h)
     else
       let h = request env Tx_map h; h = request env Rx_map h in
       if Tx_map \<notin> held h \<or> Rx_map \<notin> held h then Some (- ENODEV, err_out_iounmap h)
       else probe_rings env (upd_hcard (match_rx_masks \<circ> match_tx_masks \<circ> set_masks \<circ> reset_card) h))"

definition nf10_probe :: "probe_env \<Rightarrow> host \<Rightarrow> (int \<times> host) option" where
  "nf10_probe env h =
    (if \<not> grants env Pci_enabled then Some (- ENODEV, h)
     else
       let h = get Pci_enabled h in
       if dma_mask_code env < 0 then Some (- EFAULT, err_out_disable_device h)
       else if coherent_mask_code env < 0 then Some (- EFAULT, err_out_disable_device h)
       else if \<not> grants env Msi then Some (- EFAULT, err_out_disable_device h)
       else
         let h = get Msi h in
         if \<not> grants env (Mem_region 0) then Some (- ENOMEM, err_out_msi h)
         else
           let h = get (Mem_region 0) h in
           if \<not> grants env (Mem_region 2) then Some (- ENOMEM, err_out_release_mem_region1 h)
           else
             let h = get (Mem_region 2) h in
             if \<not> grants env Card_struct then Some (- ENOMEM, err_out_release_mem_region2 h)
             else probe_mappings env ((get Card_struct h)\<lparr>hcard := zero_card\<rparr>))"

section \<open>Removing\<close>

definition free_private :: "host \<Rightarrow> host" where
  "free_private h =
    (let (_, h) = nf10fops_remove h; (_, h) = nf10iface_remove h;
         h = release_if_held Cfg_map h; h = release_if_held Tx_map h; h = release_if_held Rx_map h;
         h = release Rx_dne_buf (release Tx_dne_buf h); h = fold release_if_held book_resources h
     in release Card_struct h)"

definition nf10_remove :: "host \<Rightarrow> host" where
  "nf10_remove h =
    (let h = (if drvdata h then free_private h else h)\<lparr>drvdata := False\<rparr>;
         h = release (Mem_region 0) h; h = release (Mem_region 2) h
     in release Pci_enabled (release Msi h))"

end
