(* ===== verification/Nf10_Ring_Laws.thy ===== *)
theory Nf10_Ring_Laws
  imports Nf10_Ring
begin

text \<open>
  The laws of the rings: the outstanding packets and the receive descriptors are queues that the
  completions take in order, the counters agree with them, and what is sent fits its space. The
  rings have the geometry that nf10_probe sets: 32 descriptors and 512 lines of 64 bytes.
\<close>

section \<open>A window of a circular list\<close>

definition window :: "'a list \<Rightarrow> nat \<Rightarrow> nat \<Rightarrow> 'a list" where
  "window xs r k = map (\<lambda>j. xs ! ((r + j) mod length xs)) [0..<k]"

lemma window_0 [simp]: "window xs r 0 = []"
  by (simp add: window_def)

lemma length_window [simp]: "length (window xs r k) = k"
  by (simp add: window_def)

lemma window_put:
  assumes "k < length xs"
  shows "window (xs[(r + k) mod length xs := x]) r (Suc k) = window xs r k @ [x]"
proof -
  have "(r + k) mod length xs \<noteq> (r + j) mod length xs" if "j < k" for j
  proof (rule not_sym, rule notI)
    assume "(r + j) mod length xs = (r + k) mod length xs"
    then have "length xs dvd (r + k) - (r + j)" by (metis mod_eq_dvd_iff_nat nat_add_left_cancel_le less_imp_le_nat that)
    then have "length xs dvd k - j" by simp
    with that assms show False by (meson diff_is_0_eq dvd_imp_le leD less_imp_diff_less zero_less_diff order_less_le_trans)
  qed
  moreover have "xs \<noteq> []" using assms by auto
  ultimately show ?thesis by (auto simp: window_def)
qed

lemma window_take:
  assumes "r < length xs"
  shows "window xs r (Suc k) = xs ! r # window xs (Suc r mod length xs) k"
proof -
  have "[0..<Suc k] = 0 # map Suc [0..<k]" by (simp add: map_Suc_upt upt_conv_Cons del: upt_Suc)
  then show ?thesis using assms by (simp add: window_def o_def mod_simps del: upt_Suc)
qed

section \<open>Pointers and slots\<close>

definition slot_ptr :: "nat \<Rightarrow> u64" where
  "slot_ptr i = of_nat (64 * i)"

lemma slot_ptr_step:
  "\<forall>i \<in> set [0..<32]. (slot_ptr i + 64) AND 0x7ff = slot_ptr (Suc i mod 32) \<and> unat (slot_ptr i div 64) = i"
  by code_simp

lemma slot_ptr_next [simp]: "i < 32 \<Longrightarrow> (slot_ptr i + 64) AND 0x7ff = slot_ptr (Suc i mod 32)"
  and slot_ptr_index [simp]: "i < 32 \<Longrightarrow> unat (slot_ptr i div 64) = i"
  using slot_ptr_step by simp_all

lemma slot_ptr_ex [simp]: "i < 32 \<Longrightarrow> \<exists>j < 32. slot_ptr i = slot_ptr j"
  by blast

text \<open>The geometry: sizes, masks, and read pointers at the start of a line.\<close>

definition card_ok :: "nf10_card \<Rightarrow> bool" where
  "card_ok c \<longleftrightarrow>
    (\<forall>m \<in> {mem_tx_dsc c, mem_rx_dsc c, host_tx_dne c, host_rx_dne c}. ptr_mask m = 0x7ff \<and> cl_size m = 32)
    \<and> (\<forall>m \<in> {mem_tx_pkt c, mem_rx_pkt c}. ptr_mask m = 0x7fff \<and> cl_size m = 512)
    \<and> (\<exists>i < 32. rd_ptr (host_tx_dne c) = slot_ptr i) \<and> (\<exists>i < 32. rd_ptr (host_rx_dne c) = slot_ptr i)
    \<and> (\<exists>i < 32. wr_ptr (mem_tx_dsc c) = slot_ptr i) \<and> (\<exists>i < 32. wr_ptr (mem_rx_dsc c) = slot_ptr i)
    \<and> length (tx_bk_skb c) = 32 \<and> length (tx_bk_dma_addr c) = 32 \<and> length (tx_bk_size c) = 32
    \<and> length (tx_bk_port c) = 32 \<and> length (rx_bk_skb c) = 32 \<and> length (rx_bk_dma_addr c) = 32
    \<and> length (rx_bk_size c) = 32 \<and> length (host_tx_buf c) = 32 \<and> length (host_rx_buf c) = 32
    \<and> length (ndev c) = 4"

definition tx_first :: "nf10_card \<Rightarrow> nat" where
  "tx_first c = unat (rd_ptr (host_tx_dne c) div 64)"

definition rx_first :: "nf10_card \<Rightarrow> nat" where
  "rx_first c = unat (rd_ptr (host_rx_dne c) div 64)"

text \<open>The packets that the card still has, and the receive buffers that it has, oldest first.\<close>

definition tx_queue :: "nf10_card \<Rightarrow> sk_buff list" where
  "tx_queue c = window (tx_bk_skb c) (tx_first c) (unat (cnt (mem_tx_dsc c)))"

definition rx_queue :: "nf10_card \<Rightarrow> sk_buff list" where
  "rx_queue c = window (rx_bk_skb c) (rx_first c) (unat (cnt (mem_rx_dsc c)))"

definition lines_used :: "u64 list \<Rightarrow> nat \<Rightarrow> nat \<Rightarrow> nat" where
  "lines_used sizes r k = sum_list (map unat (window sizes r k))"

definition tx_ok :: "nf10_card \<Rightarrow> bool" where
  "tx_ok c \<longleftrightarrow> card_ok c \<and> (let r = tx_first c; k = unat (cnt (mem_tx_dsc c)) in
     k \<le> 32 \<and> wr_ptr (mem_tx_dsc c) = slot_ptr ((r + k) mod 32)
     \<and> unat (cnt (mem_tx_pkt c)) = lines_used (tx_bk_size c) r k \<and> unat (cnt (mem_tx_pkt c)) \<le> 512)"

definition rx_ok :: "nf10_card \<Rightarrow> bool" where
  "rx_ok c \<longleftrightarrow> card_ok c \<and> (let r = rx_first c; k = unat (cnt (mem_rx_dsc c)) in
     k \<le> 32 \<and> wr_ptr (mem_rx_dsc c) = slot_ptr ((r + k) mod 32)
     \<and> unat (cnt (mem_rx_pkt c)) = lines_used (rx_bk_size c) r k \<and> unat (cnt (mem_rx_pkt c)) \<le> 512
     \<and> set (window (rx_bk_size c) r k) \<subseteq> {rx_lines})"

lemma first_slot:
  assumes "card_ok c"
  shows "tx_first c < 32" "rx_first c < 32" "rd_ptr (host_tx_dne c) = slot_ptr (tx_first c)"
    "rd_ptr (host_rx_dne c) = slot_ptr (rx_first c)"
  using assms by (auto simp: card_ok_def tx_first_def rx_first_def)

lemma lines_used_put:
  "k < length sizes \<Longrightarrow> lines_used (sizes[(r + k) mod length sizes := n]) r (Suc k) = lines_used sizes r k + unat n"
  by (simp add: lines_used_def window_put)

lemma lines_used_take:
  "r < length sizes \<Longrightarrow> lines_used sizes r (Suc k) = unat (sizes ! r) + lines_used sizes (Suc r mod length sizes) k"
  by (simp add: lines_used_def window_take)

lemma add_small:
  assumes "unat a + unat b < 2 ^ 64"
  shows "unat (a + b :: u64) = unat a + unat b"
  using assms by (simp add: unat_word_ariths)

lemma sub_small: "b \<le> a \<Longrightarrow> unat (a - b :: u64) = unat a - unat b"
  by (simp add: unat_sub)

section \<open>Sending\<close>

lemma tx_lines_nat: "unat (tx_lines len) = unat ((len + 2 * 63) div 64)" "unat (tx_lines len) < 2 ^ 32"
proof -
  have small: "unat ((len + 2 * 63) div 64) < 2 ^ LENGTH(32)" by (rule unsigned_less)
  then have "unat ((len + 2 * 63) div 64) < 2 ^ 64" by simp
  then show nat: "unat (tx_lines len) = unat ((len + 2 * 63) div 64)"
    unfolding tx_lines_def unsigned_ucast_eq by (simp add: take_bit_nat_eq_self)
  show "unat (tx_lines len) < 2 ^ 32" using small by (simp add: nat)
qed

lemma has_room_nat:
  assumes "has_room d p dsc pkt" "cl_size dsc = 32" "cl_size pkt = 512"
    "unat d < 2 ^ 32" "unat p < 2 ^ 32" "unat (cnt dsc) \<le> 32" "unat (cnt pkt) \<le> 512"
  shows "unat (cnt dsc) + unat d \<le> 32" "unat (cnt pkt) + unat p \<le> 512"
    "unat (cnt dsc + d) = unat (cnt dsc) + unat d" "unat (cnt pkt + p) = unat (cnt pkt) + unat p"
proof -
  show a: "unat (cnt dsc + d) = unat (cnt dsc) + unat d" "unat (cnt pkt + p) = unat (cnt pkt) + unat p"
    using assms(4-) by (simp_all add: add_small)
  show "unat (cnt dsc) + unat d \<le> 32" "unat (cnt pkt) + unat p \<le> 512"
    using assms(1-3) by (simp_all add: has_room_def word_le_nat_alt flip: a)
qed

lemma upd_dev_fields:
  assumes "upd_dev p f c = Some c'"
  shows "c' = c\<lparr>ndev := ndev c'\<rparr>" "length (ndev c') = length (ndev c)"
  using assms by (auto simp: upd_dev_def split: if_splits)

lemma reserve_tx_fields:
  assumes "reserve_tx n port c = Some c'"
  shows "c' = c\<lparr>mem_tx_dsc := add_cnt 1 (mem_tx_dsc c), mem_tx_pkt := add_cnt n (mem_tx_pkt c), ndev := ndev c'\<rparr>"
    "length (ndev c') = length (ndev c)"
  using assms upd_dev_fields [of port _ "c\<lparr>mem_tx_dsc := add_cnt 1 (mem_tx_dsc c), mem_tx_pkt := add_cnt n (mem_tx_pkt c)\<rparr>" c']
  by (auto simp: reserve_tx_def Let_def split: if_splits)

lemma book_tx_fields:
  assumes "book_tx da pa a n skb port c = Some c'"
  shows "c' = c\<lparr>tx_bk_dma_addr := (tx_bk_dma_addr c)[unat (da div 64) := a],
      tx_bk_skb := (tx_bk_skb c)[unat (da div 64) := skb], tx_bk_size := (tx_bk_size c)[unat (da div 64) := n],
      tx_bk_port := (tx_bk_port c)[unat (da div 64) := of_nat port], tx_dsc := tx_dsc c'\<rparr>"
  using assms by (auto simp: book_tx_def put_at_def Let_def bind_eq_Some_conv split: if_splits)

lemma xmit_sent:
  assumes "nf10priv_xmit dma skb port c = Some (0, c')"
  obtains a d where "dma = Some a" "has_room 1 (tx_lines (skb_len skb)) (mem_tx_dsc c) (mem_tx_pkt c)"
    "reserve_tx (tx_lines (skb_len skb)) port (c\<lparr>mem_tx_pkt := take_space (tx_lines (skb_len skb)) (mem_tx_pkt c),
       mem_tx_dsc := take_space 1 (mem_tx_dsc c)\<rparr>) = Some d"
    "book_tx (wr_ptr (mem_tx_dsc c)) (wr_ptr (mem_tx_pkt c)) a (tx_lines (skb_len skb)) skb port d = Some c'"
  using assms by (auto simp: nf10priv_xmit_def Let_def bind_eq_Some_conv split: if_splits option.splits)

lemma sum_mem [simp, ring_simps]:
  "cnt (add_cnt n m) = cnt m + n" "wr_ptr (add_cnt n m) = wr_ptr m" "rd_ptr (add_cnt n m) = rd_ptr m"
  "ptr_mask (add_cnt n m) = ptr_mask m" "cl_size (add_cnt n m) = cl_size m"
  "cnt (sub_cnt n m) = cnt m - n" "wr_ptr (sub_cnt n m) = wr_ptr m" "rd_ptr (sub_cnt n m) = rd_ptr m"
  "ptr_mask (sub_cnt n m) = ptr_mask m" "cl_size (sub_cnt n m) = cl_size m"
  "cnt (take_space n m) = cnt m" "wr_ptr (take_space n m) = (wr_ptr m + 64 * n) AND ptr_mask m"
  "rd_ptr (take_space n m) = rd_ptr m" "ptr_mask (take_space n m) = ptr_mask m" "cl_size (take_space n m) = cl_size m"
  "cnt (advance_rd m) = cnt m" "wr_ptr (advance_rd m) = wr_ptr m" "rd_ptr (advance_rd m) = (rd_ptr m + 64) AND ptr_mask m"
  "ptr_mask (advance_rd m) = ptr_mask m" "cl_size (advance_rd m) = cl_size m"
  by (simp_all add: add_cnt_def sub_cnt_def take_space_def advance_rd_def)

lemma xmit_queues:
  assumes ok: "tx_ok c" and x: "nf10priv_xmit dma skb port c = Some (0, c')"
  shows "tx_ok c' \<and> tx_queue c' = tx_queue c @ [skb]"
proof -
  let ?n = "tx_lines (skb_len skb)" and ?r = "tx_first c" and ?k = "unat (cnt (mem_tx_dsc c))"
  obtain a d where x: "has_room 1 ?n (mem_tx_dsc c) (mem_tx_pkt c)"
    "reserve_tx ?n port (c\<lparr>mem_tx_pkt := take_space ?n (mem_tx_pkt c), mem_tx_dsc := take_space 1 (mem_tx_dsc c)\<rparr>) = Some d"
    "book_tx (wr_ptr (mem_tx_dsc c)) (wr_ptr (mem_tx_pkt c)) a ?n skb port d = Some c'"
    using xmit_sent [OF x] by metis
  have g: "card_ok c" "?k \<le> 32" "wr_ptr (mem_tx_dsc c) = slot_ptr ((?r + ?k) mod 32)"
    "unat (cnt (mem_tx_pkt c)) = lines_used (tx_bk_size c) ?r ?k" "unat (cnt (mem_tx_pkt c)) \<le> 512"
    using ok by (simp_all add: tx_ok_def Let_def)
  have geo: "cl_size (mem_tx_dsc c) = 32" "cl_size (mem_tx_pkt c) = 512" "ptr_mask (mem_tx_dsc c) = 0x7ff"
    "ptr_mask (mem_tx_pkt c) = 0x7fff" "length (tx_bk_skb c) = 32" "length (tx_bk_size c) = 32"
    using g(1) by (simp_all add: card_ok_def)
  note room = has_room_nat [OF x(1) geo(1,2) _ tx_lines_nat(2) g(2,5)]
  have k: "Suc ?k \<le> 32" "unat (cnt (mem_tx_dsc c) + 1) = Suc ?k"
    "unat (cnt (mem_tx_pkt c)) + unat ?n \<le> 512" "unat (cnt (mem_tx_pkt c) + ?n) = unat (cnt (mem_tx_pkt c)) + unat ?n"
    using room by simp_all
  let ?i = "(?r + ?k) mod 32"
  have i: "?i < 32" "unat (wr_ptr (mem_tx_dsc c) div 64) = ?i" by (simp_all add: g(3))
  have c': "c' = c\<lparr>mem_tx_pkt := add_cnt ?n (take_space ?n (mem_tx_pkt c)), mem_tx_dsc := add_cnt 1 (take_space 1 (mem_tx_dsc c)),
      ndev := ndev d, tx_bk_dma_addr := (tx_bk_dma_addr c)[?i := a], tx_bk_skb := (tx_bk_skb c)[?i := skb],
      tx_bk_size := (tx_bk_size c)[?i := ?n], tx_bk_port := (tx_bk_port c)[?i := of_nat port], tx_dsc := tx_dsc c'\<rparr>"
    by (subst book_tx_fields [OF x(3)], subst (1 2 3 4 5) reserve_tx_fields(1) [OF x(2)]) (simp add: i)
  have first: "tx_first c' = ?r" by (subst c') (simp add: tx_first_def)
  have cnt': "cnt (mem_tx_dsc c') = cnt (mem_tx_dsc c) + 1" "cnt (mem_tx_pkt c') = cnt (mem_tx_pkt c) + ?n"
    "tx_bk_skb c' = (tx_bk_skb c)[?i := skb]" "tx_bk_size c' = (tx_bk_size c)[?i := ?n]"
    "wr_ptr (mem_tx_dsc c') = slot_ptr (Suc ?i mod 32)"
    by (subst c', simp add: geo g(3))+
  have dev: "length (ndev d) = length (ndev c)" using reserve_tx_fields(2) [OF x(2)] by simp
  have "card_ok c'" using g(1) dev i(1) by (subst c') (auto simp: card_ok_def geo g(3))
  moreover have "Suc ?i mod 32 = (?r + Suc ?k) mod 32" by (simp add: mod_Suc_eq)
  ultimately have "tx_ok c'"
    using k g(4) lines_used_put [of ?k "tx_bk_size c" ?r ?n] by (simp add: tx_ok_def Let_def first cnt' geo)
  moreover have "tx_queue c' = tx_queue c @ [skb]"
    using k window_put [of ?k "tx_bk_skb c" ?r skb] by (simp add: tx_queue_def first cnt' geo)
  ultimately show ?thesis by blast
qed

section \<open>Completions\<close>

lemma take_tx_total:
  assumes g: "card_ok c"
  shows "take_tx c = Some (tx_bk_skb c ! tx_first c,
    c\<lparr>host_tx_dne := advance_rd (host_tx_dne c), unmapped := unmapped c @ [(tx_bk_dma_addr c ! tx_first c, skb_len (tx_bk_skb c ! tx_first c))],
      freed := freed c @ [tx_bk_skb c ! tx_first c], mem_tx_pkt := sub_cnt (tx_bk_size c ! tx_first c) (mem_tx_pkt c),
      mem_tx_dsc := sub_cnt 1 (mem_tx_dsc c), host_tx_buf := (host_tx_buf c)[tx_first c := 0xffffffff]\<rparr>)"
proof -
  have i: "unat (rd_ptr (host_tx_dne c) div 64) = tx_first c" by (simp add: tx_first_def)
  have "length (tx_bk_skb c) = 32" "length (tx_bk_size c) = 32" "length (tx_bk_dma_addr c) = 32" "length (host_tx_buf c) = 32"
    using g by (simp_all add: card_ok_def)
  then show ?thesis using first_slot(1) [OF g] by (simp add: take_tx_def get_at_def put_at_def i)
qed

lemma take_rx_total:
  assumes g: "card_ok c"
  shows "take_rx c = Some (rx_bk_skb c ! rx_first c,
    c\<lparr>host_rx_dne := advance_rd (host_rx_dne c), host_rx_buf := (host_rx_buf c)[rx_first c := 0xffffffffffffffff],
      unmapped := unmapped c @ [(rx_bk_dma_addr c ! rx_first c, skb_len (rx_bk_skb c ! rx_first c))],
      mem_rx_pkt := sub_cnt (rx_bk_size c ! rx_first c) (mem_rx_pkt c), mem_rx_dsc := sub_cnt 1 (mem_rx_dsc c)\<rparr>)"
proof -
  have i: "unat (rd_ptr (host_rx_dne c) div 64) = rx_first c" by (simp add: rx_first_def)
  have "length (rx_bk_skb c) = 32" "length (rx_bk_size c) = 32" "length (rx_bk_dma_addr c) = 32" "length (host_rx_buf c) = 32"
    using g by (simp_all add: card_ok_def)
  then show ?thesis using first_slot(2) [OF g] by (simp add: take_rx_def get_at_def put_at_def i)
qed

text \<open>What both rings do when their oldest entry leaves.\<close>

lemma ring_take:
  fixes k p :: u64
  assumes r: "r < 32" and len: "length xs = 32" "length sizes = 32" and k: "unat k \<le> 32"
    and q: "window xs r (unat k) = x # q" and used: "unat p = lines_used sizes r (unat k)" "unat p \<le> 512"
  shows "x = xs ! r" "window xs (Suc r mod 32) (unat (k - 1)) = q" "unat (k - 1) \<le> 32"
    "(Suc r mod 32 + unat (k - 1)) mod 32 = (r + unat k) mod 32"
    "unat (p - sizes ! r) = lines_used sizes (Suc r mod 32) (unat (k - 1))" "unat (p - sizes ! r) \<le> 512"
proof -
  obtain j where j: "unat k = Suc j" using q by (cases "unat k") auto
  have "1 \<le> k" using j by (simp add: word_le_nat_alt)
  then have k1: "unat (k - 1) = j" using sub_small [of 1 k] j by simp
  have w: "window xs r (Suc j) = xs ! r # window xs (Suc r mod 32) j"
    using window_take [of r xs j] r len by simp
  then show "x = xs ! r" "window xs (Suc r mod 32) (unat (k - 1)) = q" using q by (simp_all add: j k1)
  show "unat (k - 1) \<le> 32" using k by (simp add: j k1)
  show "(Suc r mod 32 + unat (k - 1)) mod 32 = (r + unat k) mod 32" by (simp add: j k1 mod_simps)
  have u: "unat p = unat (sizes ! r) + lines_used sizes (Suc r mod 32) j"
    using used(1) lines_used_take [of r sizes j] r len by (simp add: j)
  then have "sizes ! r \<le> p" by (simp add: word_le_nat_alt)
  then show "unat (p - sizes ! r) = lines_used sizes (Suc r mod 32) (unat (k - 1))"
    using u by (simp add: sub_small k1)
  then show "unat (p - sizes ! r) \<le> 512" using u used(2) by (simp add: k1)
qed

lemma take_tx_queue:
  assumes ok: "tx_ok c" and q: "tx_queue c = x # xs"
  shows "\<exists>c'. take_tx c = Some (x, c') \<and> tx_ok c' \<and> tx_queue c' = xs \<and> freed c' = freed c @ [x]"
proof -
  have g: "card_ok c" using ok by (simp add: tx_ok_def)
  let ?r = "tx_first c"
  obtain c' addr where t: "take_tx c = Some (tx_bk_skb c ! ?r, c')" and
    c': "c' = c\<lparr>host_tx_dne := advance_rd (host_tx_dne c), unmapped := unmapped c @ [(addr, skb_len (tx_bk_skb c ! ?r))],
      freed := freed c @ [tx_bk_skb c ! ?r], mem_tx_pkt := sub_cnt (tx_bk_size c ! ?r) (mem_tx_pkt c),
      mem_tx_dsc := sub_cnt 1 (mem_tx_dsc c), host_tx_buf := (host_tx_buf c)[?r := 0xffffffff]\<rparr>"
    using take_tx_total [OF g] by blast
  have geo: "length (tx_bk_skb c) = 32" "length (tx_bk_size c) = 32" "ptr_mask (host_tx_dne c) = 0x7ff"
    using g by (simp_all add: card_ok_def)
  note f = first_slot(1,3) [OF g]
  have first: "tx_first c' = Suc ?r mod 32"
    unfolding tx_first_def [of c'] by (simp add: c' geo f)
  note rt = ring_take [OF f(1) geo(1,2) _ q [unfolded tx_queue_def], of "cnt (mem_tx_pkt c)"]
  have inv: "unat (cnt (mem_tx_dsc c)) \<le> 32" "unat (cnt (mem_tx_pkt c)) = lines_used (tx_bk_size c) ?r (unat (cnt (mem_tx_dsc c)))"
    "unat (cnt (mem_tx_pkt c)) \<le> 512" "wr_ptr (mem_tx_dsc c) = slot_ptr ((?r + unat (cnt (mem_tx_dsc c))) mod 32)"
    using ok by (simp_all add: tx_ok_def Let_def)
  note rt = rt [OF inv(1-3)]
  have "card_ok c'"
    using g f by (simp add: c' card_ok_def geo)
  then have "tx_ok c'"
    using rt inv(4) unfolding tx_ok_def Let_def first by (simp add: c')
  moreover have "tx_queue c' = xs" using rt(2) by (simp add: tx_queue_def first) (simp add: c')
  ultimately show ?thesis using t rt(1) by (simp add: c')
qed

lemma wake_queues_same:
  "tx_ok (wake_queues c) = tx_ok c" "tx_queue (wake_queues c) = tx_queue c" "freed (wake_queues c) = freed c"
  by (simp_all add: wake_queues_def tx_ok_def card_ok_def tx_first_def tx_queue_def Let_def)

lemma tx_complete_queue:
  assumes "tx_ok c" "tx_queue c = x # xs"
  shows "\<exists>c'. tx_complete c = Some c' \<and> tx_ok c' \<and> tx_queue c' = xs \<and> freed c' = freed c @ [x]"
  using take_tx_queue [OF assms] wake_queues_same by (auto simp: tx_complete_def)

section \<open>Receive descriptors\<close>

lemma rx_lines_24: "rx_lines = 24"
  by (simp add: rx_lines_def SK_BUFF_ALLOC_SIZE_def)

text \<open>The lines in use are 24 for each buffer.\<close>

lemma rx_used:
  assumes "rx_ok c"
  shows "unat (cnt (mem_rx_pkt c)) = 24 * length (rx_queue c)" "unat (cnt (mem_rx_dsc c)) = length (rx_queue c)"
proof -
  have *: "sum_list (map unat ns) = 24 * length ns" if "set ns \<subseteq> {rx_lines}" for ns
    using that by (induction ns) (auto simp: rx_lines_24)
  let ?w = "window (rx_bk_size c) (rx_first c) (unat (cnt (mem_rx_dsc c)))"
  have "set ?w \<subseteq> {rx_lines}" "unat (cnt (mem_rx_pkt c)) = sum_list (map unat ?w)"
    using assms by (simp_all add: rx_ok_def Let_def lines_used_def)
  then show "unat (cnt (mem_rx_pkt c)) = 24 * length (rx_queue c)" by (simp add: * rx_queue_def)
  show "unat (cnt (mem_rx_dsc c)) = length (rx_queue c)" by (simp add: rx_queue_def)
qed

lemma book_rx_fields:
  assumes "book_rx da pa a skb c = Some c'"
  shows "c' = c\<lparr>rx_bk_dma_addr := (rx_bk_dma_addr c)[unat (da div 64) := a],
      rx_bk_skb := (rx_bk_skb c)[unat (da div 64) := skb], rx_bk_size := (rx_bk_size c)[unat (da div 64) := rx_lines],
      rx_dsc := rx_dsc c'\<rparr>"
  using assms by (auto simp: book_rx_def put_at_def Let_def bind_eq_Some_conv split: if_splits)

lemma book_rx_total:
  assumes "card_ok c" "unat (da div 64) < 32"
  shows "\<exists>c'. book_rx da pa a skb c = Some c'"
  using assms by (simp add: card_ok_def book_rx_def put_at_def Let_def)

lemma send_rx_queues:
  assumes ok: "rx_ok c" and x: "nf10priv_send_rx_dsc (Some (skb, a)) c = Some (0, c')"
  shows "rx_ok c' \<and> rx_queue c' = rx_queue c @ [skb]"
proof -
  let ?r = "rx_first c" and ?k = "unat (cnt (mem_rx_dsc c))"
  let ?d = "c\<lparr>mem_rx_pkt := add_cnt rx_lines (take_space rx_lines (mem_rx_pkt c)),
      mem_rx_dsc := add_cnt 1 (take_space 1 (mem_rx_dsc c))\<rparr>"
  have x: "has_room 1 rx_lines (mem_rx_dsc c) (mem_rx_pkt c)"
    "book_rx (wr_ptr (mem_rx_dsc c)) (wr_ptr (mem_rx_pkt c)) a skb ?d = Some c'"
    using x by (auto simp: nf10priv_send_rx_dsc_def Let_def split: if_splits)
  have g: "card_ok c" "?k \<le> 32" "wr_ptr (mem_rx_dsc c) = slot_ptr ((?r + ?k) mod 32)"
    "unat (cnt (mem_rx_pkt c)) = lines_used (rx_bk_size c) ?r ?k" "unat (cnt (mem_rx_pkt c)) \<le> 512"
    "set (window (rx_bk_size c) ?r ?k) \<subseteq> {rx_lines}"
    using ok by (simp_all add: rx_ok_def Let_def)
  have geo: "cl_size (mem_rx_dsc c) = 32" "cl_size (mem_rx_pkt c) = 512" "ptr_mask (mem_rx_dsc c) = 0x7ff"
    "ptr_mask (mem_rx_pkt c) = 0x7fff" "length (rx_bk_skb c) = 32" "length (rx_bk_size c) = 32"
    using g(1) by (simp_all add: card_ok_def)
  have k: "Suc ?k \<le> 32" "unat (cnt (mem_rx_dsc c) + 1) = Suc ?k"
    "unat (cnt (mem_rx_pkt c)) + unat rx_lines \<le> 512" "unat (cnt (mem_rx_pkt c) + rx_lines) = unat (cnt (mem_rx_pkt c)) + unat rx_lines"
    using has_room_nat [OF x(1) geo(1,2) _ _ g(2,5)] by (simp_all add: rx_lines_24)
  let ?i = "(?r + ?k) mod 32"
  have i: "?i < 32" "unat (wr_ptr (mem_rx_dsc c) div 64) = ?i" by (simp_all add: g(3))
  have c': "c' = ?d\<lparr>rx_bk_dma_addr := (rx_bk_dma_addr c)[?i := a], rx_bk_skb := (rx_bk_skb c)[?i := skb],
      rx_bk_size := (rx_bk_size c)[?i := rx_lines], rx_dsc := rx_dsc c'\<rparr>"
    by (subst book_rx_fields [OF x(2)]) (simp add: i)
  have first: "rx_first c' = ?r" by (subst c') (simp add: rx_first_def)
  have cnt': "cnt (mem_rx_dsc c') = cnt (mem_rx_dsc c) + 1" "cnt (mem_rx_pkt c') = cnt (mem_rx_pkt c) + rx_lines"
    "rx_bk_skb c' = (rx_bk_skb c)[?i := skb]" "rx_bk_size c' = (rx_bk_size c)[?i := rx_lines]"
    "wr_ptr (mem_rx_dsc c') = slot_ptr (Suc ?i mod 32)"
    by (subst c', simp add: geo g(3))+
  have "card_ok c'" using g(1) i(1) by (subst c') (auto simp: card_ok_def geo g(3))
  moreover have "Suc ?i mod 32 = (?r + Suc ?k) mod 32" by (simp add: mod_Suc_eq)
  ultimately have "rx_ok c'"
    using k g(4,6) lines_used_put [of ?k "rx_bk_size c" ?r rx_lines] window_put [of ?k "rx_bk_size c" ?r rx_lines] by (simp add: rx_ok_def Let_def first cnt' geo)
  moreover have "rx_queue c' = rx_queue c @ [skb]"
    using k window_put [of ?k "rx_bk_skb c" ?r skb] by (simp add: rx_queue_def first cnt' geo)
  ultimately show ?thesis by blast
qed

lemma take_rx_queue:
  assumes ok: "rx_ok c" and q: "rx_queue c = x # xs"
  shows "\<exists>c'. take_rx c = Some (x, c') \<and> rx_ok c' \<and> rx_queue c' = xs"
proof -
  have g: "card_ok c" using ok by (simp add: rx_ok_def)
  let ?r = "rx_first c"
  obtain c' where t: "take_rx c = Some (rx_bk_skb c ! ?r, c')" and
    c': "c' = c\<lparr>host_rx_dne := advance_rd (host_rx_dne c), host_rx_buf := (host_rx_buf c)[?r := 0xffffffffffffffff],
      unmapped := unmapped c @ [(rx_bk_dma_addr c ! ?r, skb_len (rx_bk_skb c ! ?r))],
      mem_rx_pkt := sub_cnt (rx_bk_size c ! ?r) (mem_rx_pkt c), mem_rx_dsc := sub_cnt 1 (mem_rx_dsc c)\<rparr>"
    using take_rx_total [OF g] by blast
  have geo: "length (rx_bk_skb c) = 32" "length (rx_bk_size c) = 32" "ptr_mask (host_rx_dne c) = 0x7ff"
    using g by (simp_all add: card_ok_def)
  note f = first_slot(2,4) [OF g]
  have first: "rx_first c' = Suc ?r mod 32"
    unfolding rx_first_def [of c'] by (simp add: c' geo f)
  have inv: "unat (cnt (mem_rx_dsc c)) \<le> 32" "unat (cnt (mem_rx_pkt c)) = lines_used (rx_bk_size c) ?r (unat (cnt (mem_rx_dsc c)))"
    "unat (cnt (mem_rx_pkt c)) \<le> 512" "wr_ptr (mem_rx_dsc c) = slot_ptr ((?r + unat (cnt (mem_rx_dsc c))) mod 32)"
    using ok by (simp_all add: rx_ok_def Let_def)
  note rt = ring_take [OF f(1) geo(1,2) inv(1) q [unfolded rx_queue_def] inv(2,3)]
  have sized: "set (window (rx_bk_size c) ?r (unat (cnt (mem_rx_dsc c)))) \<subseteq> {rx_lines}"
    using ok by (simp add: rx_ok_def Let_def)
  obtain n ns where ns: "window (rx_bk_size c) ?r (unat (cnt (mem_rx_dsc c))) = n # ns"
    using q by (cases "window (rx_bk_size c) ?r (unat (cnt (mem_rx_dsc c)))") (auto simp: rx_queue_def window_def)
  from ring_take(2) [OF f(1) geo(2,2) inv(1) ns inv(2,3)] sized ns
  have ns': "set (window (rx_bk_size c) (Suc ?r mod 32) (unat (cnt (mem_rx_dsc c) - 1))) \<subseteq> {rx_lines}" by simp
  have "card_ok c'"
    using g f by (simp add: c' card_ok_def geo)
  then have "rx_ok c'"
    using rt inv(4) ns' unfolding rx_ok_def Let_def first by (simp add: c')
  moreover have "rx_queue c' = xs" using rt(2) by (simp add: rx_queue_def first) (simp add: c')
  ultimately show ?thesis using t rt(1) by (simp add: c')
qed

section \<open>Both rings are queues\<close>

text \<open>
  \<open>put\<close> may refuse an item. \<open>take\<close> is only asked for when there is one: the card completes
  nothing that was not given to it.
\<close>

locale fifo =
  fixes ok :: "'s \<Rightarrow> bool" and queue :: "'s \<Rightarrow> 'a list"
    and put :: "'i \<Rightarrow> 's \<Rightarrow> 's option" and item :: "'i \<Rightarrow> 'a" and take :: "'s \<Rightarrow> ('a \<times> 's) option"
  assumes put_ok: "ok s \<Longrightarrow> put i s = Some s' \<Longrightarrow> ok s' \<and> queue s' = queue s @ [item i]"
    and take_ok: "ok s \<Longrightarrow> queue s = x # xs \<Longrightarrow> \<exists>s'. take s = Some (x, s') \<and> ok s' \<and> queue s' = xs"
begin

text \<open>\<open>Some i\<close> sends, \<open>None\<close> completes; the result has what was accepted and what came out.\<close>

fun run :: "'i option list \<Rightarrow> 's \<Rightarrow> 's \<times> 'a list \<times> 'a list" where
  "run [] s = (s, [], [])"
| "run (Some i # ops) s =
    (case put i s of
       None \<Rightarrow> run ops s
     | Some s \<Rightarrow> (case run ops s of (s', acc, out) \<Rightarrow> (s', item i # acc, out)))"
| "run (None # ops) s =
    (case take s of
       None \<Rightarrow> run ops s
     | Some (x, s) \<Rightarrow> (case run ops s of (s', acc, out) \<Rightarrow> (s', acc, x # out)))"

text \<open>No completion comes while the queue is empty.\<close>

fun fair :: "'i option list \<Rightarrow> 's \<Rightarrow> bool" where
  "fair [] s = True"
| "fair (Some i # ops) s = (case put i s of None \<Rightarrow> fair ops s | Some s \<Rightarrow> fair ops s)"
| "fair (None # ops) s = (queue s \<noteq> [] \<and> (\<forall>x s'. take s = Some (x, s') \<longrightarrow> fair ops s'))"

lemma run_fifo:
  assumes "ok s" "fair ops s" "run ops s = (s', acc, out)"
  shows "ok s' \<and> out @ queue s' = queue s @ acc"
  using assms
proof (induction ops arbitrary: s acc out)
  case (Cons op ops)
  show ?case
  proof (cases op)
    case None
    then obtain x xs where q: "queue s = x # xs" using Cons.prems(2) by (cases "queue s") auto
    then obtain t where t: "take s = Some (x, t)" "ok t" "queue t = xs" using take_ok Cons.prems(1) by blast
    obtain out' where r: "run ops t = (s', acc, out')" "out = x # out'"
      using Cons.prems(3) None t(1) by (auto split: prod.splits)
    show ?thesis using Cons.IH [OF t(2) _ r(1)] Cons.prems(2) None t q r(2) by simp
  next
    case (Some i)
    show ?thesis
    proof (cases "put i s")
      case None
      with Some Cons show ?thesis by simp
    next
      case (Some t)
      then have t: "ok t" "queue t = queue s @ [item i]" using put_ok Cons.prems(1) by blast+
      obtain acc' where r: "run ops t = (s', acc', out)" "acc = item i # acc'"
        using Cons.prems(3) Some \<open>op = Some i\<close> by (auto split: prod.splits)
      show ?thesis using Cons.IH [OF t(1) _ r(1)] Cons.prems(2) Some \<open>op = Some i\<close> t r(2) by simp
    qed
  qed
qed simp

end

text \<open>A packet with its address and port; the driver accepts it when the call returns 0.\<close>

type_synonym tx_request = "sk_buff \<times> u64 \<times> nat"

definition put_tx :: "tx_request \<Rightarrow> nf10_card \<Rightarrow> nf10_card option" where
  "put_tx = (\<lambda>(skb, a, port) c.
    (case nf10priv_xmit (Some a) skb port c of Some (r, c) \<Rightarrow> if r = 0 then Some c else None | None \<Rightarrow> None))"

definition put_rx :: "sk_buff \<times> u64 \<Rightarrow> nf10_card \<Rightarrow> nf10_card option" where
  "put_rx = (\<lambda>(skb, a) c.
    (case nf10priv_send_rx_dsc (Some (skb, a)) c of Some (r, c) \<Rightarrow> if r = 0 then Some c else None | None \<Rightarrow> None))"

lemma put_tx_ok:
  assumes "tx_ok c" "put_tx i c = Some c'"
  shows "tx_ok c' \<and> tx_queue c' = tx_queue c @ [fst i]"
proof -
  obtain skb a port where i: "i = (skb, a, port)" by (cases i) auto
  have "nf10priv_xmit (Some a) skb port c = Some (0, c')"
    using assms(2) by (simp add: put_tx_def i split: option.splits prod.splits if_splits)
  from xmit_queues [OF assms(1) this] show ?thesis by (simp add: i)
qed

lemma put_rx_ok:
  assumes "rx_ok c" "put_rx i c = Some c'"
  shows "rx_ok c' \<and> rx_queue c' = rx_queue c @ [fst i]"
proof -
  obtain skb a where i: "i = (skb, a)" by (cases i) auto
  have "nf10priv_send_rx_dsc (Some (skb, a)) c = Some (0, c')"
    using assms(2) by (simp add: put_rx_def i split: option.splits prod.splits if_splits)
  from send_rx_queues [OF assms(1) this] show ?thesis by (simp add: i)
qed

lemma take_tx_ok: "tx_ok c \<Longrightarrow> tx_queue c = x # xs \<Longrightarrow> \<exists>c'. take_tx c = Some (x, c') \<and> tx_ok c' \<and> tx_queue c' = xs"
  using take_tx_queue by blast

interpretation tx_ring: fifo tx_ok tx_queue put_tx fst take_tx
  by unfold_locales (fact put_tx_ok take_tx_ok)+

interpretation rx_ring: fifo rx_ok rx_queue put_rx fst take_rx
  by unfold_locales (fact put_rx_ok take_rx_queue)+

end
