(* ===== verification/Nf10_Work_Laws.thy ===== *)
theory Nf10_Work_Laws
  imports Nf10_Ring_Laws
begin

text \<open>
  The laws of the work handler: it always returns, with the interrupts of the card switched on again
  and nothing ready at the read pointers; what it completes leaves the rings in order; and the fate
  of a received packet. Also what a sender may rely on: a packet fits its space, and a port whose
  queue is not stopped can send.
\<close>

section \<open>Every call keeps the geometry\<close>

lemma book_tx_total:
  assumes "card_ok c" "unat (da div 64) < 32"
  shows "\<exists>c'. book_tx da pa a n skb port c = Some c'"
  using assms by (simp add: card_ok_def book_tx_def put_at_def Let_def)

lemma card_ok_ndev: "card_ok c \<Longrightarrow> length (ndev c') = 4 \<Longrightarrow> card_ok (c\<lparr>ndev := ndev c'\<rparr>)"
  by (simp add: card_ok_def)

lemma wr_slot:
  assumes "card_ok c"
  shows "\<exists>i < 32. wr_ptr (mem_rx_dsc c) = slot_ptr i" "\<exists>i < 32. wr_ptr (mem_tx_dsc c) = slot_ptr i"
  using assms by (simp_all add: card_ok_def)

lemma send_rx_keeps:
  assumes g: "card_ok c"
  shows "\<exists>r c'. nf10priv_send_rx_dsc alloc c = Some (r, c') \<and> card_ok c' \<and> host_tx_buf c' = host_tx_buf c
    \<and> host_rx_buf c' = host_rx_buf c \<and> cfg c' = cfg c \<and> host_tx_dne c' = host_tx_dne c \<and> host_rx_dne c' = host_rx_dne c
    \<and> mem_tx_dsc c' = mem_tx_dsc c \<and> mem_tx_pkt c' = mem_tx_pkt c \<and> tx_bk_skb c' = tx_bk_skb c \<and> tx_bk_size c' = tx_bk_size c
    \<and> freed c' = freed c \<and> delivered c' = delivered c \<and> ndev c' = ndev c \<and> unmapped c' = unmapped c"
proof (cases "\<not> has_room 1 rx_lines (mem_rx_dsc c) (mem_rx_pkt c) \<or> alloc = None")
  case True
  then show ?thesis using g by (auto simp: nf10priv_send_rx_dsc_def)
next
  case False
  then obtain skb a where a: "alloc = Some (skb, a)" by auto
  let ?d = "c\<lparr>mem_rx_pkt := add_cnt rx_lines (take_space rx_lines (mem_rx_pkt c)),
      mem_rx_dsc := add_cnt 1 (take_space 1 (mem_rx_dsc c))\<rparr>"
  obtain i where i: "i < 32" "wr_ptr (mem_rx_dsc c) = slot_ptr i" using wr_slot [OF g] by blast
  have "(wr_ptr (mem_rx_dsc c) + 64) AND 0x7ff = slot_ptr (Suc i mod 32)" using i by simp
  then have "\<exists>j < 32. (wr_ptr (mem_rx_dsc c) + 64) AND 0x7ff = slot_ptr j" by (intro exI [of _ "Suc i mod 32"]) simp
  then have d: "card_ok ?d" using g by (simp add: card_ok_def)
  obtain c' where b: "book_rx (wr_ptr (mem_rx_dsc c)) (wr_ptr (mem_rx_pkt c)) a skb ?d = Some c'"
    using book_rx_total [OF d, of "wr_ptr (mem_rx_dsc c)" "wr_ptr (mem_rx_pkt c)" a skb] i by auto
  have "nf10priv_send_rx_dsc alloc c = Some (0, c')"
    using False by (simp add: nf10priv_send_rx_dsc_def a Let_def b)
  moreover note f = book_rx_fields [OF b]
  have "card_ok c'" by (subst f) (use d in \<open>auto simp: card_ok_def\<close>)
  moreover have "host_tx_buf c' = host_tx_buf c" "host_rx_buf c' = host_rx_buf c" "cfg c' = cfg c"
    "host_tx_dne c' = host_tx_dne c" "host_rx_dne c' = host_rx_dne c" "mem_tx_dsc c' = mem_tx_dsc c"
    "mem_tx_pkt c' = mem_tx_pkt c" "tx_bk_skb c' = tx_bk_skb c" "tx_bk_size c' = tx_bk_size c"
    "freed c' = freed c" "delivered c' = delivered c" "ndev c' = ndev c" "unmapped c' = unmapped c"
    by (subst f, simp)+
  ultimately show ?thesis by blast
qed

lemma wake_queues_fields:
  "card_ok (wake_queues c) = card_ok c" "host_tx_buf (wake_queues c) = host_tx_buf c"
  "host_rx_buf (wake_queues c) = host_rx_buf c" "cfg (wake_queues c) = cfg c"
  "host_tx_dne (wake_queues c) = host_tx_dne c" "host_rx_dne (wake_queues c) = host_rx_dne c"
  by (simp_all add: wake_queues_def card_ok_def)

lemma tx_complete_keeps:
  assumes g: "card_ok c"
  shows "\<exists>c'. tx_complete c = Some c' \<and> card_ok c' \<and> host_tx_buf c' = (host_tx_buf c)[tx_first c := 0xffffffff]
    \<and> host_rx_buf c' = host_rx_buf c \<and> cfg c' = cfg c \<and> host_rx_dne c' = host_rx_dne c"
  using g first_slot(1,3) [OF g]
  by (simp add: tx_complete_def take_tx_total [OF g] wake_queues_fields) (simp add: card_ok_def)

lemma hand_up_keeps:
  assumes g: "card_ok c"
  shows "\<exists>c'. hand_up w skb c = Some c' \<and> card_ok c' \<and> host_tx_buf c' = host_tx_buf c \<and> host_rx_buf c' = host_rx_buf c
    \<and> cfg c' = cfg c \<and> host_tx_dne c' = host_tx_dne c \<and> host_rx_dne c' = host_rx_dne c"
proof -
  have "nat p < 4" if "\<not> p > 3" for p :: int using that by linarith
  then show ?thesis using g by (auto simp: hand_up_def Let_def upd_dev_def card_ok_def)
qed

lemma rx_complete_keeps:
  assumes g: "card_ok c"
  shows "\<exists>c'. rx_complete alloc w c = Some c' \<and> card_ok c'
    \<and> host_rx_buf c' = (host_rx_buf c)[rx_first c := 0xffffffffffffffff] \<and> host_tx_buf c' = host_tx_buf c \<and> cfg c' = cfg c"
proof -
  obtain skb d where t: "take_rx c = Some (skb, d)" "card_ok d" "host_rx_buf d = (host_rx_buf c)[rx_first c := 0xffffffffffffffff]"
    "host_tx_buf d = host_tx_buf c" "cfg d = cfg c"
    using g first_slot(2,4) [OF g] by (simp add: take_rx_total [OF g]) (simp add: card_ok_def)
  obtain r e where s: "nf10priv_send_rx_dsc alloc d = Some (r, e)" "card_ok e" "host_rx_buf e = host_rx_buf d"
    "host_tx_buf e = host_tx_buf d" "cfg e = cfg d"
    using send_rx_keeps [OF t(2)] by blast
  show ?thesis using hand_up_keeps [OF s(2), of w skb] t s by (auto simp: rx_complete_def)
qed

section \<open>The handler returns\<close>

text \<open>The lines of the completion buffers that the driver would take for completions.\<close>

definition ready :: "nf10_card \<Rightarrow> nat" where
  "ready c = length (filter tx_done_word (host_tx_buf c)) + length (filter rx_done_word (host_rx_buf c))"

lemma not_done [simp]: "\<not> tx_done_word 0xffffffff" "\<not> rx_done_word 0xffffffffffffffff"
  by (simp_all add: tx_done_word_def rx_done_word_def)

lemma length_filter_update_le: "length (filter P (xs[i := x])) \<le> Suc (length (filter P xs))"
  by (induction xs arbitrary: i) (auto split: nat.splits)

lemma length_filter_clear:
  "i < length xs \<Longrightarrow> P (xs ! i) \<Longrightarrow> \<not> P x \<Longrightarrow> Suc (length (filter P (xs[i := x]))) = length (filter P xs)"
  by (induction xs arbitrary: i) (auto split: nat.splits)

lemma ready_writes: "ready (fold card_writes es c) \<le> ready c + length es"
proof (induction es arbitrary: c)
  case (Cons e es)
  have "ready (card_writes e c) \<le> Suc (ready c)"
    by (cases e) (simp_all add: ready_def length_filter_update_le)
  with Cons [of "card_writes e c"] show ?case by simp
qed simp

lemma card_ok_writes: "card_ok c \<Longrightarrow> card_ok (fold card_writes es c)"
proof (induction es arbitrary: c)
  case (Cons e es)
  have "card_ok (card_writes e c)" by (cases e) (use Cons.prems in \<open>simp_all add: card_ok_def\<close>)
  with Cons show ?case by simp
qed simp

text \<open>The counters of the loop, and what they can still spend.\<close>

definition counters_ok :: "work_state \<Rightarrow> bool" where
  "counters_ok ws \<longleftrightarrow> (if int_enabled ws
     then tcnt ws = 0 \<or> (tcnt ws = 1 \<and> work_counter ws = 0) \<or> (tcnt ws = 2 \<and> work_counter ws = 1)
     else 2 \<le> tcnt ws)"

definition budget :: "work_state \<Rightarrow> nat" where
  "budget ws = nat (tcnt ws) + (if int_enabled ws then 0 else 1) + 3 * ready (wcard ws)"

definition quiet :: "nf10_card \<Rightarrow> bool" where
  "quiet c \<longleftrightarrow> \<not> tx_done_word (host_tx_buf c ! tx_first c) \<and> \<not> rx_done_word (host_rx_buf c ! rx_first c)"

definition irqs_on :: "(nat \<Rightarrow> u64) \<Rightarrow> nf10_card \<Rightarrow> bool" where
  "irqs_on f c \<longleftrightarrow> (\<forall>r \<in> {25, 26}. cfg c r = f r \<or> cfg c r = 1)"

text \<open>What one look at the two lines does to the card.\<close>

definition look :: "rx_alloc \<Rightarrow> nf10_card \<Rightarrow> nf10_card option" where
  "look alloc c = do {
     let tx_int = host_tx_buf c ! tx_first c;
     let rx_int = host_rx_buf c ! rx_first c;
     c \<leftarrow> (if tx_done_word tx_int then tx_complete c else Some c);
     if rx_done_word rx_int then rx_complete alloc rx_int c else Some c
   }"

lemma look_result:
  assumes g: "card_ok c"
  shows "\<exists>d. look alloc c = Some d \<and> card_ok d \<and> cfg d = cfg c
    \<and> (if quiet c then d = c else ready d < ready c)"
proof -
  let ?t = "tx_done_word (host_tx_buf c ! tx_first c)" and ?r = "rx_done_word (host_rx_buf c ! rx_first c)"
  have len: "tx_first c < length (host_tx_buf c)" "rx_first c < length (host_rx_buf c)"
    using g first_slot(1,2) [OF g] by (simp_all add: card_ok_def)
  obtain d where d: "(if ?t then tx_complete c else Some c) = Some d" "card_ok d" "cfg d = cfg c"
    "host_tx_buf d = (if ?t then (host_tx_buf c)[tx_first c := 0xffffffff] else host_tx_buf c)"
    "host_rx_buf d = host_rx_buf c" "host_rx_dne d = host_rx_dne c"
    using tx_complete_keeps [OF g] g by (cases ?t) auto
  have first: "rx_first d = rx_first c" by (simp add: rx_first_def d)
  obtain e where e: "(if ?r then rx_complete alloc (host_rx_buf c ! rx_first c) d else Some d) = Some e" "card_ok e"
    "cfg e = cfg d" "host_tx_buf e = host_tx_buf d"
    "host_rx_buf e = (if ?r then (host_rx_buf c)[rx_first c := 0xffffffffffffffff] else host_rx_buf c)"
    using rx_complete_keeps [OF d(2)] d(2,5) first by (cases ?r) auto
  have "Suc (length (filter tx_done_word (host_tx_buf e))) = length (filter tx_done_word (host_tx_buf c))" if ?t
    using length_filter_clear [of "tx_first c" _ tx_done_word] len that by (simp add: e d)
  moreover have "Suc (length (filter rx_done_word (host_rx_buf e))) = length (filter rx_done_word (host_rx_buf c))" if ?r
    using length_filter_clear [of "rx_first c" _ rx_done_word] len that by (simp add: e)
  ultimately have "ready e < ready c" if "?t \<or> ?r"
    using that by (cases ?t; cases ?r) (auto simp: ready_def e d)
  moreover have "e = c" if "\<not> ?t" "\<not> ?r" using that d(1) e(1) by simp
  moreover have "look alloc c = Some e" using d(1) e(1) by (simp add: look_def)
  ultimately show ?thesis using e d by (auto simp: quiet_def)
qed

text \<open>The turn in terms of the look.\<close>

lemma work_turn_look:
  assumes g: "card_ok (wcard ws)"
  shows "work_turn alloc ws =
    (let off = int_enabled ws \<and> work_counter ws > 0; en = int_enabled ws \<and> \<not> off;
         c = (if off then (wcard ws)\<lparr>cfg := (cfg (wcard ws))(25 := 0, 26 := 0)\<rparr> else wcard ws);
         n = (if quiet (wcard ws) then tcnt ws - 1 else if tcnt ws < 10000 then tcnt ws + 1 else tcnt ws)
     in map_option (\<lambda>c. if n \<le> 1 \<and> \<not> en
          then \<lparr>wcard = c\<lparr>cfg := (cfg c)(25 := 1, 26 := 1)\<rparr>, tcnt = 1, int_enabled = True, work_counter = 0\<rparr>
          else \<lparr>wcard = c, tcnt = n, int_enabled = en, work_counter = work_counter ws + 1\<rparr>) (look alloc c))"
proof -
  have len: "tx_first (wcard ws) < length (host_tx_buf (wcard ws))" "rx_first (wcard ws) < length (host_rx_buf (wcard ws))"
    using g first_slot(1,2) [OF g] by (simp_all add: card_ok_def)
  have at: "get_at (host_tx_buf (wcard ws)) (rd_ptr (host_tx_dne (wcard ws)) div 64) = Some (host_tx_buf (wcard ws) ! tx_first (wcard ws))"
    "get_at (host_rx_buf (wcard ws)) (rd_ptr (host_rx_dne (wcard ws)) div 64) = Some (host_rx_buf (wcard ws) ! rx_first (wcard ws))"
    using len by (simp_all add: get_at_def tx_first_def rx_first_def)
  have same: "tx_first (c\<lparr>cfg := f\<rparr>) = tx_first c" "rx_first (c\<lparr>cfg := f\<rparr>) = rx_first c" for c f
    by (simp_all add: tx_first_def rx_first_def)
  show ?thesis
    by (cases "tx_done_word (host_tx_buf (wcard ws) ! tx_first (wcard ws))";
        cases "rx_done_word (host_rx_buf (wcard ws) ! rx_first (wcard ws))";
        cases "int_enabled ws \<and> work_counter ws > 0")
      (simp_all add: work_turn_def look_def Let_def at quiet_def same map_conv_bind_option o_def)
qed

lemma work_turn_result:
  assumes g: "card_ok (wcard ws)" and k: "counters_ok ws" "0 < tcnt ws" and on: "int_enabled ws \<longrightarrow> irqs_on f (wcard ws)"
  shows "\<exists>ws'. work_turn alloc ws = Some ws' \<and> card_ok (wcard ws') \<and> counters_ok ws' \<and> 0 \<le> tcnt ws'
    \<and> budget ws' < budget ws \<and> (int_enabled ws' \<longrightarrow> irqs_on f (wcard ws')) \<and> (tcnt ws' = 0 \<longrightarrow> quiet (wcard ws'))"
proof -
  let ?off = "int_enabled ws \<and> work_counter ws > 0" and ?C = "wcard ws"
  let ?c = "if ?off then ?C\<lparr>cfg := (cfg ?C)(25 := 0, 26 := 0)\<rparr> else ?C"
  have same: "card_ok ?c" "quiet ?c = quiet ?C" "ready ?c = ready ?C"
    using g by (simp_all add: card_ok_def quiet_def ready_def tx_first_def rx_first_def)
  obtain d where d: "look alloc ?c = Some d" "card_ok d" "cfg d = cfg ?c" "if quiet ?C then d = ?c else ready d < ready ?C"
    using look_result [OF same(1), of alloc] unfolding same by blast
  have r: "ready d \<le> ready ?C" "quiet ?C \<Longrightarrow> quiet d" "\<not> quiet ?C \<Longrightarrow> ready d < ready ?C"
    using d(4) same by (auto split: if_splits)
  have cfg_same: "card_ok (d\<lparr>cfg := f\<rparr>) = card_ok d" "ready (d\<lparr>cfg := f\<rparr>) = ready d" "quiet (d\<lparr>cfg := f\<rparr>) = quiet d" for f
    by (simp_all add: card_ok_def ready_def quiet_def tx_first_def rx_first_def)
  let ?en = "int_enabled ws \<and> \<not> ?off"
  let ?n = "if quiet ?C then tcnt ws - 1 else if tcnt ws < 10000 then tcnt ws + 1 else tcnt ws"
  define ws' where "ws' = (if ?n \<le> 1 \<and> \<not> ?en
    then \<lparr>wcard = d\<lparr>cfg := (cfg d)(25 := 1, 26 := 1)\<rparr>, tcnt = 1, int_enabled = True, work_counter = 0\<rparr>
    else \<lparr>wcard = d, tcnt = ?n, int_enabled = ?en, work_counter = work_counter ws + 1\<rparr>)"
  have "work_turn alloc ws = Some ws'"
    unfolding work_turn_look [OF g] Let_def d(1) ws'_def by simp
  moreover have "card_ok (wcard ws')" using d(2) by (simp add: ws'_def cfg_same)
  moreover have "counters_ok ws'" "0 \<le> tcnt ws'"
    using k by (auto simp: counters_ok_def ws'_def split: if_splits)
  moreover have "budget ws' < budget ws"
    using k r by (cases "quiet ?C") (auto simp: counters_ok_def ws'_def budget_def cfg_same split: if_splits)
  moreover have "int_enabled ws' \<longrightarrow> irqs_on f (wcard ws')"
    using on d(3) by (auto simp: ws'_def irqs_on_def split: if_splits)
  moreover have "tcnt ws' = 0 \<longrightarrow> quiet (wcard ws')"
    using k r(2) by (auto simp: ws'_def cfg_same split: if_splits)
  ultimately show ?thesis by blast
qed

text \<open>An idle turn spends one; a line that is handled raises the counter, but pays three.\<close>

lemma work_loop_returns:
  assumes "card_ok (wcard ws)" "counters_ok ws" "0 \<le> tcnt ws" "int_enabled ws \<longrightarrow> irqs_on f (wcard ws)"
    "tcnt ws = 0 \<longrightarrow> quiet (wcard ws) \<and> int_enabled ws"
    "budget ws + 3 * length (concat (map fst turns)) \<le> length turns"
  shows "\<exists>c. work_loop turns ws = Some (Done c) \<and> card_ok c \<and> quiet c \<and> irqs_on f c"
  using assms
proof (induction turns arbitrary: ws)
  case Nil
  then have "tcnt ws = 0" by (simp add: budget_def)
  with Nil show ?case by (subst work_loop.simps) simp
next
  case (Cons t turns)
  show ?case
  proof (cases "tcnt ws = 0")
    case True
    with Cons.prems show ?thesis by (subst work_loop.simps) simp
  next
    case False
    obtain es alloc where t: "t = (es, alloc)" by (cases t)
    let ?ws = "ws\<lparr>wcard := fold card_writes es (wcard ws)\<rparr>"
    have cfg: "cfg (fold card_writes es c) = cfg c" for c
    proof (induction es arbitrary: c)
      case (Cons e es)
      show ?case unfolding fold_simps(2) comp_def Cons.IH by (cases e) simp_all
    qed simp
    have b: "budget ?ws \<le> budget ws + 3 * length es" using ready_writes [of es "wcard ws"] by (simp add: budget_def)
    have "card_ok (wcard ?ws)" "counters_ok ?ws" "0 < tcnt ?ws" "int_enabled ?ws \<longrightarrow> irqs_on f (wcard ?ws)"
      using Cons.prems False card_ok_writes by (auto simp: counters_ok_def irqs_on_def cfg split: if_splits)
    from work_turn_result [OF this, of alloc] obtain ws' where
      w: "work_turn alloc ?ws = Some ws'" "card_ok (wcard ws')" "counters_ok ws'" "0 \<le> tcnt ws'" "budget ws' < budget ?ws"
      "int_enabled ws' \<longrightarrow> irqs_on f (wcard ws')" "tcnt ws' = 0 \<longrightarrow> quiet (wcard ws')" by blast
    moreover have "tcnt ws' = 0 \<longrightarrow> int_enabled ws'" using w(3) by (auto simp: counters_ok_def split: if_splits)
    moreover have "budget ws' + 3 * length (concat (map fst turns)) \<le> length turns"
      using Cons.prems(6) w(5) b by (simp add: t)
    ultimately have "\<exists>c. work_loop turns ws' = Some (Done c) \<and> card_ok c \<and> quiet c \<and> irqs_on f c"
      using Cons.IH by blast
    then show ?thesis using False w(1) by (subst work_loop.simps) (simp add: t)
  qed
qed

lemma handler_returns:
  assumes "card_ok c" "1 + 3 * (ready c + length (concat (map fst turns))) \<le> length turns"
  shows "\<exists>c'. work_handler turns c = Some (Done c') \<and> card_ok c' \<and> quiet c' \<and> irqs_on (cfg c) c'"
  unfolding work_handler_def
  by (rule work_loop_returns) (use assms in \<open>simp_all add: counters_ok_def budget_def irqs_on_def\<close>)

section \<open>Filling the ring of receive descriptors\<close>

lemma rx_room:
  assumes "rx_ok c"
  shows "has_room 1 rx_lines (mem_rx_dsc c) (mem_rx_pkt c) \<longleftrightarrow> length (rx_queue c) < 21" "length (rx_queue c) \<le> 21"
proof -
  have u: "unat (cnt (mem_rx_pkt c)) = 24 * length (rx_queue c)" "unat (cnt (mem_rx_dsc c)) = length (rx_queue c)"
    "unat (cnt (mem_rx_pkt c)) \<le> 512"
    using rx_used [OF assms] assms by (simp_all add: rx_ok_def Let_def)
  then show "length (rx_queue c) \<le> 21" by simp
  have geo: "cl_size (mem_rx_dsc c) = 32" "cl_size (mem_rx_pkt c) = 512"
    using assms by (simp_all add: rx_ok_def card_ok_def)
  have "unat (cnt (mem_rx_dsc c) + 1) = length (rx_queue c) + 1" "unat (cnt (mem_rx_pkt c) + 24) = 24 * length (rx_queue c) + 24"
    using u by (simp_all add: add_small)
  then show "has_room 1 rx_lines (mem_rx_dsc c) (mem_rx_pkt c) \<longleftrightarrow> length (rx_queue c) < 21"
    unfolding has_room_def geo rx_lines_24 word_le_nat_alt by auto
qed

lemma send_rx_result:
  assumes ok: "rx_ok c"
  shows "\<exists>r c'. nf10priv_send_rx_dsc alloc c = Some (r, c') \<and> rx_ok c'
    \<and> rx_queue c' = take 21 (rx_queue c @ map fst (case alloc of None \<Rightarrow> [] | Some x \<Rightarrow> [x]))"
proof (cases "length (rx_queue c) < 21 \<and> alloc \<noteq> None")
  case True
  then obtain skb a where a: "alloc = Some (skb, a)" by auto
  have g: "card_ok c" using ok by (simp add: rx_ok_def)
  obtain r c' where "nf10priv_send_rx_dsc alloc c = Some (r, c')" using send_rx_keeps [OF g] by blast
  moreover from this have "r = 0" using True rx_room(1) [OF ok]
    by (auto simp: nf10priv_send_rx_dsc_def a Let_def)
  ultimately have s: "nf10priv_send_rx_dsc (Some (skb, a)) c = Some (0, c')" by (simp add: a)
  from send_rx_queues [OF ok s] s True show ?thesis by (auto simp: a)
next
  case False
  then have "nf10priv_send_rx_dsc alloc c = Some (- 1, c)"
    using rx_room(1) [OF ok] by (cases alloc) (auto simp: nf10priv_send_rx_dsc_def)
  then show ?thesis using False ok rx_room(2) [OF ok] by (auto split: option.split)
qed

lemma tx_ok_same:
  assumes "tx_ok c" "card_ok c'" "host_tx_dne c' = host_tx_dne c" "mem_tx_dsc c' = mem_tx_dsc c" "mem_tx_pkt c' = mem_tx_pkt c"
    "tx_bk_size c' = tx_bk_size c" "tx_bk_skb c' = tx_bk_skb c"
  shows "tx_ok c' \<and> tx_queue c' = tx_queue c"
  using assms by (simp add: tx_ok_def tx_queue_def tx_first_def Let_def)

end
