(* ===== verification/Nf10_Driver_Laws.thy ===== *)
theory Nf10_Driver_Laws
  imports Nf10_Driver Nf10_Work_Laws
begin

text \<open>
  What probing and removing a card leave behind: which resources are held, which are given back
  without being held, and the card that a probe hands over.
\<close>

section \<open>Taking and giving back\<close>

lemma get_fields [simp]:
  "held (get r h) = insert r (held h)" "stray (get r h) = stray h" "drvdata (get r h) = drvdata h" "hcard (get r h) = hcard h"
  by (simp_all add: get_def)

lemma request_fields [simp]:
  "held (request env r h) = held h \<union> ({r} \<inter> Collect (grants env))" "stray (request env r h) = stray h"
  "drvdata (request env r h) = drvdata h" "hcard (request env r h) = hcard h"
  by (auto simp: request_def)

lemma release_fields [simp]:
  "held (release r h) = held h - {r}" "set (stray (release r h)) = set (stray h) \<union> ({r} - held h)"
  "drvdata (release r h) = drvdata h" "hcard (release r h) = hcard h"
  by (auto simp: release_def)

lemma release_if_held_fields [simp]:
  "held (release_if_held r h) = held h - {r}" "stray (release_if_held r h) = stray h"
  "drvdata (release_if_held r h) = drvdata h" "hcard (release_if_held r h) = hcard h"
  by (auto simp: release_if_held_def release_def)

lemma upd_hcard_fields [simp]:
  "held (upd_hcard f h) = held h" "stray (upd_hcard f h) = stray h" "drvdata (upd_hcard f h) = drvdata h"
  "hcard (upd_hcard f h) = f (hcard h)"
  by (simp_all add: upd_hcard_def)

lemma release_if_held_list [simp]:
  "held (fold release_if_held rs h) = held h - set rs" "stray (fold release_if_held rs h) = stray h"
  "drvdata (fold release_if_held rs h) = drvdata h" "hcard (fold release_if_held rs h) = hcard h"
  by (induction rs arbitrary: h) auto

lemma request_list [simp]:
  "held (fold (request env) rs h) = held h \<union> (set rs \<inter> Collect (grants env))" "stray (fold (request env) rs h) = stray h"
  "drvdata (fold (request env) rs h) = drvdata h" "hcard (fold (request env) rs h) = hcard h"
  by (induction rs arbitrary: h) auto

lemmas labels = err_out_free_private2_def err_out_iounmap_def err_out_release_mem_region2_def
  err_out_release_mem_region1_def err_out_msi_def err_out_disable_device_def

text \<open>What each label gives back, whether or not it was held.\<close>

definition basic_resources :: "resource set" where
  "basic_resources = {Pci_enabled, Msi, Mem_region 0, Mem_region 2, Card_struct}"

lemma err_out_iounmap_fields [simp]:
  "held (err_out_iounmap h) = held h - ({Tx_map, Rx_map, Cfg_map} \<union> basic_resources)"
  "set (stray (err_out_iounmap h)) = set (stray h) \<union> (basic_resources - held h)"
  "hcard (err_out_iounmap h) = hcard h" "\<not> drvdata (err_out_iounmap h)"
  by (auto simp: labels Let_def basic_resources_def)

lemma err_out_free_private2_fields [simp]:
  "held (err_out_free_private2 h) = held h - ({Tx_dne_buf, Rx_dne_buf, Tx_map, Rx_map, Cfg_map} \<union> basic_resources \<union> set book_resources)"
  "set (stray (err_out_free_private2 h)) =
    set (stray h) \<union> (({Tx_dne_buf, Rx_dne_buf} \<union> basic_resources) - held h)"
  "hcard (err_out_free_private2 h) = hcard h" "\<not> drvdata (err_out_free_private2 h)"
  by (auto simp: err_out_free_private2_def basic_resources_def book_resources_def)

section \<open>The card of a probe\<close>

lemma fold_set_all: "fold (\<lambda>i b. b[i := x]) [0..<length xs] xs = replicate (length xs) x"
proof -
  have "fold (\<lambda>i b. b[i := x]) [0..<n] xs = replicate n x @ drop n xs" if "n \<le> length xs" for n
    using that
  proof (induction n)
    case (Suc n)
    then have "drop n xs = xs ! n # drop (Suc n) xs" by (simp add: Cons_nth_drop_Suc)
    with Suc show ?case by (simp add: list_update_append replicate_append_same)
  qed simp
  then show ?thesis by simp
qed

lemma length_fresh [simp]: "length (fresh junk n) = unat n"
  by (simp add: fresh_def)

lemma invalidated:
  assumes "length xs = k"
  shows "fold (\<lambda>i b. b[i := x]) [0..<k] xs = replicate k x"
  using fold_set_all [of x xs] assms by simp

text \<open>The card with its rings, before it has interfaces.\<close>

definition ring_card :: "probe_env \<Rightarrow> nf10_card" where
  "ring_card env = alloc_books env (((invalidate_completions \<circ> init_mems \<circ> set_host_buffers env \<circ> alloc_completions env)
     ((match_rx_masks \<circ> match_tx_masks \<circ> set_masks \<circ> reset_card) zero_card))\<lparr>wq_made := grants env Work_queue\<rparr>)"

lemma ring_card_fields:
  "mem_tx_dsc (ring_card env) = init_mem 0x7ff" "mem_rx_dsc (ring_card env) = init_mem 0x7ff"
  "mem_tx_pkt (ring_card env) = init_mem 0x7fff" "mem_rx_pkt (ring_card env) = init_mem 0x7fff"
  "host_tx_dne (ring_card env) = init_mem 0x7ff" "host_rx_dne (ring_card env) = init_mem 0x7ff"
  "ndev (ring_card env) = []" "freed (ring_card env) = []" "delivered (ring_card env) = []" "unmapped (ring_card env) = []"
  "length (tx_bk_skb (ring_card env)) = 32" "length (tx_bk_dma_addr (ring_card env)) = 32" "length (tx_bk_size (ring_card env)) = 32"
  "length (tx_bk_port (ring_card env)) = 32" "length (rx_bk_skb (ring_card env)) = 32"
  "length (rx_bk_dma_addr (ring_card env)) = 32" "length (rx_bk_size (ring_card env)) = 32"
  "host_tx_buf (ring_card env) = replicate 32 0xffffffff" "host_rx_buf (ring_card env) = replicate 32 0xffffffffffffffff"
  by (simp_all add: ring_card_def alloc_books_def Let_def invalidate_completions_def init_mems_def set_host_buffers_def
      alloc_completions_def match_rx_masks_def match_tx_masks_def set_masks_def reset_card_def zero_card_def set_cfg_def
      init_mem_def invalidated)


lemma ring_cl_size: "cl_size (init_mem 0x7ff) = 32" "cl_size (init_mem 0x7fff) = 512"
  by (simp_all add: init_mem_def)

text \<open>With its four interfaces the card has empty rings in order.\<close>

definition idle_card :: "probe_env \<Rightarrow> nf10_card" where
  "idle_card env = (ring_card env)\<lparr>ndev := map (new_netdev env) [0..<4]\<rparr>"

lemma idle_card_ok: "card_ok (idle_card env)"
proof -
  have "slot_ptr 0 = 0" by (simp add: slot_ptr_def)
  then have "\<exists>i < 32. 0 = slot_ptr i" by (intro exI [of _ 0]) simp
  then show ?thesis by (simp add: card_ok_def idle_card_def ring_card_fields init_mem_def)
qed

lemma idle_card_rings:
  "tx_ok (idle_card env)" "rx_ok (idle_card env)" "tx_queue (idle_card env) = []" "rx_queue (idle_card env) = []"
  using idle_card_ok [of env]
  by (simp_all add: tx_ok_def rx_ok_def tx_queue_def rx_queue_def Let_def lines_used_def)
    (simp_all add: idle_card_def ring_card_fields init_mem_def tx_first_def rx_first_def slot_ptr_def)

section \<open>The interfaces\<close>

lemma make_netdevs_result:
  assumes "make_netdevs env is h = (b, h')"
  shows "\<exists>j \<le> length is. b = (j = length is) \<and> b = (\<forall>i \<in> set is. grants env (Net_dev i))
    \<and> held h' = held h \<union> Net_dev ` set (take j is) \<union> (Net_reg ` set (take j is) \<inter> Collect (grants env))
    \<and> stray h' = stray h \<and> drvdata h' = drvdata h
    \<and> hcard h' = (hcard h)\<lparr>ndev := ndev (hcard h) @ map (new_netdev env) (take j is)\<rparr>"
  using assms
proof (induction "is" arbitrary: h)
  case (Cons i "is")
  show ?case
  proof (cases "grants env (Net_dev i)")
    case False
    then show ?thesis using Cons.prems by (intro exI [of _ 0]) auto
  next
    case True
    let ?h = "request env (Net_reg i) (upd_hcard (\<lambda>c. c\<lparr>ndev := ndev c @ [new_netdev env i]\<rparr>) (get (Net_dev i) h))"
    have "make_netdevs env is ?h = (b, h')" using Cons.prems True by (simp add: Let_def)
    from Cons.IH [OF this] obtain j where "j \<le> length is" "b = (j = length is)" "b = (\<forall>i \<in> set is. grants env (Net_dev i))"
      "held h' = held ?h \<union> Net_dev ` set (take j is) \<union> (Net_reg ` set (take j is) \<inter> Collect (grants env))"
      "stray h' = stray ?h" "drvdata h' = drvdata ?h"
      "hcard h' = (hcard ?h)\<lparr>ndev := ndev (hcard ?h) @ map (new_netdev env) (take j is)\<rparr>" by blast
    with True show ?thesis by (intro exI [of _ "Suc j"]) auto
  qed
qed auto

definition netdev_resources :: "nat \<Rightarrow> resource set" where
  "netdev_resources n = Net_dev ` {..<n} \<union> Net_reg ` {..<n}"

lemma free_netdevs_fields:
  assumes "length (ndev (hcard h)) \<le> 4"
  shows "held (free_netdevs h) = held h - netdev_resources (length (ndev (hcard h)))"
    "set (stray (free_netdevs h)) = set (stray h) \<union> (netdev_resources (length (ndev (hcard h))) - held h)"
    "drvdata (free_netdevs h) = drvdata h" "hcard (free_netdevs h) = hcard h"
proof -
  let ?n = "length (ndev (hcard h))"
  let ?f = "\<lambda>i h. if i < length (ndev (hcard h)) then release (Net_dev i) (release (Net_reg i) h) else h"
  have "held (fold ?f [0..<m] h) = held h - netdev_resources (min m ?n)
    \<and> set (stray (fold ?f [0..<m] h)) = set (stray h) \<union> (netdev_resources (min m ?n) - held h)
    \<and> drvdata (fold ?f [0..<m] h) = drvdata h \<and> hcard (fold ?f [0..<m] h) = hcard h" for m
  proof (induction m)
    case (Suc m)
    show ?case
    proof (cases "m < ?n")
      case True
      then have "min (Suc m) ?n = Suc m" "min m ?n = m" by simp_all
      with Suc True show ?thesis by (auto simp: netdev_resources_def lessThan_Suc)
    next
      case False
      then have "min (Suc m) ?n = min m ?n" by simp
      with Suc False show ?thesis by simp
    qed
  qed (simp add: netdev_resources_def)
  from this [of 4] assms show "held (free_netdevs h) = held h - netdev_resources (length (ndev (hcard h)))"
    "set (stray (free_netdevs h)) = set (stray h) \<union> (netdev_resources (length (ndev (hcard h))) - held h)"
    "drvdata (free_netdevs h) = drvdata h" "hcard (free_netdevs h) = hcard h"
    by (simp_all add: free_netdevs_def min_absorb2)
qed

section \<open>The receive descriptors\<close>

lemma take_take_append: "take n (take n xs @ ys) = take n (xs @ ys)"
  by (cases "n \<le> length xs") simp_all

lemma give_rx_dscs_result:
  assumes "rx_ok c" "tx_ok c"
  shows "\<exists>c'. give_rx_dscs allocs ks c = Some c' \<and> rx_ok c' \<and> tx_ok c' \<and> tx_queue c' = tx_queue c
    \<and> rx_queue c' = take 21 (rx_queue c @ List.map_filter (\<lambda>k. map_option fst (allocs k)) ks)
    \<and> host_tx_buf c' = host_tx_buf c \<and> host_rx_buf c' = host_rx_buf c \<and> cfg c' = cfg c
    \<and> freed c' = freed c \<and> delivered c' = delivered c \<and> ndev c' = ndev c \<and> unmapped c' = unmapped c"
  using assms
proof (induction ks arbitrary: c)
  case Nil
  then show ?case using rx_room(2) [of c] by simp
next
  case (Cons k ks)
  have g: "card_ok c" using Cons.prems(1) by (simp add: rx_ok_def)
  obtain r d where d: "nf10priv_send_rx_dsc (allocs k) c = Some (r, d)" "rx_ok d"
    "rx_queue d = take 21 (rx_queue c @ map fst (case allocs k of None \<Rightarrow> [] | Some x \<Rightarrow> [x]))"
    using send_rx_result [OF Cons.prems(1), of "allocs k"] by blast
  obtain r' d' where "nf10priv_send_rx_dsc (allocs k) c = Some (r', d')" and keeps:
    "card_ok d'" "host_tx_buf d' = host_tx_buf c" "host_rx_buf d' = host_rx_buf c" "cfg d' = cfg c" "host_tx_dne d' = host_tx_dne c"
    "mem_tx_dsc d' = mem_tx_dsc c" "mem_tx_pkt d' = mem_tx_pkt c" "tx_bk_skb d' = tx_bk_skb c" "tx_bk_size d' = tx_bk_size c"
    "freed d' = freed c" "delivered d' = delivered c" "ndev d' = ndev c" "unmapped d' = unmapped c"
    using send_rx_keeps [OF g, of "allocs k"] by blast
  with d(1) have d': "d' = d" by simp
  have t: "tx_ok d \<and> tx_queue d = tx_queue c" using tx_ok_same [OF Cons.prems(2)] keeps unfolding d' by blast
  from Cons.IH [OF d(2) conjunct1 [OF t]] d(1,3) t keeps show ?case
    by (auto simp: d' map_filter_simps take_take_append simp del: take_append split: option.splits)
qed

text \<open>The card that a probe hands over.\<close>

definition given :: "probe_env \<Rightarrow> sk_buff list" where
  "given env = take 21 (List.map_filter (\<lambda>k. map_option fst (rx_allocs env k)) [0..<30])"

lemma start_card:
  "\<exists>c. give_rx_dscs (rx_allocs env) [0..<30] (idle_card env) = Some c \<and> rx_ok c \<and> tx_ok c \<and> tx_queue c = []
    \<and> rx_queue c = given env \<and> ready c = 0 \<and> freed c = [] \<and> delivered c = [] \<and> unmapped c = []
    \<and> ndev c = map (new_netdev env) [0..<4]"
proof -
  have fields: "ready (idle_card env) = 0" "freed (idle_card env) = []" "delivered (idle_card env) = []"
    "unmapped (idle_card env) = []" "ndev (idle_card env) = map (new_netdev env) [0..<4]"
    by (simp_all add: ready_def idle_card_def ring_card_fields)
  with give_rx_dscs_result [OF idle_card_rings(2,1), of "rx_allocs env" "[0..<30]" env]
  show ?thesis by (auto simp: idle_card_rings given_def ready_def simp del: upt_rec_numeral)
qed

end
