(* ===== verification/Nf10_Probe_Laws.thy ===== *)
theory Nf10_Probe_Laws
  imports Nf10_Driver_Laws
begin

text \<open>
  The outcome of \<open>nf10_probe\<close> for every choice of what the kernel grants, and what removing a card
  gives gone.
\<close>

definition granted :: "probe_env \<Rightarrow> resource set" where
  "granted env = Collect (grants env)"

definition port_resources :: "probe_env \<Rightarrow> resource set" where
  "port_resources env = Net_dev ` {..<4} \<union> (Net_reg ` {..<4} \<inter> granted env)"

text \<open>How far a probe comes.\<close>

definition ring_resources :: "resource set" where
  "ring_resources = basic_resources \<union> {Cfg_map, Tx_map, Rx_map, Tx_dne_buf, Rx_dne_buf}"

definition rings_ready :: "probe_env \<Rightarrow> bool" where
  "rings_ready env \<longleftrightarrow> ring_resources \<subseteq> granted env \<and> 0 \<le> dma_mask_code env \<and> 0 \<le> coherent_mask_code env"

definition books_ready :: "probe_env \<Rightarrow> bool" where
  "books_ready env \<longleftrightarrow> rings_ready env \<and> set book_resources \<subseteq> granted env"

definition ports_granted :: "probe_env \<Rightarrow> bool" where
  "ports_granted env \<longleftrightarrow> insert Irq_line (Net_dev ` {..<4}) \<subseteq> granted env"

definition ports_ready :: "probe_env \<Rightarrow> bool" where
  "ports_ready env \<longleftrightarrow> books_ready env \<and> ports_granted env"

definition device_ready :: "probe_env \<Rightarrow> bool" where
  "device_ready env \<longleftrightarrow> ports_ready env \<and> chrdev_code env = 0 \<and> cdev_code env = 0"

text \<open>What a probe that fails leaves held.\<close>

definition leaked :: "probe_env \<Rightarrow> resource set" where
  "leaked env = (if rings_ready env then {Work_queue} \<inter> granted env else {})
    \<union> (if books_ready env then {Irq_line} \<inter> granted env else {})
    \<union> (if ports_ready env then port_resources env else {})
    \<union> (if ports_ready env \<and> chrdev_code env = 0 then {Chrdev_region} else {})"

text \<open>What a probe that succeeds holds.\<close>

definition device_resources :: "probe_env \<Rightarrow> resource set" where
  "device_resources env = ring_resources \<union> set book_resources \<union> {Irq_line, Chrdev_region, Cdev}
    \<union> port_resources env \<union> ({Work_queue, Dev_class, Dev_node} \<inter> granted env)"

text \<open>The card is idle, and has the buffers that could be given to it.\<close>

definition card_started :: "probe_env \<Rightarrow> nf10_card \<Rightarrow> bool" where
  "card_started env c \<longleftrightarrow> rx_ok c \<and> tx_ok c \<and> tx_queue c = [] \<and> rx_queue c = given env \<and> ready c = 0
    \<and> freed c = [] \<and> delivered c = [] \<and> unmapped c = [] \<and> ndev c = map (new_netdev env) [0..<4]"

lemma netdev_ports: "port_resources env \<subseteq> netdev_resources 4"
  by (auto simp: port_resources_def netdev_resources_def)

lemma iface_probe_result:
  assumes c: "hcard h = ring_card env" and free: "held h \<inter> insert Irq_line (netdev_resources 4) = {}"
  shows "\<exists>ret h'. nf10iface_probe env h = Some (ret, h') \<and> drvdata h' = drvdata h
    \<and> (if ports_granted env
       then ret = 0 \<and> held h' = held h \<union> {Irq_line} \<union> port_resources env \<and> stray h' = stray h \<and> card_started env (hcard h')
       else ret < 0 \<and> held h' = held h \<union> ({Irq_line} \<inter> granted env) \<and> set (stray h') \<subseteq> set (stray h) \<union> - granted env)"
proof (cases "grants env Irq_line")
  case False
  then show ?thesis by (simp add: nf10iface_probe_def ports_granted_def granted_def ENODEV_def)
next
  case True
  obtain b g where m: "make_netdevs env [0..<4] (get Irq_line h) = (b, g)" by force
  obtain j where raw: "j \<le> length [0..<4]" "b = (j = length [0..<4])" "b = (\<forall>i \<in> set [0..<4]. grants env (Net_dev i))"
    "held g = held (get Irq_line h) \<union> Net_dev ` set (take j [0..<4]) \<union> (Net_reg ` set (take j [0..<4]) \<inter> Collect (grants env))"
    "stray g = stray (get Irq_line h)" "drvdata g = drvdata (get Irq_line h)"
    "hcard g = (hcard (get Irq_line h))\<lparr>ndev := ndev (hcard (get Irq_line h)) @ map (new_netdev env) (take j [0..<4])\<rparr>"
    using make_netdevs_result [OF m] by blast
  have t: "take j [0..<4] = [0..<j]" using raw(1) take_upt [of 0 j 4] by simp
  have j: "j \<le> 4" "b = (j = 4)" "b = (\<forall>i \<in> {..<4}. grants env (Net_dev i))"
    "held g = insert Irq_line (held h) \<union> Net_dev ` {..<j} \<union> (Net_reg ` {..<j} \<inter> granted env)"
    "stray g = stray h" "drvdata g = drvdata h" "hcard g = (hcard h)\<lparr>ndev := map (new_netdev env) [0..<j]\<rparr>"
    using raw unfolding t by (simp_all add: c granted_def atLeast0LessThan ring_card_fields del: upt_rec_numeral)
  have p: "ports_granted env = b" using True j(3) by (auto simp: ports_granted_def granted_def)
  show ?thesis
  proof (cases b)
    case False
    have n: "length (ndev (hcard g)) = j" by (simp add: j(7))
    note f = free_netdevs_fields [of g, unfolded n, OF j(1)]
    have sub: "netdev_resources j \<subseteq> netdev_resources 4" using j(1) by (auto simp: netdev_resources_def)
    have "held (free_netdevs g) = insert Irq_line (held h)"
      using free sub j(1) unfolding f j(4) by (auto simp: netdev_resources_def)
    moreover have "set (stray (free_netdevs g)) \<subseteq> set (stray h) \<union> - granted env"
      unfolding f j(4,5) by (auto simp: netdev_resources_def)
    ultimately show ?thesis
      using False True by (simp add: nf10iface_probe_def m p f j(6) ENOMEM_def granted_def)
  next
    case b: True
    then have j4: "j = 4" using j(2) by simp
    have g: "hcard g = idle_card env" by (simp add: j(7) j4 c idle_card_def)
    have n: "unat (cl_size (mem_rx_dsc (idle_card env)) - 2) = 30" by (simp add: idle_card_def ring_card_fields ring_cl_size)
    obtain d where d: "give_rx_dscs (rx_allocs env) [0..<30] (idle_card env) = Some d" "card_started env d"
      using start_card [of env] by (auto simp: card_started_def simp del: upt_rec_numeral)
    have "nf10iface_probe env h = Some (0, g\<lparr>hcard := d\<rparr>)"
      using b True by (simp add: nf10iface_probe_def m n g d(1) del: upt_rec_numeral)
    then show ?thesis using b d(2) j(4-6) by (simp add: p port_resources_def j4 Un_assoc)
  qed
qed

section \<open>The stages of a probe\<close>

definition card_resources :: "probe_env \<Rightarrow> resource set" where
  "card_resources env = ring_resources \<union> ({Work_queue} \<inter> granted env) \<union> set book_resources"

lemma probe_interfaces_result:
  assumes c: "hcard h = ring_card env" and h: "held h = card_resources env" "stray h = []"
    and up: "ports_ready env = ports_granted env" "books_ready env" "rings_ready env"
    and codes: "chrdev_code env \<le> 0" "cdev_code env \<le> 0"
  shows "\<exists>ret h'. probe_interfaces env h = Some (ret, h') \<and> set (stray h') \<subseteq> - granted env
    \<and> (if device_ready env then ret = 0 \<and> held h' = device_resources env \<and> drvdata h' = drvdata h \<and> card_started env (hcard h')
       else ret < 0 \<and> held h' = leaked env \<and> \<not> drvdata h')"
proof -
  have free: "held h \<inter> insert Irq_line (netdev_resources 4) = {}"
    by (auto simp: h card_resources_def ring_resources_def basic_resources_def book_resources_def netdev_resources_def)
  from iface_probe_result [OF c free] obtain ret g where
    i: "nf10iface_probe env h = Some (ret, g)" "drvdata g = drvdata h" and g:
    "if ports_granted env
       then ret = 0 \<and> held g = held h \<union> {Irq_line} \<union> port_resources env \<and> stray g = stray h \<and> card_started env (hcard g)
       else ret < 0 \<and> held g = held h \<union> ({Irq_line} \<inter> granted env) \<and> set (stray g) \<subseteq> set (stray h) \<union> - granted env" by blast
  have gone: "card_resources env - ({Tx_dne_buf, Rx_dne_buf, Tx_map, Rx_map, Cfg_map} \<union> basic_resources \<union> set book_resources)
      = {Work_queue} \<inter> granted env" "{Tx_dne_buf, Rx_dne_buf} \<union> basic_resources \<subseteq> card_resources env"
    by (auto simp: card_resources_def ring_resources_def basic_resources_def book_resources_def)
  let ?r = "{Tx_dne_buf, Rx_dne_buf, Tx_map, Rx_map, Cfg_map} \<union> basic_resources \<union> set book_resources"
  have ports: "port_resources env \<inter> ?r = {}" "Irq_line \<notin> ?r" "Chrdev_region \<notin> ?r"
    by (auto simp: port_resources_def basic_resources_def book_resources_def)
  show ?thesis
  proof (cases "ports_granted env")
    case False
    then have f: "ret < 0" "held g = card_resources env \<union> ({Irq_line} \<inter> granted env)" "set (stray g) \<subseteq> - granted env"
      using g h by auto
    have "held (err_out_free_private2 g) = leaked env"
      using gone(1) ports(2) False up by (simp add: f(2) leaked_def Un_Diff) blast
    moreover have "set (stray (err_out_free_private2 g)) \<subseteq> - granted env"
      using f(3) gone(2) by (simp add: f(2)) blast
    moreover have "probe_interfaces env h = Some (ret, err_out_free_private2 g)"
      using f(1) by (simp add: probe_interfaces_def i)
    ultimately show ?thesis using False f(1) up by (simp add: device_ready_def)
  next
    case True
    then have t: "ret = 0" "held g = card_resources env \<union> {Irq_line} \<union> port_resources env" "stray g = []" "card_started env (hcard g)"
      using g h by auto
    show ?thesis
    proof (cases "device_ready env")
      case True
      then have "probe_interfaces env h = Some (nf10fops_probe env g)" "chrdev_code env = 0" "cdev_code env = 0"
        by (simp_all add: probe_interfaces_def i t(1) device_ready_def nf10fops_probe_def Let_def)
      with True t show ?thesis
        by (auto simp: nf10fops_probe_def Let_def i(2) device_resources_def card_resources_def granted_def)
    next
      case False
      define x where "x = (if chrdev_code env = 0 then get Chrdev_region g else g)"
      define e where "e = (if chrdev_code env = 0 then cdev_code env else chrdev_code env)"
      have "e < 0" "nf10fops_probe env g = (e, x)"
        using False \<open>ports_granted env\<close> codes up by (auto simp: e_def x_def device_ready_def nf10fops_probe_def Let_def)
      then have "probe_interfaces env h = Some (e, err_out_free_private2 x)"
        by (simp add: probe_interfaces_def i t(1))
      moreover have x: "held x = card_resources env \<union> {Irq_line} \<union> port_resources env \<union> (if chrdev_code env = 0 then {Chrdev_region} else {})"
        "stray x = []" by (auto simp: x_def t)
      moreover have "held (err_out_free_private2 x) = leaked env"
        using gone(1) ports \<open>ports_granted env\<close> up
        by (simp add: x(1) leaked_def Un_Diff) (auto simp: ports_granted_def)
      moreover have "set (stray (err_out_free_private2 x)) = {}" using gone(2) by (simp add: x) blast
      ultimately show ?thesis using False \<open>e < 0\<close> by (simp del: err_out_free_private2_fields(1,2))
    qed
  qed
qed

lemma set_cfg_ndev [simp]: "ndev (set_cfg r v c) = ndev c"
  by (simp add: set_cfg_def)

lemma probe_rings_result:
  assumes c: "hcard h = (match_rx_masks \<circ> match_tx_masks \<circ> set_masks \<circ> reset_card) zero_card"
    and h: "held h = basic_resources \<union> {Cfg_map, Tx_map, Rx_map}" "stray h = []"
    and up: "rings_ready env = ({Tx_dne_buf, Rx_dne_buf} \<subseteq> granted env)"
    and codes: "chrdev_code env \<le> 0" "cdev_code env \<le> 0"
  shows "\<exists>ret h'. probe_rings env h = Some (ret, h') \<and> set (stray h') \<subseteq> - granted env
    \<and> (if device_ready env then ret = 0 \<and> held h' = device_resources env \<and> drvdata h' \<and> card_started env (hcard h')
       else ret < 0 \<and> held h' = leaked env \<and> \<not> drvdata h')"
proof -
  let ?a = "request env Rx_dne_buf (request env Tx_dne_buf h)"
  have a: "held ?a = basic_resources \<union> {Cfg_map, Tx_map, Rx_map} \<union> ({Tx_dne_buf, Rx_dne_buf} \<inter> granted env)"
    by (auto simp: h granted_def)
  have dne: "(Rx_dne_buf \<notin> held ?a \<or> Tx_dne_buf \<notin> held ?a) = (\<not> rings_ready env)"
    unfolding a up by (auto simp: basic_resources_def)
  have off: "basic_resources \<inter> set book_resources = {}" "{Cfg_map, Tx_map, Rx_map} \<inter> set book_resources = {}"
    by (auto simp: basic_resources_def book_resources_def)
  show ?thesis
  proof (cases "rings_ready env")
    case False
    then have "probe_rings env h = Some (- ENODEV, err_out_free_private2 ?a)"
      unfolding probe_rings_def Let_def dne by simp
    moreover have "held (err_out_free_private2 ?a) = leaked env"
      using False by (simp only: err_out_free_private2_fields(1) a) (auto simp: leaked_def books_ready_def ports_ready_def)
    moreover have "set (stray (err_out_free_private2 ?a)) \<subseteq> - granted env"
      unfolding err_out_free_private2_fields(2) a by (auto simp: h)
    ultimately show ?thesis using False
      by (simp add: device_ready_def ports_ready_def books_ready_def ENODEV_def
          del: err_out_free_private2_fields(1,2) request_fields)
  next
    case True
    let ?k = "invalidate_completions \<circ> init_mems \<circ> set_host_buffers env \<circ> alloc_completions env"
    let ?b = "upd_hcard (\<lambda>c. c\<lparr>wq_made := Work_queue \<in> held (request env Work_queue (upd_hcard ?k ?a))\<rparr>)
        (request env Work_queue (upd_hcard ?k ?a))"
    let ?c = "fold (request env) [Tx_skbs, Tx_addrs, Tx_sizes, Tx_ports, Rx_skbs, Rx_addrs, Rx_sizes] ?b"
    have same: "set [Tx_skbs, Tx_addrs, Tx_sizes, Tx_ports, Rx_skbs, Rx_addrs, Rx_sizes] = set book_resources"
      by (auto simp: book_resources_def)
    have "{Tx_dne_buf, Rx_dne_buf} \<subseteq> granted env" using True up by simp
    then have c_held: "held ?c = ring_resources \<union> ({Work_queue} \<inter> granted env) \<union> (set book_resources \<inter> granted env)"
      unfolding request_list same upd_hcard_fields request_fields
      by (auto simp: h ring_resources_def granted_def)
    have ring: "ring_resources \<inter> set book_resources = {}" "Work_queue \<notin> set book_resources"
      by (auto simp: ring_resources_def basic_resources_def book_resources_def)
    have books: "(\<exists>r \<in> set book_resources. r \<notin> held ?c) = (\<not> books_ready env)"
      unfolding c_held books_ready_def using True ring by blast
    have wq: "Work_queue \<notin> held h" by (simp add: h basic_resources_def)
    have c_card: "alloc_books env (hcard ?c) = ring_card env"
      unfolding request_list upd_hcard_fields request_fields c ring_card_def by (simp add: wq)
    show ?thesis
    proof (cases "books_ready env")
      case False
      then have p: "probe_rings env h = Some (- ENODEV, err_out_free_private2 ?c)"
        unfolding probe_rings_def Let_def dne books using True by simp
      have "held (err_out_free_private2 ?c) = leaked env"
        unfolding err_out_free_private2_fields(1) c_held using False True
        by (auto simp: leaked_def ports_ready_def ring_resources_def basic_resources_def book_resources_def)
      moreover have "set (stray (err_out_free_private2 ?c)) = {}"
        unfolding err_out_free_private2_fields(2) c_held by (auto simp: h ring_resources_def)
      ultimately show ?thesis unfolding p using False
        by (simp add: device_ready_def ports_ready_def ENODEV_def
            del: err_out_free_private2_fields(1,2) request_list request_fields fold_simps)
    next
      case b: True
      let ?d = "(upd_hcard (alloc_books env) ?c)\<lparr>drvdata := True\<rparr>"
      have p: "probe_rings env h = probe_interfaces env ?d"
        unfolding probe_rings_def Let_def dne books using True b by simp
      have "held ?d = card_resources env"
        using b c_held by (simp add: card_resources_def books_ready_def Int_absorb2 del: request_list request_fields fold_simps)
      moreover have "hcard ?d = ring_card env" "stray ?d = []" and drv: "drvdata ?d"
        using c_card by (simp_all add: h)
      moreover have "ports_ready env = ports_granted env" using b by (simp add: ports_ready_def)
      ultimately have "\<exists>ret h'. probe_interfaces env ?d = Some (ret, h') \<and> set (stray h') \<subseteq> - granted env
        \<and> (if device_ready env then ret = 0 \<and> held h' = device_resources env \<and> drvdata h' = drvdata ?d \<and> card_started env (hcard h')
           else ret < 0 \<and> held h' = leaked env \<and> \<not> drvdata h')"
        using probe_interfaces_result b True codes by blast
      then show ?thesis unfolding p eqTrueI [OF drv] by (simp only: simp_thms)
    qed
  qed
qed

lemma probe_mappings_result:
  assumes c: "hcard h = zero_card" and h: "held h = basic_resources" "stray h = []"
    and up: "rings_ready env = ({Cfg_map, Tx_map, Rx_map, Tx_dne_buf, Rx_dne_buf} \<subseteq> granted env)"
    and codes: "chrdev_code env \<le> 0" "cdev_code env \<le> 0"
  shows "\<exists>ret h'. probe_mappings env h = Some (ret, h') \<and> set (stray h') \<subseteq> - granted env
    \<and> (if device_ready env then ret = 0 \<and> held h' = device_resources env \<and> drvdata h' \<and> card_started env (hcard h')
       else ret < 0 \<and> held h' = leaked env \<and> \<not> drvdata h')"
proof -
  have stopped: ?thesis if x: "probe_mappings env h = Some (- ENODEV, err_out_iounmap g)" "\<not> rings_ready env"
    "held g \<subseteq> basic_resources \<union> {Cfg_map, Tx_map, Rx_map}" "basic_resources \<subseteq> held g" "stray g = []" for g
  proof -
    have "held (err_out_iounmap g) = leaked env"
      using x(2,3) by (auto simp: leaked_def books_ready_def ports_ready_def)
    moreover have "set (stray (err_out_iounmap g)) \<subseteq> - granted env"
      unfolding err_out_iounmap_fields(2) using x(4,5) by auto
    ultimately show ?thesis using x
      by (simp add: device_ready_def ports_ready_def books_ready_def ENODEV_def del: err_out_iounmap_fields(1,2))
  qed
  let ?a = "request env Cfg_map h"
  have a: "(Cfg_map \<notin> held ?a) = (\<not> grants env Cfg_map)" by (auto simp: h basic_resources_def)
  show ?thesis
  proof (cases "grants env Cfg_map")
    case False
    show ?thesis
      by (rule stopped [of ?a]) (use False up h in \<open>auto simp: probe_mappings_def Let_def a granted_def basic_resources_def\<close>)
  next
    case True
    let ?b = "request env Rx_map (request env Tx_map ?a)"
    have b: "(Tx_map \<notin> held ?b \<or> Rx_map \<notin> held ?b) = (\<not> {Tx_map, Rx_map} \<subseteq> granted env)"
      by (auto simp: h basic_resources_def granted_def)
    have hb: "held ?b = basic_resources \<union> ({Cfg_map, Tx_map, Rx_map} \<inter> granted env)" "stray ?b = []"
      by (auto simp: h granted_def)
    show ?thesis
    proof (cases "{Tx_map, Rx_map} \<subseteq> granted env")
      case False
      then have "probe_mappings env h = Some (- ENODEV, err_out_iounmap ?b)"
        unfolding probe_mappings_def Let_def a b using True by simp
      moreover have "\<not> rings_ready env" using False up by blast
      ultimately show ?thesis by (rule stopped) (auto simp: hb(1) h)
    next
      case maps: True
      let ?d = "upd_hcard (match_rx_masks \<circ> match_tx_masks \<circ> set_masks \<circ> reset_card) ?b"
      have "probe_mappings env h = probe_rings env ?d"
        unfolding probe_mappings_def Let_def a b using True maps by simp
      moreover have "held ?d = basic_resources \<union> {Cfg_map, Tx_map, Rx_map}" "stray ?d = []"
        unfolding upd_hcard_fields hb using True maps by (auto simp: granted_def)
      moreover have "hcard ?d = (match_rx_masks \<circ> match_tx_masks \<circ> set_masks \<circ> reset_card) zero_card" by (simp add: c)
      moreover have "rings_ready env = ({Tx_dne_buf, Rx_dne_buf} \<subseteq> granted env)"
        using up True maps by (auto simp: granted_def)
      ultimately show ?thesis using probe_rings_result [of ?d env] codes by presburger
    qed
  qed
qed

lemma probe_result:
  assumes h: "held h = {}" "stray h = []" "\<not> drvdata h" and codes: "chrdev_code env \<le> 0" "cdev_code env \<le> 0"
  shows "\<exists>ret h'. nf10_probe env h = Some (ret, h') \<and> set (stray h') \<subseteq> - granted env
    \<and> (if device_ready env then ret = 0 \<and> held h' = device_resources env \<and> drvdata h' \<and> card_started env (hcard h')
       else ret < 0 \<and> held h' = leaked env \<and> \<not> drvdata h')"
proof -
  note codes_def = ENODEV_def EFAULT_def ENOMEM_def
  show ?thesis
  proof (cases "basic_resources \<subseteq> granted env \<and> 0 \<le> dma_mask_code env \<and> 0 \<le> coherent_mask_code env")
    case False
    then have "\<not> rings_ready env" by (auto simp: rings_ready_def ring_resources_def)
    then have "leaked env = {}" "\<not> device_ready env"
      by (simp_all add: leaked_def device_ready_def ports_ready_def books_ready_def)
    moreover have "\<exists>ret h'. nf10_probe env h = Some (ret, h') \<and> ret < 0 \<and> held h' = {} \<and> set (stray h') = {} \<and> \<not> drvdata h'"
      using False by (simp add: nf10_probe_def Let_def basic_resources_def granted_def labels codes_def h del: set_empty) auto
    ultimately show ?thesis by force
  next
    case True
    let ?d = "(get Card_struct (get (Mem_region 2) (get (Mem_region 0) (get Msi (get Pci_enabled h)))))\<lparr>hcard := zero_card\<rparr>"
    have "nf10_probe env h = probe_mappings env ?d"
      using True by (simp add: nf10_probe_def Let_def basic_resources_def granted_def)
    moreover have "held ?d = basic_resources" "stray ?d = []" "hcard ?d = zero_card" by (auto simp: h basic_resources_def)
    moreover have "rings_ready env = ({Cfg_map, Tx_map, Rx_map, Tx_dne_buf, Rx_dne_buf} \<subseteq> granted env)"
      using True by (simp add: rings_ready_def ring_resources_def)
    ultimately show ?thesis using probe_mappings_result [of ?d env] codes by presburger
  qed
qed

end
