(* ===== verification/Nf10_Laws.thy ===== *)
theory Nf10_Laws
  imports Nf10_Probe_Laws
begin

text \<open>
  The two rings together: neither disturbs the other, a send that has room is accepted, what becomes
  of a received packet, and the rings as queues under any order of sends and completions. Also the
  sample card of the witnesses.
\<close>

section \<open>The two rings do not disturb each other\<close>

lemma rx_ok_same:
  assumes "rx_ok c" "card_ok c'" "host_rx_dne c' = host_rx_dne c" "mem_rx_dsc c' = mem_rx_dsc c" "mem_rx_pkt c' = mem_rx_pkt c"
    "rx_bk_size c' = rx_bk_size c" "rx_bk_skb c' = rx_bk_skb c"
  shows "rx_ok c' \<and> rx_queue c' = rx_queue c"
  using assms by (simp add: rx_ok_def rx_queue_def rx_first_def Let_def)

lemma xmit_same:
  assumes "nf10priv_xmit dma skb port c = Some (0, c')"
  shows "host_rx_dne c' = host_rx_dne c" "mem_rx_dsc c' = mem_rx_dsc c" "mem_rx_pkt c' = mem_rx_pkt c"
    "rx_bk_size c' = rx_bk_size c" "rx_bk_skb c' = rx_bk_skb c" "freed c' = freed c"
proof -
  let ?n = "tx_lines (skb_len skb)"
  obtain a d where x:
    "reserve_tx ?n port (c\<lparr>mem_tx_pkt := take_space ?n (mem_tx_pkt c), mem_tx_dsc := take_space 1 (mem_tx_dsc c)\<rparr>) = Some d"
    "book_tx (wr_ptr (mem_tx_dsc c)) (wr_ptr (mem_tx_pkt c)) a ?n skb port d = Some c'"
    using xmit_sent [OF assms] by metis
  note f = book_tx_fields [OF x(2)] and g = reserve_tx_fields(1) [OF x(1)]
  have "host_rx_dne d = host_rx_dne c" "mem_rx_dsc d = mem_rx_dsc c" "mem_rx_pkt d = mem_rx_pkt c"
    "rx_bk_size d = rx_bk_size c" "rx_bk_skb d = rx_bk_skb c" "freed d = freed c" by (subst g, simp)+
  then show "host_rx_dne c' = host_rx_dne c" "mem_rx_dsc c' = mem_rx_dsc c" "mem_rx_pkt c' = mem_rx_pkt c"
    "rx_bk_size c' = rx_bk_size c" "rx_bk_skb c' = rx_bk_skb c" "freed c' = freed c" by (subst f, simp)+
qed

lemma card_of_tx: "tx_ok c \<Longrightarrow> card_ok c"
  by (simp add: tx_ok_def)

lemma card_of_rx: "rx_ok c \<Longrightarrow> card_ok c"
  by (simp add: rx_ok_def)

lemma xmit_keeps_rx:
  assumes "tx_ok c" "rx_ok c" "nf10priv_xmit dma skb port c = Some (0, c')"
  shows "rx_ok c' \<and> rx_queue c' = rx_queue c"
  using rx_ok_same [OF assms(2)] xmit_same [OF assms(3)] xmit_queues [OF assms(1,3)] card_of_tx by blast

lemma xmit_refused:
  assumes "nf10priv_xmit (Some a) skb port c = Some (r, c')" "r \<noteq> 0"
  shows "r = - 1" "c' = c"
  using assms by (auto simp: nf10priv_xmit_def Let_def bind_eq_Some_conv split: if_splits)

lemma tx_complete_both:
  assumes ok: "tx_ok c" "rx_ok c" and q: "tx_queue c = x # xs"
  shows "\<exists>c'. tx_complete c = Some c' \<and> tx_ok c' \<and> rx_ok c' \<and> tx_queue c' = xs \<and> rx_queue c' = rx_queue c
    \<and> freed c' = freed c @ [x]"
proof -
  obtain c' where t: "tx_complete c = Some c'" "tx_ok c'" "tx_queue c' = xs" "freed c' = freed c @ [x]"
    using tx_complete_queue [OF ok(1) q] by blast
  have "host_rx_dne c' = host_rx_dne c" "mem_rx_dsc c' = mem_rx_dsc c" "mem_rx_pkt c' = mem_rx_pkt c"
    "rx_bk_size c' = rx_bk_size c" "rx_bk_skb c' = rx_bk_skb c"
    using t(1) unfolding tx_complete_def take_tx_total [OF card_of_tx [OF ok(1)]] by (auto simp: wake_queues_def)
  with rx_ok_same [OF ok(2) card_of_tx [OF t(2)]] t show ?thesis by blast
qed

lemma take_rx_both:
  assumes ok: "tx_ok c" "rx_ok c" and q: "rx_queue c = x # xs"
  shows "\<exists>c'. take_rx c = Some (x, c') \<and> tx_ok c' \<and> rx_ok c' \<and> tx_queue c' = tx_queue c \<and> rx_queue c' = xs
    \<and> freed c' = freed c \<and> delivered c' = delivered c \<and> ndev c' = ndev c"
proof -
  obtain c' where t: "take_rx c = Some (x, c')" "rx_ok c'" "rx_queue c' = xs"
    using rx_ring.take_ok [OF ok(2) q] by blast
  have f: "host_tx_dne c' = host_tx_dne c" "mem_tx_dsc c' = mem_tx_dsc c" "mem_tx_pkt c' = mem_tx_pkt c"
    "tx_bk_size c' = tx_bk_size c" "tx_bk_skb c' = tx_bk_skb c" "freed c' = freed c" "delivered c' = delivered c" "ndev c' = ndev c"
    using t(1) unfolding take_rx_total [OF card_of_rx [OF ok(2)]] by auto
  with tx_ok_same [OF ok(1) card_of_rx [OF t(2)]] t show ?thesis by blast
qed

text \<open>What is given up for a received packet, after its buffer is taken and replaced.\<close>

definition valid_rx :: "u64 \<Rightarrow> bool" where
  "valid_rx w \<longleftrightarrow> 60 \<le> w AND 0xffff \<and> w AND 0xffff \<le> 1514 \<and> 0 \<le> encoded_port (drop_bit 16 w AND 0xffff)"

definition rx_port :: "u64 \<Rightarrow> nat" where
  "rx_port w = nat (encoded_port (drop_bit 16 w AND 0xffff))"

definition received :: "u64 \<Rightarrow> sk_buff \<Rightarrow> sk_buff" where
  "received w skb = skb\<lparr>skb_len := skb_len skb + ucast (w AND 0xffff) - 14\<rparr>"

lemma encoded_port_range: "encoded_port w \<le> 3"
  by (simp add: encoded_port_def)

lemma rx_port_range: "rx_port w < 4"
  using encoded_port_range [of "drop_bit 16 w AND 0xffff"] unfolding rx_port_def by linarith

lemma hand_up_result:
  assumes "length (ndev c) = 4"
  shows "\<exists>c'. hand_up w skb c = Some c'
    \<and> c' = c\<lparr>ndev := ndev c', freed := freed c', delivered := delivered c'\<rparr> \<and> length (ndev c') = 4
    \<and> (if \<not> valid_rx w then freed c' = freed c \<and> delivered c' = delivered c
       else if port_up (ndev c ! rx_port w) then freed c' = freed c \<and> delivered c' = delivered c @ [(rx_port w, received w skb)]
       else freed c' = freed c @ [skb] \<and> delivered c' = delivered c)"
proof -
  let ?p = "encoded_port (drop_bit 16 w AND 0xffff)"
  have p: "\<not> ?p > 3" "rx_port w = nat ?p" "nat ?p < length (ndev c)"
    using encoded_port_range rx_port_range [of w] assms by (auto simp: rx_port_def not_less)
  show ?thesis
  proof (cases "valid_rx w")
    case False
    then show ?thesis using p assms by (auto simp: hand_up_def Let_def valid_rx_def not_le)
  next
    case True
    then have "\<not> (w AND 0xffff > 1514 \<or> w AND 0xffff < 60 \<or> ?p < 0 \<or> ?p > 3)" using p by (auto simp: valid_rx_def)
    with True p assms show ?thesis
      by (auto simp: hand_up_def Let_def upd_dev_def received_def)
  qed
qed

lemma rx_complete_result:
  assumes ok: "tx_ok c" "rx_ok c" and q: "rx_queue c = skb # q"
  shows "\<exists>c'. rx_complete alloc w c = Some c' \<and> tx_ok c' \<and> rx_ok c' \<and> tx_queue c' = tx_queue c
    \<and> rx_queue c' = take 21 (q @ map fst (case alloc of None \<Rightarrow> [] | Some x \<Rightarrow> [x]))
    \<and> (if \<not> valid_rx w then freed c' = freed c \<and> delivered c' = delivered c
       else if port_up (ndev c ! rx_port w) then freed c' = freed c \<and> delivered c' = delivered c @ [(rx_port w, received w skb)]
       else freed c' = freed c @ [skb] \<and> delivered c' = delivered c)"
proof -
  obtain d where d: "take_rx c = Some (skb, d)" "tx_ok d" "rx_ok d" "tx_queue d = tx_queue c" "rx_queue d = q"
    "freed d = freed c" "delivered d = delivered c" "ndev d = ndev c"
    using take_rx_both [OF ok q] by blast
  obtain r e where e: "nf10priv_send_rx_dsc alloc d = Some (r, e)" "rx_ok e"
    "rx_queue e = take 21 (rx_queue d @ map fst (case alloc of None \<Rightarrow> [] | Some x \<Rightarrow> [x]))"
    using send_rx_result [OF d(3), of alloc] by blast
  obtain r' e' where e': "nf10priv_send_rx_dsc alloc d = Some (r', e')" "card_ok e'" "host_tx_dne e' = host_tx_dne d"
    "mem_tx_dsc e' = mem_tx_dsc d" "mem_tx_pkt e' = mem_tx_pkt d" "tx_bk_skb e' = tx_bk_skb d" "tx_bk_size e' = tx_bk_size d"
    "freed e' = freed d" "delivered e' = delivered d" "ndev e' = ndev d"
    using send_rx_keeps [OF card_of_tx [OF d(2)], of alloc] by blast
  have [simp]: "e' = e" using e(1) e'(1) by simp
  have t: "tx_ok e \<and> tx_queue e = tx_queue d" using tx_ok_same [OF d(2)] e' by simp
  have n: "length (ndev e) = 4" using e'(2) by (simp add: card_ok_def)
  obtain c' where c': "hand_up w skb e = Some c'" "c' = e\<lparr>ndev := ndev c', freed := freed c', delivered := delivered c'\<rparr>"
    "length (ndev c') = 4" and fate: "if \<not> valid_rx w then freed c' = freed e \<and> delivered c' = delivered e
       else if port_up (ndev e ! rx_port w) then freed c' = freed e \<and> delivered c' = delivered e @ [(rx_port w, received w skb)]
       else freed c' = freed e @ [skb] \<and> delivered c' = delivered e"
    using hand_up_result [OF n, of w skb] by blast
  have g: "card_ok c'" by (subst c'(2)) (use e'(2) c'(3) in \<open>simp add: card_ok_def\<close>)
  have "tx_ok c' \<and> tx_queue c' = tx_queue e" by (rule tx_ok_same) (use t g in simp, fact, (subst c'(2), simp)+)
  moreover have "rx_ok c' \<and> rx_queue c' = rx_queue e" by (rule rx_ok_same) (use e(2) g in simp, fact, (subst c'(2), simp)+)
  moreover have "rx_complete alloc w c = Some c'" by (simp add: rx_complete_def d(1) e(1) c'(1))
  ultimately show ?thesis using t e(3) d(4-8) e'(8-10) fate by auto
qed

section \<open>Sending\<close>

lemma tx_lines_small:
  assumes "len \<le> 1514"
  shows "unat (tx_lines len) = (unat len + 126) div 64"
proof -
  have "unat len \<le> 1514" using assms by (simp add: word_le_nat_alt)
  then have "unat (len + 2 * 63) = unat len + 126" by (simp add: unat_word_ariths)
  then show ?thesis by (simp add: tx_lines_nat(1) unat_div)
qed

lemma reserve_tx_total: "port < length (ndev c) \<Longrightarrow> \<exists>d. reserve_tx n port c = Some d"
  by (simp add: reserve_tx_def upd_dev_def Let_def)

text \<open>A packet is accepted whenever its descriptor and its lines are free.\<close>

lemma xmit_accepts:
  assumes g: "card_ok c" and room: "has_room 1 (tx_lines (skb_len skb)) (mem_tx_dsc c) (mem_tx_pkt c)" and port: "port < 4"
  shows "\<exists>c'. nf10priv_xmit (Some a) skb port c = Some (0, c')"
proof -
  let ?n = "tx_lines (skb_len skb)"
  let ?c = "c\<lparr>mem_tx_pkt := take_space ?n (mem_tx_pkt c), mem_tx_dsc := take_space 1 (mem_tx_dsc c)\<rparr>"
  obtain d where d: "reserve_tx ?n port ?c = Some d"
    using reserve_tx_total [of port ?c ?n] g port by (auto simp: card_ok_def)
  obtain i where i: "i < 32" "wr_ptr (mem_tx_dsc c) = slot_ptr i" using wr_slot(2) [OF g] by blast
  have "length (tx_bk_skb d) = 32" "length (tx_bk_dma_addr d) = 32" "length (tx_bk_size d) = 32" "length (tx_bk_port d) = 32"
    using g by (subst reserve_tx_fields(1) [OF d], simp add: card_ok_def)+
  then have "\<exists>c'. book_tx (wr_ptr (mem_tx_dsc c)) (wr_ptr (mem_tx_pkt c)) a ?n skb port d = Some c'"
    using i by (simp add: book_tx_def put_at_def Let_def)
  then show ?thesis using room d by (auto simp: nf10priv_xmit_def Let_def)
qed

lemma xmit_card_ok:
  assumes g: "card_ok c" and x: "nf10priv_xmit dma skb port c = Some (0, c')"
  shows "card_ok c'"
proof -
  let ?n = "tx_lines (skb_len skb)"
  obtain a d where r:
    "reserve_tx ?n port (c\<lparr>mem_tx_pkt := take_space ?n (mem_tx_pkt c), mem_tx_dsc := take_space 1 (mem_tx_dsc c)\<rparr>) = Some d"
    "book_tx (wr_ptr (mem_tx_dsc c)) (wr_ptr (mem_tx_pkt c)) a ?n skb port d = Some c'"
    using xmit_sent [OF x] by metis
  obtain i where i: "i < 32" "wr_ptr (mem_tx_dsc c) = slot_ptr i" using wr_slot(2) [OF g] by blast
  then have "\<exists>j < 32. (wr_ptr (mem_tx_dsc c) + 64) AND 0x7ff = slot_ptr j" by (intro exI [of _ "Suc i mod 32"]) simp
  then have "card_ok d"
    using g reserve_tx_fields(2) [OF r(1)] by (subst reserve_tx_fields(1) [OF r(1)]) (auto simp: card_ok_def)
  then show ?thesis by (subst book_tx_fields [OF r(2)]) (auto simp: card_ok_def)
qed

lemma small_fits_32:
  assumes ok: "tx_ok c" and len: "len \<le> 1514" and room: "has_room 1 32 (mem_tx_dsc c) (mem_tx_pkt c)"
  shows "has_room 1 (tx_lines len) (mem_tx_dsc c) (mem_tx_pkt c)"
proof -
  have "unat len \<le> 1514" using len by (simp add: word_le_nat_alt)
  then have n: "unat (tx_lines len) \<le> 25" by (simp add: tx_lines_small [OF len])
  have u: "unat (cnt (mem_tx_pkt c)) \<le> 512" using ok by (simp add: tx_ok_def Let_def)
  have "unat (cnt (mem_tx_pkt c) + tx_lines len) = unat (cnt (mem_tx_pkt c)) + unat (tx_lines len)"
    "unat (cnt (mem_tx_pkt c) + 32) = unat (cnt (mem_tx_pkt c)) + 32" using n u by (simp_all add: add_small)
  then show ?thesis using room n by (auto simp: has_room_def word_le_nat_alt)
qed

lemma idle_has_room:
  assumes ok: "tx_ok c" and q: "tx_queue c = []"
  shows "has_room 1 32 (mem_tx_dsc c) (mem_tx_pkt c)"
proof -
  have k: "unat (cnt (mem_tx_dsc c)) = 0" using q by (cases "unat (cnt (mem_tx_dsc c))") (auto simp: tx_queue_def window_def)
  then have "unat (cnt (mem_tx_pkt c)) = 0" using ok by (simp add: tx_ok_def Let_def lines_used_def)
  then have "cnt (mem_tx_pkt c) = 0" "cnt (mem_tx_dsc c) = 0" using k by (simp_all add: unat_eq_zero)
  moreover have "cl_size (mem_tx_dsc c) = 32" "cl_size (mem_tx_pkt c) = 512" using ok by (simp_all add: tx_ok_def card_ok_def)
  ultimately show ?thesis by (simp add: has_room_def)
qed

lemma put_small:
  assumes "tx_ok c" "tx_queue c = []" "skb_len skb \<le> 1514" "port < 4"
  shows "\<exists>c'. nf10priv_xmit (Some a) skb port c = Some (0, c')"
  using xmit_accepts [OF card_of_tx [OF assms(1)] small_fits_32 [OF assms(1,3) idle_has_room [OF assms(1,2)]] assms(4)] .

section \<open>A sample card\<close>

definition sample_env :: probe_env where
  "sample_env = \<lparr>grants = (\<lambda>_. True), dma_mask_code = 0, coherent_mask_code = 0, chrdev_code = 0, cdev_code = 0,
     irq_number = 40, tx_dne_dma = 0x10000, rx_dne_dma = 0x20000, junk_skb = (\<lambda>k. \<lparr>skb_id = 900 + k, skb_len = 7\<rparr>),
     junk_word = of_nat, rx_allocs = (\<lambda>k. Some (\<lparr>skb_id = k, skb_len = 0\<rparr>, of_nat (4096 * k)))\<rparr>"

definition sample_host :: host where
  "sample_host = \<lparr>held = {}, stray = [], drvdata = False, hcard = zero_card\<rparr>"

lemma sample_ready: "device_ready sample_env" "granted sample_env = UNIV"
  by (auto simp: device_ready_def ports_ready_def ports_granted_def books_ready_def rings_ready_def granted_def sample_env_def)

lemma sample_given: "given sample_env = map (\<lambda>k. \<lparr>skb_id = k, skb_len = 0\<rparr>) [0..<21]"
  by (simp add: given_def sample_env_def List.map_filter_def o_def take_map)

lemma sample_started: "\<exists>c. card_started sample_env c"
  using start_card [of sample_env] unfolding card_started_def by blast

section \<open>The rings under any order of calls\<close>

text \<open>
  A step is a packet given to a port, a completion of a sent packet, or of a receive descriptor; the
  card completes only what it was given. The history has the packets that the driver accepted and
  those that it released, in order.
\<close>

inductive nf10_step :: "nf10_card \<times> sk_buff list \<times> sk_buff list \<Rightarrow> nf10_card \<times> sk_buff list \<times> sk_buff list \<Rightarrow> bool" where
  send: "nf10priv_xmit (Some a) skb port c = Some (r, c')
    \<Longrightarrow> nf10_step (c, acc, out) (c', if r = 0 then acc @ [skb] else acc, out)"
| tx_done: "tx_queue c \<noteq> [] \<Longrightarrow> tx_complete c = Some c' \<Longrightarrow> nf10_step (c, acc, out) (c', acc, out @ drop (length (freed c)) (freed c'))"
| rx_done: "rx_queue c \<noteq> [] \<Longrightarrow> rx_complete alloc w c = Some c' \<Longrightarrow> nf10_step (c, acc, out) (c', acc, out)"

definition rings_ok :: "nf10_card \<times> sk_buff list \<times> sk_buff list \<Rightarrow> bool" where
  "rings_ok = (\<lambda>(c, acc, out). tx_ok c \<and> rx_ok c \<and> acc = out @ tx_queue c)"

lemma nf10_step_ok: "nf10_step s t \<Longrightarrow> rings_ok s \<Longrightarrow> rings_ok t"
proof (induction rule: nf10_step.induct)
  case (send a skb port c r c' acc out)
  then have ok: "tx_ok c" "rx_ok c" "acc = out @ tx_queue c" by (simp_all add: rings_ok_def)
  show ?case
  proof (cases "r = 0")
    case True
    with send.hyps have x: "nf10priv_xmit (Some a) skb port c = Some (0, c')" by simp
    show ?thesis using xmit_queues [OF ok(1) x] xmit_keeps_rx [OF ok(1,2) x] ok(3) True by (simp add: rings_ok_def)
  next
    case False
    then show ?thesis using xmit_refused(2) [OF send.hyps False] ok by (simp add: rings_ok_def)
  qed
next
  case (tx_done c c' acc out)
  then have ok: "tx_ok c" "rx_ok c" "acc = out @ tx_queue c" by (simp_all add: rings_ok_def)
  obtain x xs where q: "tx_queue c = x # xs" using tx_done.hyps(1) by (cases "tx_queue c") auto
  from tx_complete_both [OF ok(1,2) q] tx_done.hyps(2) ok(3) q show ?case by (auto simp: rings_ok_def)
next
  case (rx_done c alloc w c' acc out)
  then have ok: "tx_ok c" "rx_ok c" "acc = out @ tx_queue c" by (simp_all add: rings_ok_def)
  obtain x xs where q: "rx_queue c = x # xs" using rx_done.hyps(1) by (cases "rx_queue c") auto
  from rx_complete_result [OF ok(1,2) q, of alloc w] rx_done.hyps(2) ok(3) show ?case by (auto simp: rings_ok_def)
qed

lemma nf10_steps_ok: "nf10_step\<^sup>*\<^sup>* s t \<Longrightarrow> rings_ok s \<Longrightarrow> rings_ok t"
  by (induction rule: rtranclp_induct) (auto intro: nf10_step_ok)

text \<open>
  C3: From the card that a successful probe hands over, in any order of packets to send, of sent
  packets completed and of received packets, the driver releases the packets in the order in which
  it accepted them, each exactly once, as long as every packet can be mapped: what it accepted is what it released followed by what the
  card still has. At most 32 packets and 21 receive buffers are with the card, their lines never
  exceed the 512 of each packet memory, and no completion reads outside an array.
\<close>

theorem nf10_rings_fifo:
  assumes "card_started env c0" "nf10_step\<^sup>*\<^sup>* (c0, [], []) (c, acc, out)"
  shows "acc = out @ tx_queue c \<and> length (tx_queue c) \<le> 32 \<and> length (rx_queue c) \<le> 21
    \<and> unat (cnt (mem_tx_pkt c)) \<le> 512 \<and> unat (cnt (mem_rx_pkt c)) = 24 * length (rx_queue c)
    \<and> tx_complete c \<noteq> None \<and> rx_complete alloc w c \<noteq> None"
proof -
  have "rings_ok (c, acc, out)"
    using nf10_steps_ok [OF assms(2)] assms(1) by (simp add: rings_ok_def card_started_def)
  then have ok: "tx_ok c" "rx_ok c" "acc = out @ tx_queue c" by (simp_all add: rings_ok_def)
  have "length (tx_queue c) \<le> 32" "unat (cnt (mem_tx_pkt c)) \<le> 512"
    using ok(1) by (simp_all add: tx_ok_def tx_queue_def Let_def)
  then show ?thesis
    using ok(3) rx_room(2) [OF ok(2)] rx_used(1) [OF ok(2)] tx_complete_keeps [OF card_of_tx [OF ok(1)]]
      rx_complete_keeps [OF card_of_tx [OF ok(1)], of alloc w] by auto
qed

theorem nf10_rings_fifo_witness:
  "\<exists>c0 c1 c2. card_started sample_env c0 \<and> nf10_step\<^sup>*\<^sup>* (c0, [], []) (c2, [\<lparr>skb_id = 50, skb_len = 100\<rparr>], [\<lparr>skb_id = 50, skb_len = 100\<rparr>])
    \<and> tx_queue c1 = [\<lparr>skb_id = 50, skb_len = 100\<rparr>] \<and> tx_queue c2 = []"
proof -
  let ?p = "\<lparr>skb_id = 50, skb_len = 100\<rparr>"
  obtain c0 where c0: "card_started sample_env c0" using sample_started by blast
  then have ok: "tx_ok c0" "rx_ok c0" "tx_queue c0 = []" by (simp_all add: card_started_def)
  obtain c1 where c1: "nf10priv_xmit (Some 0) ?p 2 c0 = Some (0, c1)" using put_small [OF ok(1,3), of ?p 2 0] by auto
  have s1: "nf10_step (c0, [], []) (c1, [?p], [])" using nf10_step.send [OF c1, of "[]" "[]"] by simp
  have s1s: "nf10_step\<^sup>*\<^sup>* (c0, [], []) (c1, [?p], [])" using s1 by (rule r_into_rtranclp)
  have q1: "tx_queue c1 = [?p]"
    using nf10_rings_fifo [OF c0 s1s] by simp
  have k: "tx_ok c1" "rx_ok c1" using xmit_queues [OF ok(1) c1] xmit_keeps_rx [OF ok(1,2) c1] by simp_all
  obtain c2 where c2: "tx_complete c1 = Some c2" "freed c2 = freed c1 @ [?p]" using tx_complete_both [OF k q1] by blast
  have s2: "nf10_step (c1, [?p], []) (c2, [?p], [?p])"
    using nf10_step.tx_done [OF _ c2(1), of "[?p]" "[]"] q1 c2(2) by simp
  have s: "nf10_step\<^sup>*\<^sup>* (c0, [], []) (c2, [?p], [?p])"
    using s1 s2 by (meson converse_rtranclp_into_rtranclp rtranclp.rtrancl_refl)
  have "tx_queue c2 = []" using nf10_rings_fifo [OF c0 s] by simp
  with c0 q1 s show ?thesis by blast
qed

end
