(* ===== verification/Nf10_Properties.thy ===== *)
theory Nf10_Properties
  imports Nf10_Laws
begin

text \<open>
  The properties of the NF10 driver beyond the order of the rings: the work handler returns, what a
  sender may rely on, sending through an interface, the fate of a received packet, the character
  device, and what probing and removing leave behind.
\<close>

section \<open>The work handler\<close>

text \<open>
  C7: The work handler returns. If \<open>ready c\<close> lines of the completion buffers hold completions when it
  starts and the card writes \<open>E\<close> times while it runs, then it has returned after at most
  \<open>1 + 3 * (ready c + E)\<close> turns of its loop. It never accesses an array outside its bounds, it
  returns only when it has just found nothing at its read pointers, and then each of the two
  interrupt registers is switched on, or as it was before.
\<close>

theorem work_handler_returns:
  assumes "card_ok c" "1 + 3 * (ready c + length (concat (map fst turns))) \<le> length turns"
  shows "\<exists>c'. work_handler turns c = Some (Done c') \<and> card_ok c' \<and> quiet c' \<and> irqs_on (cfg c) c'"
  using assms by (rule handler_returns)

theorem work_handler_returns_witness:
  "\<exists>c c'. card_started sample_env c
    \<and> work_handler (([TxDone 0 1], None) # replicate 3 ([], None)) c = Some (Done c') \<and> quiet c'"
proof -
  obtain c where c: "card_started sample_env c" using sample_started by blast
  then have "card_ok c" "ready c = 0" by (simp_all add: card_started_def card_of_tx)
  then have "\<exists>c'. work_handler (([TxDone 0 1], None) # replicate 3 ([], None)) c = Some (Done c') \<and> card_ok c' \<and> quiet c' \<and> irqs_on (cfg c) c'"
    by (intro work_handler_returns) simp_all
  with c show ?thesis by blast
qed

section \<open>What a sender may rely on\<close>

lemma queue_stopped_or_room:
  assumes "reserve_tx n port c = Some c'" "port < length (ndev c)"
  shows "queue_stopped (ndev c' ! port) \<or> has_room 1 32 (mem_tx_dsc c') (mem_tx_pkt c')"
  using assms by (auto simp: reserve_tx_def Let_def upd_dev_def split: if_splits)

text \<open>
  C15: A packet of at most 1514 bytes that the driver accepts fits the lines it reserves, at whatever
  address it lies, and all reserved lines fit the memory of the card. Afterwards the queue of its
  port is stopped, or the driver accepts any packet of at most 1514 bytes that comes next, on any
  port.
\<close>

theorem xmit_fits:
  assumes "tx_ok c" "port < 4" "skb_len skb \<le> 1514" "nf10priv_xmit (Some a) skb port c = Some (0, c')"
  shows "unat (a AND 0x3f) + unat (skb_len skb) \<le> 64 * unat (tx_lines (skb_len skb))
    \<and> unat (cnt (mem_tx_pkt c')) \<le> 512
    \<and> (queue_stopped (ndev c' ! port)
       \<or> (\<forall>skb' b p. skb_len skb' \<le> 1514 \<and> p < 4 \<longrightarrow> (\<exists>c''. nf10priv_xmit (Some b) skb' p c' = Some (0, c''))))"
proof -
  let ?n = "tx_lines (skb_len skb)"
  have ok: "tx_ok c'" using xmit_queues [OF assms(1,4)] by simp
  obtain d where x:
    "reserve_tx ?n port (c\<lparr>mem_tx_pkt := take_space ?n (mem_tx_pkt c), mem_tx_dsc := take_space 1 (mem_tx_dsc c)\<rparr>) = Some d"
    "book_tx (wr_ptr (mem_tx_dsc c)) (wr_ptr (mem_tx_pkt c)) a ?n skb port d = Some c'"
    using xmit_sent [OF assms(4)] by (metis option.inject)
  have same: "ndev c' = ndev d" "mem_tx_dsc c' = mem_tx_dsc d" "mem_tx_pkt c' = mem_tx_pkt d"
    by (subst book_tx_fields [OF x(2)], simp)+
  have "queue_stopped (ndev c' ! port) \<or> has_room 1 32 (mem_tx_dsc c') (mem_tx_pkt c')"
    using queue_stopped_or_room [OF x(1)] card_of_tx [OF assms(1)] assms(2) unfolding same by (simp add: card_ok_def)
  moreover have "\<exists>c''. nf10priv_xmit (Some b) skb' p c' = Some (0, c'')"
    if "has_room 1 32 (mem_tx_dsc c') (mem_tx_pkt c')" "skb_len skb' \<le> 1514" "p < 4" for skb' b p
    using xmit_accepts [OF card_of_tx [OF ok] small_fits_32 [OF ok that(2,1)] that(3)] .
  moreover have "unat (a AND 0x3f) \<le> 63" using word_and_le1 [of a "0x3f"] by (simp add: word_le_nat_alt)
  then have "unat (a AND 0x3f) + unat (skb_len skb) \<le> 64 * unat ?n" unfolding tx_lines_small [OF assms(3)] by linarith
  moreover have "unat (cnt (mem_tx_pkt c')) \<le> 512" using ok by (simp add: tx_ok_def Let_def)
  ultimately show ?thesis by blast
qed

theorem xmit_fits_witness:
  "\<exists>c c'. card_started sample_env c \<and> nf10priv_xmit (Some 0x1003f) \<lparr>skb_id = 1, skb_len = 1514\<rparr> 3 c = Some (0, c')
    \<and> unat (cnt (mem_tx_pkt c')) \<le> 512"
proof -
  obtain c where c: "card_started sample_env c" using sample_started by blast
  then have ok: "tx_ok c" "tx_queue c = []" by (simp_all add: card_started_def)
  obtain c' where x: "nf10priv_xmit (Some 0x1003f) \<lparr>skb_id = 1, skb_len = 1514\<rparr> 3 c = Some (0, c')"
    using put_small [OF ok, of "\<lparr>skb_id = 1, skb_len = 1514\<rparr>" 3 "0x1003f"] by auto
  show ?thesis using xmit_fits [OF ok(1) _ _ x] c x by auto
qed

lemma reserve_stats: "reserve_tx n port c = Some c' \<Longrightarrow> nf10i_stats (ndev c' ! d) = nf10i_stats (ndev c ! d)"
  by (cases "d = port") (auto simp: reserve_tx_def Let_def upd_dev_def nf10i_stats_def split: if_splits)

lemma xmit_stats:
  assumes "nf10priv_xmit dma skb port c = Some (0, c')"
  shows "nf10i_stats (ndev c' ! d) = nf10i_stats (ndev c ! d)"
proof -
  let ?n = "tx_lines (skb_len skb)"
  obtain a e where x:
    "reserve_tx ?n port (c\<lparr>mem_tx_pkt := take_space ?n (mem_tx_pkt c), mem_tx_dsc := take_space 1 (mem_tx_dsc c)\<rparr>) = Some e"
    "book_tx (wr_ptr (mem_tx_dsc c)) (wr_ptr (mem_tx_pkt c)) a ?n skb port e = Some c'"
    using xmit_sent [OF assms] by metis
  show ?thesis using reserve_stats [OF x(1), of d] by (subst book_tx_fields [OF x(2)]) simp
qed

text \<open>
  A packet that cannot be mapped keeps its place in the ring all the same: the packet that is sent
  next is not the one that its completion releases.
\<close>

lemma mapping_error_frees_stale:
  assumes ok: "tx_ok c" "tx_queue c = []" and len: "skb_len s1 \<le> 1514" "skb_len s2 \<le> 1514" and port: "p1 < 4" "p2 < 4"
  shows "\<exists>c1 c2 c3. nf10priv_xmit None s1 p1 c = Some (- 1, c1) \<and> nf10priv_xmit (Some a) s2 p2 c1 = Some (0, c2)
    \<and> tx_complete c2 = Some c3 \<and> freed c3 = freed c @ [tx_bk_skb c ! tx_first c]"
proof -
  let ?n = "tx_lines (skb_len s1)"
  let ?c1 = "c\<lparr>mem_tx_pkt := take_space ?n (mem_tx_pkt c), mem_tx_dsc := take_space 1 (mem_tx_dsc c)\<rparr>"
  note room = small_fits_32 [OF ok(1) _ idle_has_room [OF ok]]
  have x1: "nf10priv_xmit None s1 p1 c = Some (- 1, ?c1)"
    using room [OF len(1)] by (simp add: nf10priv_xmit_def Let_def)
  have k: "cnt (mem_tx_dsc c) = 0"
    using ok(2) by (cases "unat (cnt (mem_tx_dsc c))") (auto simp: tx_queue_def window_def unat_eq_zero)
  then have w: "wr_ptr (mem_tx_dsc c) = slot_ptr (tx_first c)"
    using ok(1) first_slot(1) [OF card_of_tx [OF ok(1)]] by (simp add: tx_ok_def Let_def)
  note g = card_of_tx [OF ok(1)] and f = first_slot(1) [OF card_of_tx [OF ok(1)]]
  have mask: "ptr_mask (mem_tx_dsc c) = 0x7ff" using g by (simp add: card_ok_def)
  have w1: "wr_ptr (mem_tx_dsc ?c1) = slot_ptr (Suc (tx_first c) mod 32)" using f by (simp add: mask w)
  have "\<exists>i < 32. wr_ptr (mem_tx_dsc ?c1) = slot_ptr i" unfolding w1 by (intro exI [of _ "Suc (tx_first c) mod 32"]) simp
  then have g1: "card_ok ?c1" using g by (simp add: card_ok_def)
  have "has_room 1 (tx_lines (skb_len s2)) (mem_tx_dsc ?c1) (mem_tx_pkt ?c1)"
    using room [OF len(2)] by (simp add: has_room_def)
  from xmit_accepts [OF g1 this port(2)] obtain c2 where x2: "nf10priv_xmit (Some a) s2 p2 ?c1 = Some (0, c2)" by blast
  let ?n2 = "tx_lines (skb_len s2)"
  obtain d where x: "reserve_tx ?n2 p2 (?c1\<lparr>mem_tx_pkt := take_space ?n2 (mem_tx_pkt ?c1), mem_tx_dsc := take_space 1 (mem_tx_dsc ?c1)\<rparr>) = Some d"
    "book_tx (wr_ptr (mem_tx_dsc ?c1)) (wr_ptr (mem_tx_pkt ?c1)) a ?n2 s2 p2 d = Some c2"
    using xmit_sent [OF x2] by (metis option.inject)
  have d: "tx_bk_skb d = tx_bk_skb c" "freed d = freed c" "host_tx_dne d = host_tx_dne c"
    by (subst reserve_tx_fields(1) [OF x(1)], simp)+
  have i: "unat (wr_ptr (mem_tx_dsc ?c1) div 64) = Suc (tx_first c) mod 32" unfolding w1 by simp
  have c2: "tx_bk_skb c2 = (tx_bk_skb c)[Suc (tx_first c) mod 32 := s2]" "freed c2 = freed c" "host_tx_dne c2 = host_tx_dne c"
    by (subst book_tx_fields [OF x(2)], simp only: i, simp add: d)+
  have "Suc (tx_first c) mod 32 \<noteq> tx_first c" using f by (cases "tx_first c = 31") auto
  moreover have first: "tx_first c2 = tx_first c" by (simp add: tx_first_def c2)
  moreover have g2: "card_ok c2" by (rule xmit_card_ok [OF g1 x2])
  ultimately have "\<exists>c3. tx_complete c2 = Some c3 \<and> freed c3 = freed c @ [tx_bk_skb c ! tx_first c]"
    by (simp add: tx_complete_def take_tx_total c2 wake_queues_def)
  with x1 x2 show ?thesis by blast
qed

section \<open>Sending through an interface\<close>

text \<open>
  C16: An interface sends every packet of at most 1514 bytes for which there is room and that can be
  mapped, padded to 60 bytes: it is then the last in the ring, and the two counters of the interface
  grow by the packet and by its bytes. Every other packet is freed, once, and the counters and the
  packets in the ring stay as they are. (\<open>skb_pad\<close> finds memory here.)
\<close>

theorem nf10i_tx_outcome:
  assumes ok: "tx_ok c" and d: "d < 4" "port_num (ndev c ! d) = d"
    and skb': "skb' = (if skb_len skb < 60 then skb\<lparr>skb_len := 60\<rparr> else skb)"
  shows "\<exists>c'. nf10i_tx True dma skb d c = Some c' \<and>
    (if skb_len skb \<le> 1514 \<and> has_room 1 (tx_lines (skb_len skb')) (mem_tx_dsc c) (mem_tx_pkt c) \<and> dma \<noteq> None
     then tx_ok c' \<and> tx_queue c' = tx_queue c @ [skb'] \<and> freed c' = freed c
       \<and> nf10i_stats (ndev c' ! d) = (tx_packets (ndev c ! d) + 1, tx_bytes (ndev c ! d) + ucast (skb_len skb'),
            rx_packets (ndev c ! d), rx_bytes (ndev c ! d))
     else tx_queue c' = tx_queue c \<and> freed c' = freed c @ [skb'] \<and> nf10i_stats (ndev c' ! d) = nf10i_stats (ndev c ! d))"
proof -
  have g: "card_ok c" "length (ndev c) = 4" using card_of_tx [OF ok] by (simp_all add: card_ok_def)
  have pad: "pad_skb True skb c = (skb', c)" by (simp add: pad_skb_def skb')
  have len: "(skb_len skb' > 1514) = (skb_len skb > 1514)" by (auto simp: skb' word_less_nat_alt)
  let ?room = "has_room 1 (tx_lines (skb_len skb')) (mem_tx_dsc c) (mem_tx_pkt c)"
  have drop: "tx_queue (c\<lparr>freed := f\<rparr>) = tx_queue c" for c f by (simp add: tx_queue_def tx_first_def)
  show ?thesis
  proof (cases "skb_len skb \<le> 1514 \<and> ?room \<and> dma \<noteq> None")
    case True
    then obtain a where a: "dma = Some a" by blast
    obtain e where x: "nf10priv_xmit dma skb' d c = Some (0, e)" using xmit_accepts [OF g(1) _ d(1)] True a by blast
    have q: "tx_ok e" "tx_queue e = tx_queue c @ [skb']" "freed e = freed c" using xmit_queues [OF ok x] xmit_same(6) [OF x] by simp_all
    have n: "length (ndev e) = 4" using card_of_tx [OF q(1)] by (simp add: card_ok_def)
    have stats: "nf10i_stats (ndev e ! d) = nf10i_stats (ndev c ! d)" by (rule xmit_stats [OF x])
    define f :: "net_device \<Rightarrow> net_device" where "f = (\<lambda>n. n\<lparr>tx_packets := tx_packets n + 1, tx_bytes := tx_bytes n + ucast (skb_len skb')\<rparr>)"
    define c' where "c' = e\<lparr>ndev := (ndev e)[d := f (ndev e ! d)]\<rparr>"
    have "nf10i_tx True dma skb d c = Some c'"
      using conjunct1 [OF True] d g n len by (simp add: nf10i_tx_def Let_def pad x upd_dev_def c'_def f_def not_less [symmetric])
    moreover have "tx_ok c' \<and> tx_queue c' = tx_queue e"
      by (rule tx_ok_same [OF q(1)]) (use card_of_tx [OF q(1)] n in \<open>simp_all add: c'_def card_ok_def\<close>)
    moreover have "freed c' = freed c" by (simp add: c'_def q)
    moreover have "nf10i_stats (ndev c' ! d) = (tx_packets (ndev c ! d) + 1, tx_bytes (ndev c ! d) + ucast (skb_len skb'),
            rx_packets (ndev c ! d), rx_bytes (ndev c ! d))"
      using stats d n by (simp add: c'_def f_def nf10i_stats_def)
    ultimately show ?thesis using True q(2) by auto
  next
    case False
    show ?thesis
    proof (cases "skb_len skb > 1514")
      case True
      then have "nf10i_tx True dma skb d c = Some (c\<lparr>freed := freed c @ [skb']\<rparr>)"
        using d g len by (simp add: nf10i_tx_def Let_def pad)
      then show ?thesis using False by (simp add: drop)
    next
      case small: False
      then have no: "\<not> ?room \<or> dma = None" using False by (simp add: not_less)
      define e where "e = (if ?room then c\<lparr>mem_tx_pkt := take_space (tx_lines (skb_len skb')) (mem_tx_pkt c),
        mem_tx_dsc := take_space 1 (mem_tx_dsc c)\<rparr> else c)"
      have "nf10priv_xmit dma skb' d c = Some (- 1, e)"
        using no by (auto simp: nf10priv_xmit_def Let_def e_def)
      then have "nf10i_tx True dma skb d c = Some (e\<lparr>freed := freed e @ [skb']\<rparr>)"
        using d g len small by (simp add: nf10i_tx_def Let_def pad)
      moreover have "tx_queue e = tx_queue c" "freed e = freed c" "ndev e = ndev c"
        by (simp_all add: e_def tx_queue_def tx_first_def)
      ultimately show ?thesis using False by (simp add: drop)
    qed
  qed
qed

theorem nf10i_tx_outcome_witness:
  "\<exists>c c'. card_started sample_env c \<and> nf10i_tx True (Some 64) \<lparr>skb_id = 1, skb_len = 20\<rparr> 2 c = Some c'
    \<and> tx_queue c' = [\<lparr>skb_id = 1, skb_len = 60\<rparr>] \<and> freed c' = []"
proof -
  obtain c where c: "card_started sample_env c" using sample_started by blast
  then have ok: "tx_ok c" "tx_queue c = []" "freed c = []" by (simp_all add: card_started_def)
  have p: "port_num (ndev c ! 2) = 2" using c by (simp add: card_started_def new_netdev_def)
  have room: "has_room 1 (tx_lines 60) (mem_tx_dsc c) (mem_tx_pkt c)"
    using small_fits_32 [OF ok(1) _ idle_has_room [OF ok(1,2)], of 60] by simp
  have "\<exists>c'. nf10i_tx True (Some 64) \<lparr>skb_id = 1, skb_len = 20\<rparr> 2 c = Some c'
    \<and> tx_queue c' = [\<lparr>skb_id = 1, skb_len = 60\<rparr>] \<and> freed c' = []"
    using nf10i_tx_outcome [OF ok(1) _ p, of "\<lparr>skb_id = 1, skb_len = 60\<rparr>" "\<lparr>skb_id = 1, skb_len = 20\<rparr>" "Some 64"] room ok by auto
  with c show ?thesis by blast
qed

section \<open>The fate of a received packet\<close>

text \<open>
  C17: A completion of a receive descriptor takes the oldest buffer that the card has and gives the
  card the new one, if there is one and room for it. A packet of 60 to 1514 bytes with a known port
  goes to the stack of that port, with its length, when the port is up, and is freed when it is
  down. Any other packet is neither delivered nor freed. The ring of sent packets stays as it is.
\<close>

theorem rx_complete_fate:
  assumes "tx_ok c" "rx_ok c" "rx_queue c = skb # q"
  shows "\<exists>c'. rx_complete alloc w c = Some c' \<and> tx_ok c' \<and> rx_ok c' \<and> tx_queue c' = tx_queue c
    \<and> rx_queue c' = take 21 (q @ map fst (case alloc of None \<Rightarrow> [] | Some x \<Rightarrow> [x]))
    \<and> (if \<not> valid_rx w then freed c' = freed c \<and> delivered c' = delivered c
       else if port_up (ndev c ! rx_port w) then freed c' = freed c \<and> delivered c' = delivered c @ [(rx_port w, received w skb)]
       else freed c' = freed c @ [skb] \<and> delivered c' = delivered c)"
  using assms by (rule rx_complete_result)

theorem rx_complete_fate_witness:
  "\<exists>c c'. card_started sample_env c \<and> rx_complete None 0x0800003c c = Some c'
    \<and> freed c' = [\<lparr>skb_id = 0, skb_len = 0\<rparr>] \<and> length (rx_queue c') = 20"
proof -
  obtain c where c: "card_started sample_env c" using sample_started by blast
  then have ok: "tx_ok c" "rx_ok c" "freed c = []" by (simp_all add: card_started_def)
  have q: "rx_queue c = \<lparr>skb_id = 0, skb_len = 0\<rparr> # map (\<lambda>k. \<lparr>skb_id = k, skb_len = 0\<rparr>) [1..<21]"
    using c by (simp add: card_started_def sample_given upt_conv_Cons)
  have w: "valid_rx 0x0800003c" "rx_port 0x0800003c = 1"
    by (simp_all add: valid_rx_def rx_port_def encoded_port_def drop_bit_eq_div)
  have down: "\<not> port_up (ndev c ! 1)" using c by (simp add: card_started_def new_netdev_def)
  show ?thesis using rx_complete_fate [OF ok(1,2) q, where alloc = None and w = "0x0800003c"] w down c ok(3) by auto
qed

section \<open>The character device\<close>

text \<open>A sequence of calls on open files, each with its result.\<close>

type_synonym ioctl_call = "ioctl_env \<times> nat \<times> u32 \<times> u64"

fun run_ioctls :: "ioctl_call list \<Rightarrow> chr_state \<Rightarrow> int list \<times> chr_state" where
  "run_ioctls [] s = ([], s)"
| "run_ioctls ((env, n, cmd, arg) # calls) s =
    (case nf10fops_ioctl env (Some n) cmd arg s of
       None \<Rightarrow> ([], s)
     | Some (r, _, s) \<Rightarrow> (case run_ioctls calls s of (rs, s) \<Rightarrow> (r # rs, s)))"

lemma axi_level_some: "axi_level val \<in> {Some 1, Some 49}"
proof -
  have "bit (NOT (val AND 2)) 0" by (simp add: bit_simps)
  then have "NOT (val AND 2) \<noteq> 0" by (metis bit_0_eq bot_apply bot_bool_def)
  then show ?thesis by (simp add: axi_level_def)
qed

lemma next_axi_cnt_range: "0 \<le> k \<Longrightarrow> next_axi_cnt env k \<in> {1..64}"
  using axi_level_some [of "reg_value env 130 0"] by (auto simp: next_axi_cnt_def)

definition refused_stat :: "ioctl_call \<Rightarrow> bool" where
  "refused_stat = (\<lambda>(env, n, cmd, arg). cmd = NF10_IOCTL_CMD_READ_STAT (sioc_base env) \<and> 512 \<le> fetched_addr env)"

text \<open>
  C22: Over any sequence of calls on open files the counter of pending register writes stays between
  0 and 64, and every call returns: \<open>-EINVAL\<close> for a statistic beyond word 511 and 0 for every other
  call. In particular a write is never refused with \<open>-EFAULT\<close>, whatever the card says of the state
  of its write buffer.
\<close>

theorem ioctl_never_refuses_a_write:
  assumes "0 \<le> axi_wr_cnt s" "axi_wr_cnt s \<le> 64" "run_ioctls calls s = (rs, s')"
  shows "0 \<le> axi_wr_cnt s' \<and> axi_wr_cnt s' \<le> 64 \<and> rs = map (\<lambda>call. if refused_stat call then - EINVAL else 0) calls"
  using assms
proof (induction calls arbitrary: s rs)
  case (Cons call calls)
  obtain env n cmd arg where call: "call = (env, n, cmd, arg)" by (cases call) auto
  have "\<exists>out t. nf10fops_ioctl env (Some n) cmd arg s = Some (if refused_stat call then - EINVAL else 0, out, t)
    \<and> 0 \<le> axi_wr_cnt t \<and> axi_wr_cnt t \<le> 64"
    using Cons.prems(1,2) next_axi_cnt_range [OF Cons.prems(1), of env]
    by (auto simp: nf10fops_ioctl_def Let_def call refused_stat_def upd_card_def word_le_nat_alt not_le
        NF10_IOCTL_CMD_READ_STAT_def NF10_IOCTL_CMD_WRITE_REG_def NF10_IOCTL_CMD_READ_REG_def)
  with Cons show ?case by (auto simp: call split: prod.splits)
qed simp

text \<open>The counter is full and the card says that its buffer is full: the write goes ahead.\<close>

definition full_env :: ioctl_env where
  "full_env = \<lparr>sioc_base = 0x89F0, user_word = Some 600, stale_word = 0, user_writable = True, reg_value = (\<lambda>r k. 6)\<rparr>"

theorem ioctl_never_refuses_a_write_witness:
  "\<exists>s'. run_ioctls [(full_env, 0, 0x89F1, 5), (full_env, 0, 0x89F0, 0)] \<lparr>axi_wr_cnt = 64, cards = (\<lambda>_. zero_card)\<rparr> = ([0, - EINVAL], s')
    \<and> axi_wr_cnt s' \<le> 64"
proof -
  let ?calls = "[(full_env, 0, 0x89F1, 5), (full_env, 0, 0x89F0, 0)]" and ?s = "\<lparr>axi_wr_cnt = 64, cards = (\<lambda>_. zero_card)\<rparr>"
  obtain rs s' where r: "run_ioctls ?calls ?s = (rs, s')" by force
  have "\<not> refused_stat (full_env, 0, 0x89F1, 5)" "refused_stat (full_env, 0, 0x89F0, 0)"
    by (simp_all add: refused_stat_def full_env_def fetched_addr_def NF10_IOCTL_CMD_READ_STAT_def)
  then show ?thesis using ioctl_never_refuses_a_write [OF _ _ r] r by simp
qed

section \<open>Probing and removing\<close>



lemma class_fields [simp]:
  "held (class_destroy (class_unregister h)) = held h - {Dev_class}"
  "set (stray (class_destroy (class_unregister h))) = insert Dev_class (set (stray h))"
  "drvdata (class_destroy (class_unregister h)) = drvdata h" "hcard (class_destroy (class_unregister h)) = hcard h"
  by (auto simp: class_destroy_def class_unregister_def)

lemma fops_remove_fields:
  assumes "nf10fops_remove h = (r, g)"
  shows "held g = held h - {Dev_node, Dev_class, Cdev, Chrdev_region}"
    "set (stray g) = insert Dev_class (set (stray h)) \<union> ({Dev_node, Cdev, Chrdev_region} - held h)"
    "drvdata g = drvdata h" "hcard g = hcard h"
  using assms by (auto simp: nf10fops_remove_def Let_def)

lemma iface_remove_fields:
  assumes "nf10iface_remove h = (r, g)" "length (ndev (hcard h)) = 4"
  shows "held g = held h - (netdev_resources 4 \<union> {Irq_line})"
    "set (stray g) = set (stray h) \<union> ((netdev_resources 4 \<union> {Irq_line}) - held h)"
    "drvdata g = drvdata h" "hcard g = hcard h"
  using assms free_netdevs_fields [of h] by (auto simp: nf10iface_remove_def netdev_resources_def)

lemma free_private_fields:
  assumes n: "length (ndev (hcard h)) = 4"
  shows "held (free_private h) = held h - ({Dev_node, Dev_class, Cdev, Chrdev_region, Irq_line, Cfg_map, Tx_map, Rx_map,
      Tx_dne_buf, Rx_dne_buf, Card_struct} \<union> netdev_resources 4 \<union> set book_resources)"
    "set (stray (free_private h)) = insert Dev_class (set (stray h)) \<union>
      (({Dev_node, Cdev, Chrdev_region, Irq_line, Tx_dne_buf, Rx_dne_buf, Card_struct} \<union> netdev_resources 4) - held h)"
    "hcard (free_private h) = hcard h"
proof -
  obtain r1 g1 where g1: "nf10fops_remove h = (r1, g1)" by force
  obtain r2 g2 where g2: "nf10iface_remove g1 = (r2, g2)" by force
  note f1 = fops_remove_fields [OF g1]
  note f2 = iface_remove_fields [OF g2, unfolded f1(4), OF n]
  show "held (free_private h) = held h - ({Dev_node, Dev_class, Cdev, Chrdev_region, Irq_line, Cfg_map, Tx_map, Rx_map,
      Tx_dne_buf, Rx_dne_buf, Card_struct} \<union> netdev_resources 4 \<union> set book_resources)"
    by (simp add: free_private_def Let_def g1 g2 f1 f2) blast
  have "netdev_resources 4 \<inter> set book_resources = {}" by (auto simp: netdev_resources_def book_resources_def)
  then show "set (stray (free_private h)) = insert Dev_class (set (stray h)) \<union>
      (({Dev_node, Cdev, Chrdev_region, Irq_line, Tx_dne_buf, Rx_dne_buf, Card_struct} \<union> netdev_resources 4) - held h)"
    by (simp add: free_private_def Let_def g1 g2 f1 f2) (auto simp: netdev_resources_def book_resources_def)
  show "hcard (free_private h) = hcard h" by (simp add: free_private_def Let_def g1 g2 f1 f2)
qed

lemma removed:
  assumes h: "held h = device_resources env" "drvdata h" and n: "length (ndev (hcard h)) = 4"
  shows "held (nf10_remove h) = {Work_queue} \<inter> granted env"
    "set (stray (nf10_remove h)) \<subseteq> set (stray h) \<union> - granted env \<union> {Dev_class}" "Dev_class \<in> set (stray (nf10_remove h))"
    "hcard (nf10_remove h) = hcard h"
proof -
  note f = free_private_fields [OF n]
  note sets = device_resources_def port_resources_def ring_resources_def basic_resources_def book_resources_def netdev_resources_def
  have "held (nf10_remove h) = held h - ({Dev_node, Dev_class, Cdev, Chrdev_region, Irq_line, Cfg_map, Tx_map, Rx_map,
      Tx_dne_buf, Rx_dne_buf, Card_struct} \<union> netdev_resources 4 \<union> set book_resources) - {Mem_region 0, Mem_region 2, Msi, Pci_enabled}"
    by (simp add: nf10_remove_def Let_def h(2) f) blast
  then show "held (nf10_remove h) = {Work_queue} \<inter> granted env" unfolding h by (auto simp: sets)
  have s: "set (stray (nf10_remove h)) = set (stray (free_private h)) \<union> ({Mem_region 0, Mem_region 2, Msi, Pci_enabled} - held (free_private h))"
    by (simp add: nf10_remove_def Let_def h(2)) auto
  show "set (stray (nf10_remove h)) \<subseteq> set (stray h) \<union> - granted env \<union> {Dev_class}"
    unfolding s f h by (auto simp: sets)
  show "Dev_class \<in> set (stray (nf10_remove h))" unfolding s f by simp
  show "hcard (nf10_remove h) = hcard h" by (simp add: nf10_remove_def Let_def h(2) f)
qed

text \<open>
  C21: Removing a card after a successful probe gives back everything that the probe took but the
  work queue, which is never destroyed. The class is given back twice; nothing else that was granted
  is given back twice. The receive buffers that the card still has are neither freed nor unmapped.
\<close>

theorem nf10_remove_after_probe:
  assumes "held h = {}" "stray h = []" "\<not> drvdata h" "device_ready env" "nf10_probe env h = Some (ret, h')"
  shows "held (nf10_remove h') = {Work_queue} \<inter> granted env
    \<and> Dev_class \<in> set (stray (nf10_remove h')) \<and> set (stray (nf10_remove h')) \<subseteq> insert Dev_class (- granted env)
    \<and> rx_queue (hcard (nf10_remove h')) = given env \<and> freed (hcard (nf10_remove h')) = [] \<and> unmapped (hcard (nf10_remove h')) = []"
proof -
  have codes: "chrdev_code env \<le> 0" "cdev_code env \<le> 0" using assms(4) by (simp_all add: device_ready_def)
  from probe_result [OF assms(1-3) codes] assms(4,5)
  have p: "held h' = device_resources env" "drvdata h'" "card_started env (hcard h')" "set (stray h') \<subseteq> - granted env" by auto
  then have n: "length (ndev (hcard h')) = 4" by (simp add: card_started_def)
  show ?thesis using removed [OF p(1,2) n] p(3,4) by (auto simp: card_started_def)
qed

theorem nf10_remove_after_probe_witness:
  "\<exists>h. nf10_probe sample_env sample_host = Some (0, h) \<and> held (nf10_remove h) = {Work_queue} \<and> set (stray (nf10_remove h)) = {Dev_class}"
proof -
  obtain h where h: "nf10_probe sample_env sample_host = Some (0, h)"
    using probe_result [of sample_host sample_env] sample_ready(1) by (auto simp: sample_host_def sample_env_def)
  show ?thesis
    using nf10_remove_after_probe [OF _ _ _ sample_ready(1) h] h by (auto simp: sample_host_def sample_ready(2))
qed

section \<open>The work handler and the rings\<close>

text \<open>The card reports a completion at a read pointer only when it has a packet or a buffer.\<close>

definition reports_fair :: "nf10_card \<Rightarrow> bool" where
  "reports_fair c \<longleftrightarrow> (tx_done_word (host_tx_buf c ! tx_first c) \<longrightarrow> tx_queue c \<noteq> [])
    \<and> (rx_done_word (host_rx_buf c ! rx_first c) \<longrightarrow> rx_queue c \<noteq> [])"

fun fair_run :: "(card_event list \<times> rx_alloc) list \<Rightarrow> work_state \<Rightarrow> bool" where
  "fair_run [] ws = True"
| "fair_run ((es, alloc) # turns) ws =
    (let ws = ws\<lparr>wcard := fold card_writes es (wcard ws)\<rparr>
     in reports_fair (wcard ws) \<and> (case work_turn alloc ws of None \<Rightarrow> True | Some ws \<Rightarrow> tcnt ws = 0 \<or> fair_run turns ws))"

text \<open>Both rings are in order, and what was sent is what was released and what the card still has.\<close>

definition still_sent :: "sk_buff list \<Rightarrow> nf10_card \<Rightarrow> bool" where
  "still_sent sent c \<longleftrightarrow> tx_ok c \<and> rx_ok c \<and> (\<exists>k. tx_queue c = drop k sent)"

lemma still_sent_writes: "still_sent sent (fold card_writes es c) = still_sent sent c"
proof (induction es arbitrary: c)
  case (Cons e es)
  have "still_sent sent (card_writes e c) = still_sent sent c"
    by (cases e) (simp_all add: still_sent_def tx_ok_def rx_ok_def card_ok_def tx_queue_def tx_first_def rx_first_def Let_def)
  with Cons show ?case by simp
qed simp

lemma still_sent_cfg [simp]: "still_sent sent (c\<lparr>cfg := f\<rparr>) = still_sent sent c"
  by (simp add: still_sent_def tx_ok_def rx_ok_def card_ok_def tx_queue_def tx_first_def rx_first_def Let_def)

lemma look_still_sent:
  assumes s: "still_sent sent c" and f: "reports_fair c" and l: "look alloc c = Some d"
  shows "still_sent sent d"
proof -
  obtain k where ok: "tx_ok c" "rx_ok c" "tx_queue c = drop k sent" using s by (auto simp: still_sent_def)
  let ?t = "tx_done_word (host_tx_buf c ! tx_first c)" and ?r = "rx_done_word (host_rx_buf c ! rx_first c)"
  obtain e where e: "(if ?t then tx_complete c else Some c) = Some e"
    "(if ?r then rx_complete alloc (host_rx_buf c ! rx_first c) e else Some e) = Some d"
    using l by (auto simp: look_def Let_def bind_eq_Some_conv)
  have "tx_ok e \<and> rx_ok e \<and> rx_queue e = rx_queue c \<and> (\<exists>k. tx_queue e = drop k sent)"
  proof (cases ?t)
    case True
    then obtain x xs where q: "tx_queue c = x # xs" using f by (cases "tx_queue c") (auto simp: reports_fair_def)
    then have "xs = drop (Suc k) sent" using ok(3) by (metis drop_Suc tl_drop list.sel(3))
    with tx_complete_both [OF ok(1,2) q] True e(1) show ?thesis by auto
  next
    case False
    with e(1) ok show ?thesis by auto
  qed
  then obtain j where f': "tx_ok e" "rx_ok e" "rx_queue e = rx_queue c" "tx_queue e = drop j sent" by blast
  show ?thesis
  proof (cases ?r)
    case True
    then obtain x xs where "rx_queue e = x # xs" using f f'(3) by (cases "rx_queue c") (auto simp: reports_fair_def)
    from rx_complete_result [OF f'(1,2) this, of alloc "host_rx_buf c ! rx_first c"] True e(2) f'(4)
    show ?thesis by (auto simp: still_sent_def)
  next
    case False
    with e(2) f' show ?thesis by (auto simp: still_sent_def)
  qed
qed

lemma work_turn_still_sent:
  assumes s: "still_sent sent (wcard ws)" and f: "reports_fair (wcard ws)" and w: "work_turn alloc ws = Some ws'"
  shows "still_sent sent (wcard ws')"
proof -
  have g: "card_ok (wcard ws)" using s by (simp add: still_sent_def card_of_tx)
  have fair: "reports_fair ((wcard ws)\<lparr>cfg := h\<rparr>)" for h
    using f by (simp add: reports_fair_def tx_queue_def rx_queue_def tx_first_def rx_first_def)
  let ?c = "if int_enabled ws \<and> work_counter ws > 0 then (wcard ws)\<lparr>cfg := (cfg (wcard ws))(25 := 0, 26 := 0)\<rparr> else wcard ws"
  obtain d where d: "look alloc ?c = Some d" and ws': "wcard ws' = d \<or> wcard ws' = d\<lparr>cfg := (cfg d)(25 := 1, 26 := 1)\<rparr>"
    using w unfolding work_turn_look [OF g] Let_def by (auto simp del: if_split split: if_split_asm)
  have "still_sent sent ?c" "reports_fair ?c" using s f fair by simp_all
  from look_still_sent [OF this d] ws' show ?thesis by auto
qed

lemma work_loop_still_sent:
  assumes "still_sent sent (wcard ws)" "tcnt ws = 0 \<or> fair_run turns ws" "work_loop turns ws = Some (Done c)"
  shows "still_sent sent c"
  using assms
proof (induction turns arbitrary: ws)
  case Nil
  then show ?case by (subst (asm) work_loop.simps) (auto split: if_splits)
next
  case (Cons t turns)
  show ?case
  proof (cases "tcnt ws = 0")
    case True
    then have "work_loop (t # turns) ws = Some (Done (wcard ws))" by (subst work_loop.simps) simp
    with Cons.prems show ?thesis by simp
  next
    case False
    obtain es alloc where t: "t = (es, alloc)" by (cases t)
    let ?ws = "ws\<lparr>wcard := fold card_writes es (wcard ws)\<rparr>"
    obtain ws' where w: "work_turn alloc ?ws = Some ws'" "work_loop turns ws' = Some (Done c)"
      using Cons.prems(3) False by (subst (asm) work_loop.simps) (auto simp: t split: option.splits)
    have f: "reports_fair (wcard ?ws)" "tcnt ws' = 0 \<or> fair_run turns ws'"
      using Cons.prems(2) False w(1) by (auto simp: t Let_def)
    have "still_sent sent (wcard ?ws)" using Cons.prems(1) by (simp add: still_sent_writes)
    from work_turn_still_sent [OF this f(1) w(1)] show ?thesis by (rule Cons.IH) (use f(2) w(2) in auto)
  qed
qed

text \<open>
  C8: A run of the work handler keeps both rings in order: when the card reports completions only
  of what it has, the handler returns, the packets still in the ring are the most recent ones of
  those that were there, in the same order, so that it has released the oldest; both rings are
  again in order, and nothing is ready at the read pointers.
\<close>

theorem work_handler_keeps_rings:
  assumes "tx_ok c" "rx_ok c" "1 + 3 * (ready c + length (concat (map fst turns))) \<le> length turns"
    "fair_run turns \<lparr>wcard = c, tcnt = 1, int_enabled = True, work_counter = 0\<rparr>"
  shows "\<exists>c'. work_handler turns c = Some (Done c') \<and> tx_ok c' \<and> rx_ok c' \<and> quiet c' \<and> (\<exists>k. tx_queue c' = drop k (tx_queue c))"
proof -
  obtain c' where w: "work_handler turns c = Some (Done c')" "quiet c'"
    using handler_returns [OF card_of_tx [OF assms(1)] assms(3)] by blast
  have "still_sent (tx_queue c) c" using assms(1,2) by (auto simp: still_sent_def intro: exI [of _ 0])
  then have "still_sent (tx_queue c) c'"
    by (rule work_loop_still_sent [OF _ disjI2 [OF assms(4)] w(1) [unfolded work_handler_def], simplified work_state.select_convs])
  with w show ?thesis by (auto simp: still_sent_def)
qed

text \<open>Turns in which the card is silent are fair once nothing is ready.\<close>

lemma none_ready:
  assumes "card_ok c" "ready c = 0"
  shows "quiet c" "reports_fair c"
proof -
  have len: "tx_first c < length (host_tx_buf c)" "rx_first c < length (host_rx_buf c)"
    using assms(1) first_slot(1,2) [OF assms(1)] by (simp_all add: card_ok_def)
  then show "quiet c" using assms(2) by (simp add: ready_def quiet_def filter_empty_conv)
  then show "reports_fair c" by (simp add: quiet_def reports_fair_def)
qed

lemma silent_fair:
  assumes "card_ok (wcard ws)" "ready (wcard ws) = 0"
  shows "fair_run (replicate n ([], alloc)) ws"
  using assms
proof (induction n arbitrary: ws)
  case (Suc n)
  note q = none_ready [OF Suc.prems]
  have same: "card_ok (c\<lparr>cfg := f\<rparr>) = card_ok c" "ready (c\<lparr>cfg := f\<rparr>) = ready c" for c f
    by (simp_all add: card_ok_def ready_def)
  let ?c = "if int_enabled ws \<and> work_counter ws > 0 then (wcard ws)\<lparr>cfg := (cfg (wcard ws))(25 := 0, 26 := 0)\<rparr> else wcard ws"
  have c: "card_ok ?c" "ready ?c = 0" using Suc.prems by (simp_all add: same)
  have "look alloc ?c = Some ?c" using look_result [OF c(1), of alloc] none_ready(1) [OF c] by auto
  then obtain ws' where w: "work_turn alloc ws = Some ws'" "card_ok (wcard ws')" "ready (wcard ws') = 0"
    unfolding work_turn_look [OF Suc.prems(1)] Let_def using c by (auto simp: same split: if_splits)
  have "fair_run (replicate n ([], alloc)) ws'" by (rule Suc.IH [OF w(2,3)])
  then show ?case using q(2) w(1) by simp
qed simp

theorem work_handler_keeps_rings_witness:
  "\<exists>c c'. card_started sample_env c \<and> rx_ok c' \<and> quiet c'
    \<and> work_handler (([RxDone (of_nat (rx_first c)) 0x0800003c], None) # replicate 3 ([], None)) c = Some (Done c')"
proof -
  obtain c where c: "card_started sample_env c" using sample_started by blast
  then have ok: "tx_ok c" "rx_ok c" "ready c = 0" "rx_queue c \<noteq> []" by (simp_all add: card_started_def sample_given)
  let ?e = "RxDone (of_nat (rx_first c)) 0x0800003c"
  let ?d = "card_writes ?e c"
  let ?ws = "\<lparr>wcard = ?d, tcnt = 1, int_enabled = True, work_counter = 0\<rparr>"
  have g: "card_ok ?d" using card_ok_writes [of c "[?e]"] card_of_tx [OF ok(1)] by simp
  have "\<not> tx_done_word (host_tx_buf c ! tx_first c)" using none_ready(1) [OF card_of_tx [OF ok(1)] ok(3)] by (simp add: quiet_def)
  then have f: "reports_fair ?d" using ok(4) by (simp add: reports_fair_def rx_queue_def tx_first_def rx_first_def)
  have "rx_first c < 2 ^ 64" "rx_first c < length (host_rx_buf c)"
    using first_slot(2) [OF card_of_tx [OF ok(1)]] card_of_tx [OF ok(1)] by (simp_all add: card_ok_def)
  then have "\<not> quiet ?d"
    by (simp add: quiet_def rx_first_def unat_of_nat rx_done_word_def drop_bit_eq_div)
  moreover have "ready ?d \<le> 1" using ready_writes [of "[?e]" c] ok(3) by simp
  moreover obtain d where d: "look None ?d = Some d" "card_ok d" "if quiet ?d then d = ?d else ready d < ready ?d"
    using look_result [OF g, of None] by blast
  ultimately have r: "ready d = 0" by simp
  have "work_turn None ?ws = Some \<lparr>wcard = d, tcnt = 2, int_enabled = True, work_counter = 1\<rparr>"
    using work_turn_look [of ?ws None] g d(1) \<open>\<not> quiet ?d\<close> by (simp add: Let_def)
  then have "fair_run (([?e], None) # replicate 3 ([], None)) \<lparr>wcard = c, tcnt = 1, int_enabled = True, work_counter = 0\<rparr>"
    using f silent_fair [of "\<lparr>wcard = d, tcnt = 2, int_enabled = True, work_counter = 1\<rparr>" 3 None] d(2) r
    by (simp del: card_writes.simps)
  from work_handler_keeps_rings [OF ok(1,2) _ this] ok(3) c show ?thesis by auto
qed

end
