(* ===== verification/Spec2Isabelle.thy ===== *)
theory Spec2Isabelle
  imports Bitmap_Text Placement Irqbalance_Laws Nf10_Properties
begin

text \<open>
  A verification development of the two programs of this repository: irqbalance, the daemon that
  spreads the hardware interrupts of a Linux machine over its CPUs, and the Linux driver of the
  NetFPGA 10G network card.

  \<^bold>\<open>The programs.\<close> irqbalance reads the NUMA nodes, packages, cache domains and CPUs from sysfs into a
  tree of objects (numa.c, cputree.c) and the interrupts with their class, level and hints into a data
  base (classify.c). Then, every ten seconds, it reads the counters of \<open>/proc/interrupts\<close> and the CPU
  times of \<open>/proc/stat\<close> and shares the load of each object among its interrupts (procinterrupts.c),
  takes interrupts from the objects with too much load (irqlist.c), gives those that are pending to
  nodes and pushes them down the tree (placement.c), and writes the CPU mask of each interrupt that
  moved (activate.c). irqbalance.c holds the command line, the signals and the loop. Below are the
  bit maps and CPU masks (bitmap.c, bitmap.h, non-atomic.h, cpumask.h) and the linked lists
  (glib-local/glist.c).

  The NF10 driver keeps for a card two rings of 32 descriptors, each with a packet memory of 512
  lines of 64 bytes. nf10priv.c sends a packet, gives the card a receive descriptor, and handles the
  completions that the card writes to memory; nf10iface.c has the four network interfaces and the
  interrupt, nf10fops.c the character device, nf10driver.c probes and removes a card.

  \<^bold>\<open>Theories of irqbalance.\<close>
  \<^item> \<open>Prelude\<close>: integer types, rule collections, loop rules. \<open>Cwords\<close>: population counts and
    find-last-set on words, and the sizes of bit maps.
  \<^item> \<open>Bitmap\<close> models bitmap.c, bitmap.h and non-atomic.h on lists of 64-bit words in a store;
    \<open>Bitmap_Laws\<close> proves each operation exact on the set of its bits. \<open>Cpumask\<close> is cpumask.h with
    the algebra of CPU sets as a locale. \<open>Bitmap_Text\<close> is the text form (\<open>bitmap_scnprintf\<close>,
    \<open>__bitmap_parse\<close>) with its round trip.
  \<^item> \<open>Glist\<close> models glist.c on a heap of nodes and proves that its operations refine those on lists;
    the other theories use the lists.
  \<^item> \<open>Topo\<close> has \<open>topo_obj\<close>, \<open>irq_info\<close> and the global state, and the operations on interrupt lists of
    classify.c. \<open>Irq_Moves\<close> states what moving interrupts promises as a step relation on places, and
    as a locale that is interpreted on \<open>migrate_irq\<close>.
  \<^item> \<open>Irqlist\<close> (irqlist.c), \<open>Placement\<close> (placement.c) and \<open>Activate\<close> (activate.c) model the balancing
    half of a pass: lists stay consistent, no interrupt is lost, bounds of the load that is moved,
    the choice of an object, the mask that is written.
  \<^item> \<open>Cstrings\<close>: the C functions on text. \<open>Daemon\<close>: the other global variables and allocation.
    \<open>Procinterrupts\<close> (procinterrupts.c): reading the two files and sharing the load. \<open>Numa\<close> and
    \<open>Cputree\<close> (numa.c, cputree.c): building and freeing the tree; \<open>Tree_Laws\<close> has its invariant.
    \<open>Classify\<close> (classify.c): building and freeing the data base, bans and policies.
  \<^item> \<open>Irqbalance\<close> (irqbalance.c) composes them as the code does. \<open>Cycle_Frames\<close> shows what each step
    leaves alone. \<open>Irqbalance_Laws\<close> has the invariant of the daemon, \<open>daemon_inv\<close>, and the theorems on
    the start, a rescan, a pass and the loop, which use the laws of all the components.

  \<^bold>\<open>Theories of the NF10 driver.\<close>
  \<^item> \<open>Nf10_Ring\<close> models nf10priv.c: the record \<open>nf10_card\<close> and the three functions. \<open>Nf10_Ring_Laws\<close>
    reads the two rings as queues (\<open>tx_queue\<close>, \<open>rx_queue\<close>) with their invariants \<open>tx_ok\<close> and \<open>rx_ok\<close>;
    the locale \<open>fifo\<close> is interpreted on both rings.
  \<^item> \<open>Nf10_Work_Laws\<close>: every call keeps the geometry of the rings, the work handler returns, and how
    far the receive ring fills.
  \<^item> \<open>Nf10_Kernel\<close>: the resources that the driver takes from the kernel and gives back. \<open>Nf10_Fops\<close>,
    \<open>Nf10_Iface\<close> and \<open>Nf10_Driver\<close> model nf10fops.c, nf10iface.c and nf10driver.c; each label of
    \<open>nf10_probe\<close> is a function, so that every error path is the composition that the code runs.
  \<^item> \<open>Nf10_Driver_Laws\<close> and \<open>Nf10_Probe_Laws\<close>: the card that a probe sets up, and the outcome of a
    probe for every choice of what the kernel grants.
  \<^item> \<open>Nf10_Laws\<close>: the rings under any order of calls, as a step relation with its invariant.
    \<open>Nf10_Properties\<close>: the other theorems on the driver.

  \<^bold>\<open>What the theorems show.\<close> The main loop never faults on fine inputs, and ends after a SIGINT with
  everything freed; a pass loses no interrupt and leaves each one that has a usable node at an
  object of the tree; the start and each rescan establish the invariant. Below, each component is
  shown correct on every branch: the tree and the data base are well formed whatever the files
  hold, counters never fall, shared loads stay within the budget of their object, masks are written
  and read back exactly, shifts, queries and text of bit maps are exact, list operations and the
  sort refine those on lists. For the driver: packets are released in the order in which they were
  accepted, each once; the rings do not overflow; an accepted packet fits; the work handler returns
  with nothing left at its read pointers; a probe that fails gives back all but what \<open>leaked\<close> names.
  Some theorems state faults of the code: an interrupt left at a node may be sent to banned CPUs, the
  hint of an interrupt is ignored for its own node, a full write buffer of the card is written to, a
  removed card keeps its work queue and its receive buffers.

  \<^bold>\<open>Results and bounds.\<close> A result \<open>None\<close> of a model is undefined behaviour of the C code (an index
  outside an array, a NULL pointer, a loop that does not end); theorems that a result is \<open>Some\<close>
  exclude it. The loops of glist.c are \<open>partial_function (option)\<close> and are proved to return. The
  recursion of \<open>clear_obj_stats\<close> is cut off at four levels, which are enough because the kinds of
  objects strictly descend (\<open>clear_work_stats_clears\<close>). \<open>main_loop\<close> runs on the list of inputs of its
  passes and \<open>work_loop\<close> on the list of what the card writes before each turn; both tell whether they
  have ended, and the theorems give the number of turns that is enough. Integers are words of the
  width of the source wherever they can wrap; loads are \<open>u64\<close>, counters of the rings are \<open>u64\<close>.

  \<^bold>\<open>Parameters.\<close> The files of sysfs and procfs, the scripts, and what uninitialised memory holds are
  parameters of the irqbalance model. The answers of the kernel to each request, the addresses of
  DMA mappings, user memory, the registers that are read, and what the card writes to the
  completion buffers are parameters of the driver model.

  \<^bold>\<open>Not modelled.\<close> Log messages and the dump functions; syslog, the pid file, the capabilities and
  \<open>getopt_long\<close> itself; rounding of floating point numbers (the standard deviation is shown to be
  compared exactly, the product in \<open>parse_proc_stat\<close> is exact in the model); signals that arrive while the
  program is not asleep; failing \<open>malloc\<close> in irqbalance. In the driver the interleaving inside a call
  (the locks make the calls steps), the memory barriers, the sleeps, the loopback mode, which is not
  compiled, and the registration of the module. bitmap.h and cpumask.h also declare functions that no
  file defines (subset, remap, list forms); they have no code to model.
\<close>

end
